(* ===== verification/Kern_Prelude.thy ===== *)
theory Kern_Prelude
  imports Main "HOL-Library.Word" "HOL-Library.Monad_Syntax"
begin

text \<open>
  Shared ground of the development: the kernel's error codes (\<^verbatim>\<open>src/libs/error.h\<close>), the
  encoding of \<^verbatim>\<open>assert\<close> and \<^verbatim>\<open>panic\<close> (\<^verbatim>\<open>src/kern/debug/assert.h\<close>), and the generic lemmas on lists and options that the component
  theories use.

  Conventions of every theory of the development.
  \<^item> A function of the C code that can panic, fail an assertion or loop forever returns an
    \<open>option\<close>: \<open>None\<close> is "does not return to its caller".
  \<^item> A function that returns \<^verbatim>\<open>-E_xxx\<close> or a result returns a value of the sum type
    \<open>'a res\<close>: \<open>Inl\<close> is the error code and \<open>Inr\<close> the result.
  \<^item> State is passed and returned explicitly, as the last argument and the last component.
\<close>

subsection \<open>Error codes\<close>

datatype errno =
    E_UNSPECIFIED | E_BAD_PROC | E_INVAL | E_NO_MEM | E_NO_FREE_PROC | E_FAULT
  | E_SWAP_FAULT | E_INVAL_ELF | E_KILLED | E_PANIC | E_TIMEOUT | E_TOO_BIG
  | E_NO_DEV | E_NA_DEV | E_BUSY | E_NOENT | E_ISDIR | E_NOTDIR | E_XDEV | E_UNIMP
  | E_SEEK | E_MAX_OPEN | E_EXISTS | E_NOTEMPTY

type_synonym 'a res = "errno + 'a"

primrec errno_code :: "errno \<Rightarrow> int" where
  "errno_code E_UNSPECIFIED = 1"
| "errno_code E_BAD_PROC = 2"
| "errno_code E_INVAL = 3"
| "errno_code E_NO_MEM = 4"
| "errno_code E_NO_FREE_PROC = 5"
| "errno_code E_FAULT = 6"
| "errno_code E_SWAP_FAULT = 7"
| "errno_code E_INVAL_ELF = 8"
| "errno_code E_KILLED = 9"
| "errno_code E_PANIC = 10"
| "errno_code E_TIMEOUT = 11"
| "errno_code E_TOO_BIG = 12"
| "errno_code E_NO_DEV = 13"
| "errno_code E_NA_DEV = 14"
| "errno_code E_BUSY = 15"
| "errno_code E_NOENT = 16"
| "errno_code E_ISDIR = 17"
| "errno_code E_NOTDIR = 18"
| "errno_code E_XDEV = 19"
| "errno_code E_UNIMP = 20"
| "errno_code E_SEEK = 21"
| "errno_code E_MAX_OPEN = 22"
| "errno_code E_EXISTS = 23"
| "errno_code E_NOTEMPTY = 24"

text \<open>The \<^verbatim>\<open>int\<close> a function hands to its caller: a negated code, or the value itself.\<close>

definition ret_int :: "int res \<Rightarrow> int" where
  "ret_int r = (case r of Inl e \<Rightarrow> - errno_code e | Inr v \<Rightarrow> v)"

subsection \<open>Assertions\<close>

definition kassert :: "bool \<Rightarrow> unit option" where
  "kassert b = (if b then Some () else None)"

lemma kassert_simps [simp]:
  "kassert True = Some ()"
  "kassert False = None"
  by (simp_all add: kassert_def)

lemma kassert_eq_Some [simp]: "kassert b = Some u \<longleftrightarrow> b"
  by (simp add: kassert_def)

lemma kassert_bind [simp]: "kassert b \<bind> f = (if b then f () else None)"
  by (simp add: kassert_def)

text \<open>An error code as it is returned by a C function.\<close>

abbreviation err :: "errno \<Rightarrow> int" where "err e \<equiv> - errno_code e"

lemma errno_code_pos: "0 < errno_code e"
  by (cases e) simp_all

lemma errno_code_inj: "inj errno_code"
proof (rule injI)
  fix d e :: errno
  assume "errno_code d = errno_code e"
  then show "d = e" by (cases d; cases e) simp_all
qed

subsection \<open>Collections of rewrite rules\<close>

named_theorems ring_simps \<open>walking and updating the doubly linked rings of list.h\<close>
named_theorems page_simps \<open>reading page descriptors back after an update\<close>
named_theorems kdefs \<open>definitions of the operations of a component\<close>

end
