(* ===== verification/Skew_Heap.thy ===== *)
theory Skew_Heap
  imports Kern_Prelude "HOL-Library.Tree_Multiset"
begin

text \<open>
  The pointer-based skew heap of \<^verbatim>\<open>src/libs/skew_heap.h\<close>, the priority queue of the stride
  scheduler. Entries live in a store of \<^verbatim>\<open>parent\<close>, \<^verbatim>\<open>left\<close>, \<^verbatim>\<open>right\<close> records (NULL is None); merging
  recurses over pointers, so it is a partial function. \<open>sk h t\<close> says that the store holds tree
  \<open>t\<close>; the refinement lemmas show that the pointer operations end and compute the purely
  functional \<open>merge_tree\<close> and \<open>remove_tree\<close>, and touch no entry outside the heap. The locale
  \<open>heap_order\<close> states what a comparison function has to satisfy for the heap order to hold.
\<close>

record 'a skew_heap_entry =
  sh_parent :: "'a option"
  sh_left :: "'a option"
  sh_right :: "'a option"

type_synonym 'a sstore = "'a \<Rightarrow> 'a skew_heap_entry"

definition set_parent :: "'a option \<Rightarrow> 'a option \<Rightarrow> 'a sstore \<Rightarrow> 'a sstore" where
  "set_parent l p h = (case l of None \<Rightarrow> h | Some x \<Rightarrow> h(x := (h x)\<lparr>sh_parent := p\<rparr>))"

definition skew_heap_init :: "'a \<Rightarrow> 'a sstore \<Rightarrow> 'a sstore" where
  "skew_heap_init a h = h(a := \<lparr>sh_parent = None, sh_left = None, sh_right = None\<rparr>)"

partial_function (option) skew_heap_merge ::
  "('a \<Rightarrow> 'a \<Rightarrow> int) \<Rightarrow> 'a option \<Rightarrow> 'a option \<Rightarrow> 'a sstore \<Rightarrow> ('a option \<times> 'a sstore) option" where
  "skew_heap_merge cmp a b h =
     (case a of None \<Rightarrow> Some (b, h) | Some x \<Rightarrow>
      (case b of None \<Rightarrow> Some (a, h) | Some y \<Rightarrow>
        if cmp x y = -1 then do {
          let r = sh_left (h x);
          (l, h1) \<leftarrow> skew_heap_merge cmp (sh_right (h x)) b h;
          let h2 = h1(x := (h1 x)\<lparr>sh_left := l, sh_right := r\<rparr>);
          Some (a, set_parent l a h2)
        } else do {
          let r = sh_left (h y);
          (l, h1) \<leftarrow> skew_heap_merge cmp a (sh_right (h y)) h;
          let h2 = h1(y := (h1 y)\<lparr>sh_left := l, sh_right := r\<rparr>);
          Some (b, set_parent l b h2)
        }))"

declare skew_heap_merge.simps [code]

definition skew_heap_insert ::
  "('a \<Rightarrow> 'a \<Rightarrow> int) \<Rightarrow> 'a option \<Rightarrow> 'a \<Rightarrow> 'a sstore \<Rightarrow> ('a option \<times> 'a sstore) option" where
  "skew_heap_insert cmp a b h = skew_heap_merge cmp a (Some b) (skew_heap_init b h)"

definition skew_heap_remove ::
  "('a \<Rightarrow> 'a \<Rightarrow> int) \<Rightarrow> 'a option \<Rightarrow> 'a \<Rightarrow> 'a sstore \<Rightarrow> ('a option \<times> 'a sstore) option" where
  "skew_heap_remove cmp a b h = do {
     let p = sh_parent (h b);
     (rep, h1) \<leftarrow> skew_heap_merge cmp (sh_left (h b)) (sh_right (h b)) h;
     let h2 = set_parent rep p h1;
     case p of
       Some q \<Rightarrow>
         if sh_left (h2 q) = Some b then Some (a, h2(q := (h2 q)\<lparr>sh_left := rep\<rparr>))
         else Some (a, h2(q := (h2 q)\<lparr>sh_right := rep\<rparr>))
     | None \<Rightarrow> Some (rep, h2)
   }"

subsection \<open>Trees\<close>

function merge_tree :: "('a \<Rightarrow> 'a \<Rightarrow> int) \<Rightarrow> 'a tree \<Rightarrow> 'a tree \<Rightarrow> 'a tree" where
  "merge_tree cmp Leaf b = b"
| "merge_tree cmp (Node la x ra) Leaf = Node la x ra"
| "merge_tree cmp (Node la x ra) (Node lb y rb) =
     (if cmp x y = -1 then Node (merge_tree cmp ra (Node lb y rb)) x la
      else Node (merge_tree cmp (Node la x ra) rb) y lb)"
  by pat_completeness auto
termination by (relation "measure (\<lambda>(_, a, b). size a + size b)") auto

fun remove_tree :: "('a \<Rightarrow> 'a \<Rightarrow> int) \<Rightarrow> 'a \<Rightarrow> 'a tree \<Rightarrow> 'a tree" where
  "remove_tree cmp b Leaf = Leaf"
| "remove_tree cmp b (Node l x r) =
     (if x = b then merge_tree cmp l r
      else if b \<in> set_tree l then Node (remove_tree cmp b l) x r
      else Node l x (remove_tree cmp b r))"

fun rootp :: "'a tree \<Rightarrow> 'a option" where
  "rootp Leaf = None"
| "rootp (Node l x r) = Some x"

text \<open>\<open>sk h t\<close>: the store holds tree \<open>t\<close>; the parent of the root is not part of it.\<close>

definition child_of :: "'a sstore \<Rightarrow> 'a \<Rightarrow> 'a tree \<Rightarrow> bool" where
  "child_of h x t \<longleftrightarrow> (\<forall>z. rootp t = Some z \<longrightarrow> sh_parent (h z) = Some x)"

fun sk :: "'a sstore \<Rightarrow> 'a tree \<Rightarrow> bool" where
  "sk h Leaf = True"
| "sk h (Node l x r) \<longleftrightarrow> sh_left (h x) = rootp l \<and> sh_right (h x) = rootp r \<and>
     child_of h x l \<and> child_of h x r \<and> sk h l \<and> sk h r"

abbreviation dist_tree :: "'a tree \<Rightarrow> bool" where "dist_tree t \<equiv> distinct (inorder t)"

lemma rootp_in: "rootp t = Some x \<Longrightarrow> x \<in> set_tree t" by (cases t) auto

lemma child_of_frame: "(\<And>x. x \<in> set_tree t \<Longrightarrow> h' x = h x) \<Longrightarrow> child_of h' y t = child_of h y t"
  by (cases t) (auto simp: child_of_def)

lemma sk_frame: "(\<And>x. x \<in> set_tree t \<Longrightarrow> h' x = h x) \<Longrightarrow> sk h' t = sk h t"
proof (induction t)
  case (Node l x r)
  then show ?case using child_of_frame[of l h' h x] child_of_frame[of r h' h x] by simp
qed simp

lemma merge_tree_Leaf [simp]: "merge_tree cmp a Leaf = a" by (cases a) auto

lemma mset_merge_tree [simp]: "mset_tree (merge_tree cmp a b) = mset_tree a + mset_tree b"
  by (induction cmp a b rule: merge_tree.induct) auto

lemma set_merge_tree [simp]: "set_tree (merge_tree cmp a b) = set_tree a \<union> set_tree b"
  using mset_merge_tree[of cmp a b] by (metis set_mset_tree set_mset_union)

lemma dist_merge_tree:
  "dist_tree (merge_tree cmp a b) \<longleftrightarrow> dist_tree a \<and> dist_tree b \<and> set_tree a \<inter> set_tree b = {}"
proof -
  have "dist_tree (merge_tree cmp a b) \<longleftrightarrow> distinct (inorder a @ inorder b)"
    by (rule mset_eq_imp_distinct_iff) simp
  then show ?thesis by simp
qed

text \<open>Redirecting the parent of the root changes nothing else.\<close>

lemma set_parent_apply: "set_parent l p h z = (if l = Some z then (h z)\<lparr>sh_parent := p\<rparr> else h z)"
  by (auto simp: set_parent_def split: option.splits)

lemma sk_set_parent:
  assumes "dist_tree t" "rootp t = l" shows "sk (set_parent l p h) t = sk h t"
proof (cases t)
  case (Node a x b)
  then have "set_parent l p h z = h z" if "z \<in> set_tree a \<or> z \<in> set_tree b" for z
    using assms that by (auto simp: set_parent_apply)
  then show ?thesis
    using sk_frame[of a "set_parent l p h" h] sk_frame[of b "set_parent l p h" h]
      child_of_frame[of a "set_parent l p h" h x] child_of_frame[of b "set_parent l p h" h x] Node assms
    by (simp add: set_parent_apply)
qed simp

text \<open>One level of merging: \<open>m\<close> becomes the left child of \<open>x\<close>, the old left child moves right.\<close>

lemma merge_step:
  assumes h1: "sk h1 m" and d: "dist_tree m" "x \<notin> set_tree m" "x \<notin> set_tree la" "set_tree m \<inter> set_tree la = {}"
    and keep: "h1 x = h x" "\<And>z. z \<in> set_tree la \<Longrightarrow> h1 z = h z"
    and la: "sk h la" "child_of h x la"
  defines "h3 \<equiv> set_parent (rootp m) (Some x) (h1(x := (h1 x)\<lparr>sh_left := rootp m, sh_right := rootp la\<rparr>))"
  shows "sk h3 (Node m x la)" "sh_parent (h3 x) = sh_parent (h x)"
    "\<And>z. z \<noteq> x \<Longrightarrow> z \<notin> set_tree m \<Longrightarrow> h3 z = h1 z"
proof -
  have rm: "rootp m \<noteq> Some x" "\<And>z. z \<in> set_tree la \<Longrightarrow> rootp m \<noteq> Some z"
    using d rootp_in[of m] by auto
  have hla: "h3 z = h z" if "z \<in> set_tree la" for z
    using that rm keep d by (auto simp: h3_def set_parent_apply)
  have "sk (h1(x := (h1 x)\<lparr>sh_left := rootp m, sh_right := rootp la\<rparr>)) m"
    by (rule sk_frame[THEN iffD2, OF _ h1]) (use d(2) in auto)
  then have "sk h3 m" unfolding h3_def using sk_set_parent[OF d(1) refl] by blast
  moreover have "child_of h3 x m" by (auto simp: child_of_def h3_def set_parent_apply)
  moreover have "sk h3 la" "child_of h3 x la"
    using la sk_frame[of la h3 h] child_of_frame[of la h3 h x] hla by auto
  moreover have "sh_left (h3 x) = rootp m" "sh_right (h3 x) = rootp la"
    using rm by (auto simp: h3_def set_parent_apply)
  ultimately show "sk h3 (Node m x la)" by simp
  show "sh_parent (h3 x) = sh_parent (h x)" using rm keep by (auto simp: h3_def set_parent_apply)
  show "\<And>z. z \<noteq> x \<Longrightarrow> z \<notin> set_tree m \<Longrightarrow> h3 z = h1 z"
    using rootp_in[of m] by (auto simp: h3_def set_parent_apply)
qed

lemma skew_heap_merge_refines:
  assumes "sk h a" "sk h b" "dist_tree a" "dist_tree b" "set_tree a \<inter> set_tree b = {}"
  shows "\<exists>h'. skew_heap_merge cmp (rootp a) (rootp b) h = Some (rootp (merge_tree cmp a b), h') \<and>
    sk h' (merge_tree cmp a b) \<and> (\<forall>z. z \<notin> set_tree a \<union> set_tree b \<longrightarrow> h' z = h z) \<and>
    (\<forall>z. rootp (merge_tree cmp a b) = Some z \<longrightarrow> sh_parent (h' z) = sh_parent (h z))"
  using assms
proof (induction cmp a b rule: merge_tree.induct)
  case (3 cmp la x ra lb y rb)
  show ?case
  proof (cases "cmp x y = -1")
    case True
    let ?b = "Node lb y rb" and ?m = "merge_tree cmp ra (Node lb y rb)"
    obtain h1 where h1: "skew_heap_merge cmp (rootp ra) (Some y) h = Some (rootp ?m, h1)" "sk h1 ?m"
      "\<forall>z. z \<notin> set_tree ra \<union> set_tree ?b \<longrightarrow> h1 z = h z"
      using "3.IH"(1)[OF True] "3.prems" by auto
    have d: "dist_tree ?m" "x \<notin> set_tree ?m" "x \<notin> set_tree la" "set_tree ?m \<inter> set_tree la = {}"
      using "3.prems" by (auto simp: dist_merge_tree)
    have k: "h1 x = h x" "\<And>z. z \<in> set_tree la \<Longrightarrow> h1 z = h z" using h1(3) "3.prems" by auto
    note st = merge_step[OF h1(2) d k]
    have "skew_heap_merge cmp (Some x) (Some y) h = Some (Some x, set_parent (rootp ?m) (Some x)
        (h1(x := (h1 x)\<lparr>sh_left := rootp ?m, sh_right := rootp la\<rparr>)))"
      using True h1(1) "3.prems"(1) by (subst skew_heap_merge.simps) simp
    then show ?thesis using st h1(3) "3.prems" True by (simp add: ball_Un)
  next
    case False
    let ?a = "Node la x ra" and ?m = "merge_tree cmp (Node la x ra) rb"
    obtain h1 where h1: "skew_heap_merge cmp (Some x) (rootp rb) h = Some (rootp ?m, h1)" "sk h1 ?m"
      "\<forall>z. z \<notin> set_tree ?a \<union> set_tree rb \<longrightarrow> h1 z = h z"
      using "3.IH"(2)[OF False] "3.prems" by auto
    have d: "dist_tree ?m" "y \<notin> set_tree ?m" "y \<notin> set_tree lb" "set_tree ?m \<inter> set_tree lb = {}"
      using "3.prems" by (auto simp: dist_merge_tree)
    have k: "h1 y = h y" "\<And>z. z \<in> set_tree lb \<Longrightarrow> h1 z = h z" using h1(3) "3.prems" by auto
    note st = merge_step[OF h1(2) d k]
    have "skew_heap_merge cmp (Some x) (Some y) h = Some (Some y, set_parent (rootp ?m) (Some y)
        (h1(y := (h1 y)\<lparr>sh_left := rootp ?m, sh_right := rootp lb\<rparr>)))"
      using False h1(1) "3.prems"(2) by (subst skew_heap_merge.simps) simp
    then show ?thesis using st h1(3) "3.prems" False by (simp add: ball_Un)
  qed
qed (auto simp: skew_heap_merge.simps)

subsection \<open>Removal\<close>

lemma set_remove_tree: "dist_tree t \<Longrightarrow> b \<in> set_tree t \<Longrightarrow> mset_tree t = add_mset b (mset_tree (remove_tree cmp b t))"
proof (induction t)
  case (Node l x r)
  then show ?case by (cases "x = b"; cases "b \<in> set_tree l") auto
qed simp

lemma dist_remove_tree:
  assumes "dist_tree t" "b \<in> set_tree t"
  shows "dist_tree (remove_tree cmp b t)" "set_tree (remove_tree cmp b t) = set_tree t - {b}"
proof -
  have m: "mset (inorder t) = add_mset b (mset (inorder (remove_tree cmp b t)))"
    using set_remove_tree[OF assms] by simp
  then have "distinct (b # inorder (remove_tree cmp b t)) = distinct (inorder t)"
    by (intro mset_eq_imp_distinct_iff) simp
  then have d: "distinct (b # inorder (remove_tree cmp b t))" using assms by simp
  then show "dist_tree (remove_tree cmp b t)" by simp
  have "set_tree t = insert b (set_tree (remove_tree cmp b t))"
    using m by (metis mset_inorder set_mset_add_mset_insert set_mset_tree)
  then show "set_tree (remove_tree cmp b t) = set_tree t - {b}" using d by auto
qed

definition child_root :: "'a sstore \<Rightarrow> 'a option \<Rightarrow> 'a tree \<Rightarrow> bool" where
  "child_root h p t \<longleftrightarrow> (\<forall>z. rootp t = Some z \<longrightarrow> sh_parent (h z) = p)"

lemma child_of_root: "child_of h x t = child_root h (Some x) t"
  by (simp add: child_of_def child_root_def)

text \<open>Removing the root of a subtree: what \<open>skew_heap_remove\<close> does before it looks at the parent.\<close>

lemma remove_merge:
  assumes "sk h (Node l b r)" "dist_tree (Node l b r)" and m_def: "m = merge_tree cmp l r"
  obtains h2 where "skew_heap_merge cmp (sh_left (h b)) (sh_right (h b)) h \<bind> (\<lambda>(rep, h1). Some (rep, set_parent rep p h1)) =
      Some (rootp m, h2)" "sk h2 m" "child_root h2 p m"
    "\<forall>z. z \<notin> set_tree l \<union> set_tree r \<longrightarrow> h2 z = h z" "dist_tree m" "set_tree m = set_tree l \<union> set_tree r"
proof -
  obtain h1 where h1: "skew_heap_merge cmp (rootp l) (rootp r) h = Some (rootp m, h1)" "sk h1 m"
    "\<forall>z. z \<notin> set_tree l \<union> set_tree r \<longrightarrow> h1 z = h z"
    using skew_heap_merge_refines[of h l r cmp] assms by (auto simp: m_def)
  have d: "dist_tree m" "set_tree m = set_tree l \<union> set_tree r"
    using assms(2) by (auto simp: m_def dist_merge_tree)
  have "sk (set_parent (rootp m) p h1) m" using sk_set_parent[OF d(1) refl] h1(2) by blast
  moreover have "set_parent (rootp m) p h1 z = h z" if "z \<notin> set_tree l \<union> set_tree r" for z
    using that h1(3) d(2) rootp_in[of m z] by (auto simp: set_parent_apply)
  ultimately show ?thesis
    using that[of "set_parent (rootp m) p h1"] h1(1) assms(1) d by (simp add: set_parent_apply child_root_def)
qed

lemma skew_heap_remove_alt:
  "skew_heap_remove cmp a b h = (let p = sh_parent (h b) in
     skew_heap_merge cmp (sh_left (h b)) (sh_right (h b)) h \<bind> (\<lambda>(rep, h1). Some (rep, set_parent rep p h1)) \<bind>
     (\<lambda>(rep, h2). case p of
       Some q \<Rightarrow> if sh_left (h2 q) = Some b then Some (a, h2(q := (h2 q)\<lparr>sh_left := rep\<rparr>))
         else Some (a, h2(q := (h2 q)\<lparr>sh_right := rep\<rparr>))
     | None \<Rightarrow> Some (rep, h2)))"
  by (simp add: skew_heap_remove_def Let_def split: Option.bind_splits option.splits)

text \<open>Removing below the root leaves the root and its parent in place.\<close>

lemma skew_heap_remove_inner:
  assumes "sk h t" "dist_tree t" "b \<in> set_tree t" "rootp t \<noteq> Some b"
  shows "\<exists>h'. (\<forall>a. skew_heap_remove cmp a b h = Some (a, h')) \<and> sk h' (remove_tree cmp b t) \<and>
    (\<forall>z. z \<notin> set_tree t \<longrightarrow> h' z = h z) \<and> rootp (remove_tree cmp b t) = rootp t \<and>
    (\<forall>z. rootp t = Some z \<longrightarrow> sh_parent (h' z) = sh_parent (h z))"
  using assms
proof (induction t)
  case (Node l x r)
  have x: "x \<noteq> b" "x \<notin> set_tree l" "x \<notin> set_tree r" "set_tree l \<inter> set_tree r = {}"
    using Node.prems by auto
  have skx: "sh_left (h x) = rootp l" "sh_right (h x) = rootp r" "child_of h x l" "child_of h x r" "sk h l" "sk h r"
    using Node.prems(1) by auto
  show ?case
  proof (cases "b \<in> set_tree l")
    case bl: True
    show ?thesis
    proof (cases "rootp l = Some b")
      case True
      then obtain ll lr where l: "l = Node ll b lr" by (cases l) auto
      have p: "sh_parent (h b) = Some x" using skx(3) by (simp add: child_of_def l)
      have pre: "sk h (Node ll b lr)" "dist_tree (Node ll b lr)" using skx Node.prems(2) l by auto
      obtain m h2 where m: "m = merge_tree cmp ll lr" and
        h2: "skew_heap_merge cmp (sh_left (h b)) (sh_right (h b)) h \<bind>
            (\<lambda>(rep, h1). Some (rep, set_parent rep (Some x) h1)) = Some (rootp m, h2)"
          "sk h2 m" "child_root h2 (Some x) m" "\<forall>z. z \<notin> set_tree ll \<union> set_tree lr \<longrightarrow> h2 z = h z"
          "set_tree m = set_tree ll \<union> set_tree lr"
        by (rule remove_merge[OF pre refl, of cmp "Some x"]) blast
      obtain h3 where h3: "h3 = h2(x := (h2 x)\<lparr>sh_left := rootp m\<rparr>)" by blast
      have hx: "h2 x = h x" using h2(4) x(2) by (auto simp: l)
      have run: "skew_heap_remove cmp a b h = Some (a, h3)" for a
        using h2(1) hx skx(1) by (cases "skew_heap_merge cmp (sh_left (h b)) (sh_right (h b)) h") (auto simp: skew_heap_remove_alt p l h3)
      have "h3 z = h z" if "z \<in> set_tree r" for z using h2(4) x that by (auto simp: l h3)
      then have "sk h3 r" "child_of h3 x r" using skx sk_frame[of r h3 h] child_of_frame[of r h3 h x] by auto
      moreover have mx: "x \<notin> set_tree m" using h2(5) x(2) by (auto simp: l)
      then have "h3 z = h2 z" if "z \<in> set_tree m" for z using that by (auto simp: h3)
      then have "sk h3 m" "child_of h3 x m"
        using h2(2,3) sk_frame[of m h3 h2] child_of_frame[of m h3 h2 x] by (auto simp: child_of_root)
      ultimately have sk3: "sk h3 (Node m x r)" using hx skx by (simp add: h3)
      have "\<forall>z. z \<notin> set_tree (Node l x r) \<longrightarrow> h3 z = h z" "sh_parent (h3 x) = sh_parent (h x)"
        using h2(4) hx by (auto simp: h3 l)
      moreover have "remove_tree cmp b (Node l x r) = Node m x r" using x bl by (simp add: l m)
      ultimately show ?thesis using run sk3 by (intro exI[of _ h3]) simp
    next
      case False
      then obtain h' where h': "\<forall>a. skew_heap_remove cmp a b h = Some (a, h')" "sk h' (remove_tree cmp b l)"
        "\<forall>z. z \<notin> set_tree l \<longrightarrow> h' z = h z" "rootp (remove_tree cmp b l) = rootp l"
        "\<forall>z. rootp l = Some z \<longrightarrow> sh_parent (h' z) = sh_parent (h z)"
        using Node.IH(1) skx Node.prems(2) bl by auto
      have "sk h' r" "child_of h' x r" "h' x = h x"
        using skx sk_frame[of r h' h] child_of_frame[of r h' h x] h'(3) x by auto
      then have "sk h' (Node (remove_tree cmp b l) x r)"
        using h' skx by (auto simp: child_of_def)
      then show ?thesis using h' x bl by (intro exI[of _ h']) auto
    qed
  next
    case nl: False
    then have br: "b \<in> set_tree r" using Node.prems(3) x by auto
    show ?thesis
    proof (cases "rootp r = Some b")
      case True
      then obtain rl rr where r: "r = Node rl b rr" by (cases r) auto
      have p: "sh_parent (h b) = Some x" using skx(4) by (simp add: child_of_def r)
      have pre: "sk h (Node rl b rr)" "dist_tree (Node rl b rr)" using skx Node.prems(2) r by auto
      obtain m h2 where m: "m = merge_tree cmp rl rr" and
        h2: "skew_heap_merge cmp (sh_left (h b)) (sh_right (h b)) h \<bind>
            (\<lambda>(rep, h1). Some (rep, set_parent rep (Some x) h1)) = Some (rootp m, h2)"
          "sk h2 m" "child_root h2 (Some x) m" "\<forall>z. z \<notin> set_tree rl \<union> set_tree rr \<longrightarrow> h2 z = h z"
          "set_tree m = set_tree rl \<union> set_tree rr"
        by (rule remove_merge[OF pre refl, of cmp "Some x"]) blast
      obtain h3 where h3: "h3 = h2(x := (h2 x)\<lparr>sh_right := rootp m\<rparr>)" by blast
      have hx: "h2 x = h x" using h2(4) x(3) by (auto simp: r)
      have "rootp l \<noteq> Some b" using nl rootp_in[of l b] by auto
      then have run: "skew_heap_remove cmp a b h = Some (a, h3)" for a
        using h2(1) hx skx(1) by (cases "skew_heap_merge cmp (sh_left (h b)) (sh_right (h b)) h") (auto simp: skew_heap_remove_alt p r h3)
      have "h3 z = h z" if "z \<in> set_tree l" for z using h2(4) x that by (auto simp: r h3)
      then have "sk h3 l" "child_of h3 x l" using skx sk_frame[of l h3 h] child_of_frame[of l h3 h x] by auto
      moreover have mx: "x \<notin> set_tree m" using h2(5) x(3) by (auto simp: r)
      then have "h3 z = h2 z" if "z \<in> set_tree m" for z using that by (auto simp: h3)
      then have "sk h3 m" "child_of h3 x m"
        using h2(2,3) sk_frame[of m h3 h2] child_of_frame[of m h3 h2 x] by (auto simp: child_of_root)
      ultimately have sk3: "sk h3 (Node l x m)" using hx skx by (simp add: h3)
      have "\<forall>z. z \<notin> set_tree (Node l x r) \<longrightarrow> h3 z = h z" "sh_parent (h3 x) = sh_parent (h x)"
        using h2(4) hx by (auto simp: h3 r)
      moreover have "remove_tree cmp b (Node l x r) = Node l x m" using x nl by (simp add: r m)
      ultimately show ?thesis using run sk3 by (intro exI[of _ h3]) simp
    next
      case False
      then obtain h' where h': "\<forall>a. skew_heap_remove cmp a b h = Some (a, h')" "sk h' (remove_tree cmp b r)"
        "\<forall>z. z \<notin> set_tree r \<longrightarrow> h' z = h z" "rootp (remove_tree cmp b r) = rootp r"
        "\<forall>z. rootp r = Some z \<longrightarrow> sh_parent (h' z) = sh_parent (h z)"
        using Node.IH(2) skx Node.prems(2) br by auto
      have "sk h' l" "child_of h' x l" "h' x = h x"
        using skx sk_frame[of l h' h] child_of_frame[of l h' h x] h'(3) x by auto
      then have "sk h' (Node l x (remove_tree cmp b r))"
        using h' skx by (auto simp: child_of_def)
      then show ?thesis using h' x nl by (intro exI[of _ h']) auto
    qed
  qed
qed simp

text \<open>Removal from a whole heap, whose root has no parent: the new root is returned.\<close>

lemma skew_heap_remove_refines:
  assumes "sk h t" "dist_tree t" "b \<in> set_tree t" "child_root h None t"
  shows "\<exists>h'. skew_heap_remove cmp (rootp t) b h = Some (rootp (remove_tree cmp b t), h') \<and>
    sk h' (remove_tree cmp b t) \<and> child_root h' None (remove_tree cmp b t) \<and>
    (\<forall>z. z \<notin> set_tree t \<longrightarrow> h' z = h z)"
proof (cases "rootp t = Some b")
  case True
  then obtain l r where t: "t = Node l b r" by (cases t) auto
  have p: "sh_parent (h b) = None" using assms(4) by (simp add: t child_root_def)
  obtain h2 where h2: "skew_heap_merge cmp (sh_left (h b)) (sh_right (h b)) h \<bind>
        (\<lambda>(rep, h1). Some (rep, set_parent rep None h1)) = Some (rootp (merge_tree cmp l r), h2)"
      "sk h2 (merge_tree cmp l r)" "child_root h2 None (merge_tree cmp l r)"
      "\<forall>z. z \<notin> set_tree l \<union> set_tree r \<longrightarrow> h2 z = h z"
    by (rule remove_merge[OF assms(1,2)[unfolded t] refl, of cmp None]) blast
  have "skew_heap_remove cmp a b h = Some (rootp (merge_tree cmp l r), h2)" for a
    using h2(1) by (cases "skew_heap_merge cmp (sh_left (h b)) (sh_right (h b)) h") (auto simp: skew_heap_remove_alt p)
  then show ?thesis using h2 by (auto simp: t)
next
  case False
  then obtain h' where "\<forall>a. skew_heap_remove cmp a b h = Some (a, h')" "sk h' (remove_tree cmp b t)"
      "\<forall>z. z \<notin> set_tree t \<longrightarrow> h' z = h z" "rootp (remove_tree cmp b t) = rootp t"
      "\<forall>z. rootp t = Some z \<longrightarrow> sh_parent (h' z) = sh_parent (h z)"
    using skew_heap_remove_inner[OF assms(1-3) False] by blast
  then show ?thesis using assms(4) by (auto simp: child_root_def)
qed

subsection \<open>Insertion\<close>

lemma skew_heap_insert_refines:
  assumes "sk h t" "dist_tree t" "b \<notin> set_tree t" "child_root h None t"
  shows "\<exists>h'. skew_heap_insert cmp (rootp t) b h = Some (rootp (merge_tree cmp t (Node Leaf b Leaf)), h') \<and>
    sk h' (merge_tree cmp t (Node Leaf b Leaf)) \<and> child_root h' None (merge_tree cmp t (Node Leaf b Leaf)) \<and>
    (\<forall>z. z \<notin> insert b (set_tree t) \<longrightarrow> h' z = h z)"
proof -
  let ?h = "skew_heap_init b h" and ?n = "Node Leaf b Leaf"
  have fr: "?h z = h z" if "z \<noteq> b" for z using that by (simp add: skew_heap_init_def)
  have "sk ?h t" by (rule sk_frame[THEN iffD2, OF _ assms(1)]) (metis fr assms(3))
  moreover have "sk ?h ?n" by (simp add: skew_heap_init_def child_of_def)
  ultimately obtain h' where h': "skew_heap_merge cmp (rootp t) (rootp ?n) ?h = Some (rootp (merge_tree cmp t ?n), h')"
      "sk h' (merge_tree cmp t ?n)" "\<forall>z. z \<notin> set_tree t \<union> set_tree ?n \<longrightarrow> h' z = ?h z"
      "\<forall>z. rootp (merge_tree cmp t ?n) = Some z \<longrightarrow> sh_parent (h' z) = sh_parent (?h z)"
    using skew_heap_merge_refines[of ?h t ?n cmp] assms by auto
  have "child_root h' None (merge_tree cmp t ?n)"
  proof (cases t)
    case (Node l x r)
    then show ?thesis using h'(4) assms(4) by (auto simp: child_root_def skew_heap_init_def split: if_splits)
  qed (use h'(4) in \<open>auto simp: child_root_def skew_heap_init_def\<close>)
  then show ?thesis using h' fr by (auto simp: skew_heap_insert_def)
qed

subsection \<open>Order\<close>

fun min_heap :: "('a \<Rightarrow> 'k::linorder) \<Rightarrow> 'a tree \<Rightarrow> bool" where
  "min_heap key Leaf = True"
| "min_heap key (Node l x r) \<longleftrightarrow> (\<forall>y \<in> set_tree l \<union> set_tree r. key x \<le> key y) \<and> min_heap key l \<and> min_heap key r"

lemma min_heap_cong: "(\<And>x. x \<in> set_tree t \<Longrightarrow> key x = key' x) \<Longrightarrow> min_heap key t = min_heap key' t"
  by (induction t) auto

lemma min_heap_root: "min_heap key t \<Longrightarrow> rootp t = Some x \<Longrightarrow> y \<in> set_tree t \<Longrightarrow> key x \<le> key y"
  by (cases t) auto

lemma merge_tree_heap:
  "\<forall>x \<in> set_tree a \<union> set_tree b. \<forall>y \<in> set_tree a \<union> set_tree b. cmp x y = -1 \<longleftrightarrow> key x < key y \<Longrightarrow>
   min_heap key a \<Longrightarrow> min_heap key b \<Longrightarrow> min_heap key (merge_tree cmp a b)"
proof (induction cmp a b rule: merge_tree.induct)
  case (3 cmp la x ra lb y rb)
  have xy: "cmp x y = -1 \<longleftrightarrow> key x < key y" using 3(3) by simp
  have sub: "\<forall>u \<in> A. \<forall>v \<in> A. cmp u v = -1 \<longleftrightarrow> key u < key v"
    if "A \<subseteq> set_tree (Node la x ra) \<union> set_tree (Node lb y rb)" for A
    using 3(3) that by blast
  show ?case
  proof (cases "cmp x y = -1")
    case True
    then have "min_heap key (merge_tree cmp ra (Node lb y rb))"
      using 3(1)[OF True sub] 3(4,5) by auto
    moreover have "key x \<le> key z" if "z \<in> set_tree lb \<union> set_tree rb" for z
      using that 3(5) xy True by (meson min_heap.simps(2) order.strict_implies_order order.strict_trans1 order.trans)
    ultimately show ?thesis using True 3(4) xy by auto
  next
    case False
    then have "min_heap key (merge_tree cmp (Node la x ra) rb)"
      using 3(2)[OF False sub] 3(4,5) by auto
    moreover have "key y \<le> key z" if "z \<in> set_tree la \<union> set_tree ra" for z
      using that 3(4) xy False by (meson leI min_heap.simps(2) order.trans)
    ultimately show ?thesis using False 3(5) xy by auto
  qed
qed auto

lemma remove_tree_heap:
  "\<forall>x \<in> set_tree t. \<forall>y \<in> set_tree t. cmp x y = -1 \<longleftrightarrow> key x < key y \<Longrightarrow>
   dist_tree t \<Longrightarrow> min_heap key t \<Longrightarrow> b \<in> set_tree t \<Longrightarrow> min_heap key (remove_tree cmp b t)"
proof (induction t)
  case (Node l x r)
  consider "x = b" | "x \<noteq> b" "b \<in> set_tree l" | "x \<noteq> b" "b \<notin> set_tree l" "b \<in> set_tree r"
    using Node.prems(4) by auto
  then show ?case
  proof cases
    case 1
    then show ?thesis using merge_tree_heap[of l r cmp key] Node.prems by simp
  next
    case 2
    then show ?thesis using Node dist_remove_tree(2)[of l b cmp] by (simp add: ball_Un)
  next
    case 3
    then show ?thesis using Node dist_remove_tree(2)[of r b cmp] by (simp add: ball_Un)
  qed
qed simp

text \<open>What a comparison function promises: it returns -1 exactly when the key is smaller, on the
  entries that may be in one heap together.\<close>

locale heap_order =
  fixes cmp :: "'a \<Rightarrow> 'a \<Rightarrow> int" and key :: "'a \<Rightarrow> 'k::linorder" and S :: "'a set"
  assumes cmp_key: "x \<in> S \<Longrightarrow> y \<in> S \<Longrightarrow> cmp x y = -1 \<longleftrightarrow> key x < key y"
begin

lemma insert_heap:
  assumes "min_heap key t" "set_tree t \<subseteq> S" "b \<in> S"
  shows "min_heap key (merge_tree cmp t (Node Leaf b Leaf))"
  by (rule merge_tree_heap) (use assms cmp_key in auto)

lemma remove_heap:
  assumes "min_heap key t" "set_tree t \<subseteq> S" "dist_tree t" "b \<in> set_tree t"
  shows "min_heap key (remove_tree cmp b t)"
  by (rule remove_tree_heap) (use assms cmp_key in auto)

text \<open>Removing the root compares only the remaining entries, so the key of the root does not matter.\<close>

lemma remove_root_heap:
  assumes "min_heap key l" "min_heap key r" "set_tree l \<union> set_tree r \<subseteq> S"
  shows "min_heap key (remove_tree cmp b (Node l b r))"
proof -
  have "min_heap key (merge_tree cmp l r)" by (rule merge_tree_heap) (use assms cmp_key in auto)
  then show ?thesis by simp
qed

end

end
