(* ===== verification/Proc_State.thy ===== *)
theory Proc_State
  imports Skew_Heap
begin

text \<open>
  The process descriptor \<^verbatim>\<open>struct proc_struct\<close> (\<^verbatim>\<open>src/kern/process/proc.h\<close>), the trap frame
  (\<^verbatim>\<open>src/kern/trap/trap.h\<close>) and the global state the scheduler works on. A pointer to a process is
  a number (\<open>pptr\<close>), NULL is \<open>None\<close>. The member \<^verbatim>\<open>lab6_run_pool\<close> of all processes together is the
  store \<open>nodes\<close> of the skew heap, so \<^verbatim>\<open>le2proc\<close> is the identity; the ring members \<^verbatim>\<open>list_link\<close> and
  \<^verbatim>\<open>hash_link\<close> are the lists of theory \<open>Proc_Table\<close>; \<^verbatim>\<open>run_link\<close> is not used by the stride scheduler.
  The state is the one after \<^verbatim>\<open>proc_init\<close>: \<open>current\<close>, \<open>idleproc\<close> and \<open>initproc\<close> are not NULL.
\<close>

unbundle bit_operations_syntax

type_synonym pptr = nat

datatype proc_state = PROC_UNINIT | PROC_SLEEPING | PROC_RUNNABLE | PROC_ZOMBIE

datatype reg = Zero | Ra | Sp | Gp | Tp | T0 | T1 | T2 | S0 | S1 | A0 | A1 | A2 | A3 | A4 | A5 | A6 | A7
  | S2 | S3 | S4 | S5 | S6 | S7 | S8 | S9 | S10 | S11 | T3 | T4 | T5 | T6

record trapframe =
  gpr :: "reg \<Rightarrow> 64 word"
  tf_status :: "64 word"
  epc :: "64 word"
  tval :: "64 word"
  cause :: "64 word"

record proc_context =
  ctx_ra :: "64 word"
  ctx_sp :: "64 word"
  ctx_s :: "nat \<Rightarrow> 64 word"

record proc_struct =
  pstate :: proc_state
  pid :: int
  runs :: int
  kstack :: "64 word"
  need_resched :: bool
  proc_parent :: "pptr option"
  proc_mm :: "nat option"
  pcontext :: proc_context
  proc_tf :: "trapframe option"
  cr3 :: "64 word"
  flags :: "32 word"
  pname :: string
  exit_code :: int
  wait_state :: "32 word"
  cptr :: "pptr option"
  yptr :: "pptr option"
  optr :: "pptr option"
  on_rq :: bool
  time_slice :: int
  lab6_stride :: "32 word"
  lab6_priority :: "32 word"
  filesp :: "nat option"

definition PF_EXITING :: "32 word" where "PF_EXITING = 1"
definition WT_INTERRUPTED :: "32 word" where "WT_INTERRUPTED = 0x80000000"
definition WT_CHILD :: "32 word" where "WT_CHILD = 1 OR WT_INTERRUPTED"
definition WT_KSEM :: "32 word" where "WT_KSEM = 0x100"
definition WT_TIMER :: "32 word" where "WT_TIMER = 2 OR WT_INTERRUPTED"
definition WT_KBD :: "32 word" where "WT_KBD = 4 OR WT_INTERRUPTED"

record run_queue =
  proc_num :: nat
  max_time_slice :: int
  run_pool :: "pptr option"

record kstate =
  procs :: "pptr \<Rightarrow> proc_struct"
  nodes :: "pptr sstore"
  rq :: run_queue
  current :: pptr
  idleproc :: pptr
  initproc :: pptr
  satp :: "64 word"

definition upd :: "pptr \<Rightarrow> (proc_struct \<Rightarrow> proc_struct) \<Rightarrow> 'a kstate_scheme \<Rightarrow> 'a kstate_scheme" where
  "upd p f s = s\<lparr>procs := (procs s)(p := f (procs s p))\<rparr>"

lemma upd_simps [simp]:
  "procs (upd p f s) q = (if q = p then f (procs s p) else procs s q)"
  "nodes (upd p f s) = nodes s" "rq (upd p f s) = rq s" "current (upd p f s) = current s"
  "idleproc (upd p f s) = idleproc s" "initproc (upd p f s) = initproc s" "satp (upd p f s) = satp s"
  by (simp_all add: upd_def)

lemma upd_more [simp]: "kstate.more (upd p f s) = kstate.more s"
  by (simp add: upd_def)

end
