(* ===== verification/Sched.thy ===== *)
theory Sched
  imports Proc_State
begin

text \<open>
  The stride scheduler (\<^verbatim>\<open>src/kern/schedule/default_sched_stride.c\<close>) and the scheduler framework
  above it (\<^verbatim>\<open>src/kern/schedule/sched.c\<close>, \<^verbatim>\<open>proc_run\<close> of \<^verbatim>\<open>src/kern/process/proc.c\<close>). The class
  pointer \<^verbatim>\<open>sched_class\<close> is set once, to the stride class. A context switch is the change of
  \<open>current\<close> and of the page-table register: the statements after \<^verbatim>\<open>schedule()\<close> in the caller run when
  the caller is \<open>current\<close> again.
\<close>

definition MAX_TIME_SLICE :: int where "MAX_TIME_SLICE = 5"

definition BIG_STRIDE :: "32 word" where "BIG_STRIDE = push_bit 30 1"

definition proc_stride_comp_f :: "(pptr \<Rightarrow> 32 word) \<Rightarrow> pptr \<Rightarrow> pptr \<Rightarrow> int" where
  "proc_stride_comp_f stride a b = (let c = sint (stride a - stride b) in
     if c > 0 then 1 else if c = 0 then 0 else -1)"

abbreviation strides :: "'a kstate_scheme \<Rightarrow> pptr \<Rightarrow> 32 word" where
  "strides s \<equiv> \<lambda>p. lab6_stride (procs s p)"

definition stride_init :: "run_queue \<Rightarrow> run_queue" where
  "stride_init q = q\<lparr>run_pool := None, proc_num := 0\<rparr>"

definition stride_enqueue :: "pptr \<Rightarrow> 'a kstate_scheme \<Rightarrow> 'a kstate_scheme option" where
  "stride_enqueue p s = do {
     (root, h) \<leftarrow> skew_heap_insert (proc_stride_comp_f (strides s)) (run_pool (rq s)) p (nodes s);
     let s = s\<lparr>rq := (rq s)\<lparr>run_pool := root\<rparr>, nodes := h\<rparr>;
     let s = (if time_slice (procs s p) = 0 \<or> time_slice (procs s p) > max_time_slice (rq s)
       then upd p (\<lambda>x. x\<lparr>time_slice := max_time_slice (rq s)\<rparr>) s else s);
     let s = upd p (\<lambda>x. x\<lparr>on_rq := True\<rparr>) s;
     Some (s\<lparr>rq := (rq s)\<lparr>proc_num := proc_num (rq s) + 1\<rparr>\<rparr>)
   }"

definition stride_dequeue :: "pptr \<Rightarrow> 'a kstate_scheme \<Rightarrow> 'a kstate_scheme option" where
  "stride_dequeue p s = do {
     kassert (on_rq (procs s p) \<and> proc_num (rq s) > 0);
     (root, h) \<leftarrow> skew_heap_remove (proc_stride_comp_f (strides s)) (run_pool (rq s)) p (nodes s);
     Some (s\<lparr>rq := (rq s)\<lparr>run_pool := root, proc_num := proc_num (rq s) - 1\<rparr>, nodes := h\<rparr>)
   }"

definition stride_pass :: "32 word \<Rightarrow> 32 word" where
  "stride_pass priority = (if priority \<noteq> 0 then BIG_STRIDE div priority else BIG_STRIDE)"

definition stride_pick_next :: "'a kstate_scheme \<Rightarrow> pptr option \<times> 'a kstate_scheme" where
  "stride_pick_next s = (case run_pool (rq s) of
     None \<Rightarrow> (None, s)
   | Some p \<Rightarrow> (Some p, upd p (\<lambda>x. x\<lparr>lab6_stride := lab6_stride x + stride_pass (lab6_priority x)\<rparr>) s))"

definition stride_proc_tick :: "pptr \<Rightarrow> 'a kstate_scheme \<Rightarrow> 'a kstate_scheme" where
  "stride_proc_tick p s =
     (let s = (if time_slice (procs s p) > 0 then upd p (\<lambda>x. x\<lparr>time_slice := time_slice x - 1\<rparr>) s else s) in
      if time_slice (procs s p) = 0 then upd p (\<lambda>x. x\<lparr>need_resched := True\<rparr>) s else s)"

definition sched_class_enqueue :: "pptr \<Rightarrow> 'a kstate_scheme \<Rightarrow> 'a kstate_scheme option" where
  "sched_class_enqueue p s = (if p \<noteq> idleproc s then stride_enqueue p s else Some s)"

definition sched_class_dequeue :: "pptr \<Rightarrow> 'a kstate_scheme \<Rightarrow> 'a kstate_scheme option" where
  "sched_class_dequeue p s = stride_dequeue p s"

definition sched_class_pick_next :: "'a kstate_scheme \<Rightarrow> pptr option \<times> 'a kstate_scheme" where
  "sched_class_pick_next s = stride_pick_next s"

definition sched_class_proc_tick :: "pptr \<Rightarrow> 'a kstate_scheme \<Rightarrow> 'a kstate_scheme" where
  "sched_class_proc_tick p s =
     (if p \<noteq> idleproc s then stride_proc_tick p s else upd p (\<lambda>x. x\<lparr>need_resched := True\<rparr>) s)"

definition sched_init :: "'a kstate_scheme \<Rightarrow> 'a kstate_scheme" where
  "sched_init s = s\<lparr>rq := stride_init ((rq s)\<lparr>max_time_slice := MAX_TIME_SLICE\<rparr>)\<rparr>"

definition wakeup_proc :: "pptr \<Rightarrow> 'a kstate_scheme \<Rightarrow> 'a kstate_scheme option" where
  "wakeup_proc p s = do {
     kassert (pstate (procs s p) \<noteq> PROC_ZOMBIE);
     if pstate (procs s p) \<noteq> PROC_RUNNABLE then
       let s = upd p (\<lambda>x. x\<lparr>pstate := PROC_RUNNABLE, wait_state := 0\<rparr>) s in
       if p \<noteq> current s then sched_class_enqueue p s else Some s
     else Some s
   }"

definition proc_run :: "pptr \<Rightarrow> 'a kstate_scheme \<Rightarrow> 'a kstate_scheme" where
  "proc_run p s = (if p \<noteq> current s then s\<lparr>current := p, satp := cr3 (procs s p)\<rparr> else s)"

definition schedule :: "'a kstate_scheme \<Rightarrow> 'a kstate_scheme option" where
  "schedule s = do {
     let s = upd (current s) (\<lambda>x. x\<lparr>need_resched := False\<rparr>) s;
     s \<leftarrow> (if pstate (procs s (current s)) = PROC_RUNNABLE then sched_class_enqueue (current s) s else Some s);
     let (nxt, s) = sched_class_pick_next s;
     s \<leftarrow> (case nxt of Some p \<Rightarrow> sched_class_dequeue p s | None \<Rightarrow> Some s);
     let nxt = (case nxt of Some p \<Rightarrow> p | None \<Rightarrow> idleproc s);
     let s = upd nxt (\<lambda>x. x\<lparr>runs := runs x + 1\<rparr>) s;
     Some (if nxt \<noteq> current s then proc_run nxt s else s)
   }"

subsection \<open>Comparing strides that wrap around\<close>

text \<open>Strides are compared by the sign of their 32-bit difference. This is the order of the distances
  from a common base as long as the distances stay within \<open>BIG_STRIDE\<close>.\<close>

definition ahead :: "32 word \<Rightarrow> 32 word \<Rightarrow> nat" where "ahead b x = unat (x - b)"

lemma sint_window:
  fixes x y b :: "32 word"
  assumes "ahead b x \<le> 2 ^ 30" "ahead b y \<le> 2 ^ 30"
  shows "sint (x - y) = int (ahead b x) - int (ahead b y)"
proof -
  let ?k = "int (ahead b x) - int (ahead b y)"
  have eq: "x - y = word_of_int ?k"
    by (simp add: of_int_diff[symmetric] ahead_def)
  have key: "sint (word_of_int k :: 32 word) = k" if "- (2 ^ 31) \<le> k" "k < 2 ^ 31" for k :: int
    using that signed_take_bit_int_eq_self[of 31 k] by (simp add: sint_sbintrunc')
  have "- (2 ^ 31) \<le> int m - int n" "int m - int n < 2 ^ 31" if "m \<le> 2 ^ 30" "n \<le> 2 ^ 30" for m n :: nat
    using that by simp_all
  from key[OF this[OF assms]] show ?thesis unfolding eq .
qed

interpretation stride_heap: heap_order "proc_stride_comp_f st" "\<lambda>p. ahead b (st p)" "{p. ahead b (st p) \<le> 2 ^ 30}"
  for st b
  by unfold_locales (auto simp: proc_stride_comp_f_def Let_def sint_window)

lemma stride_pass_le: "unat (stride_pass pri) \<le> 2 ^ 30"
proof -
  have "unat BIG_STRIDE = 2 ^ 30" by (simp add: BIG_STRIDE_def push_bit_eq_mult)
  then show ?thesis using div_le_dividend[of "unat BIG_STRIDE" "unat pri"]
    by (auto simp: stride_pass_def unat_div simp del: div_le_dividend)
qed

lemma ahead_self [simp]: "ahead b b = 0" by (simp add: ahead_def)

lemma ahead_rebase:
  assumes "ahead b m \<le> ahead b x" shows "ahead m x = ahead b x - ahead b m"
proof -
  have "x - m = (x - b) - (m - b)" by simp
  then show ?thesis using assms unat_sub[of "m - b" "x - b"] by (simp add: ahead_def word_le_nat_alt)
qed

lemma ahead_add:
  assumes "ahead b x + unat d < 2 ^ 32" shows "ahead b (x + d) = ahead b x + unat d"
proof -
  have eq: "x + d - b = (x - b) + d" by simp
  show ?thesis using assms unat_add_lem[of "x - b" d] unfolding ahead_def eq by simp
qed

subsection \<open>The run queue\<close>

text \<open>The pool holds the entries of tree \<open>t\<close>; \<open>rq_order\<close>: it is ordered by the distance of the strides
  from the base \<open>b\<close>, and all strides are in the window above \<open>b\<close>.\<close>

definition rq_ok :: "pptr tree \<Rightarrow> 'a kstate_scheme \<Rightarrow> bool" where
  "rq_ok t s \<longleftrightarrow> sk (nodes s) t \<and> dist_tree t \<and> child_root (nodes s) None t \<and>
     run_pool (rq s) = rootp t \<and> proc_num (rq s) = size t \<and>
     (\<forall>p \<in> set_tree t. on_rq (procs s p) \<and> 0 < time_slice (procs s p) \<and> time_slice (procs s p) \<le> max_time_slice (rq s))"

definition rq_order :: "pptr tree \<Rightarrow> 32 word \<Rightarrow> (pptr \<Rightarrow> 32 word) \<Rightarrow> bool" where
  "rq_order t b st \<longleftrightarrow> (\<forall>p \<in> set_tree t. ahead b (st p) \<le> 2 ^ 30) \<and> min_heap (\<lambda>p. ahead b (st p)) t"

lemma rq_ok_cong:
  assumes "rq_ok t s" "nodes s' = nodes s" "rq s' = rq s"
    "\<And>p. on_rq (procs s' p) = on_rq (procs s p)" "\<And>p. time_slice (procs s' p) = time_slice (procs s p)"
  shows "rq_ok t s'"
  using assms by (simp add: rq_ok_def)

lemma size_merge_tree: "size (merge_tree cmp a b) = size a + size b"
  by (induction cmp a b rule: merge_tree.induct) auto

text \<open>What the scheduler never changes.\<close>

definition sched_frame :: "'a kstate_scheme \<Rightarrow> 'a kstate_scheme \<Rightarrow> bool" where
  "sched_frame s s' \<longleftrightarrow> idleproc s' = idleproc s \<and> initproc s' = initproc s \<and>
     max_time_slice (rq s') = max_time_slice (rq s) \<and> kstate.more s' = kstate.more s"

definition refill :: "int \<Rightarrow> int \<Rightarrow> int" where
  "refill mx ts = (if ts = 0 \<or> ts > mx then mx else ts)"

lemma stride_enqueue_ok:
  assumes q: "rq_ok t s" and p: "p \<notin> set_tree t"
    and ts: "0 \<le> time_slice (procs s p)" "0 < max_time_slice (rq s)"
  shows "\<exists>s'. stride_enqueue p s = Some s' \<and>
    rq_ok (merge_tree (proc_stride_comp_f (strides s)) t (Node Leaf p Leaf)) s' \<and>
    procs s' = (procs s)(p := (procs s p)\<lparr>time_slice := refill (max_time_slice (rq s)) (time_slice (procs s p)), on_rq := True\<rparr>) \<and>
    current s' = current s \<and> satp s' = satp s \<and> sched_frame s s'"
proof -
  let ?cmp = "proc_stride_comp_f (strides s)"
  let ?t = "merge_tree ?cmp t (Node Leaf p Leaf)"
  obtain h where h: "skew_heap_insert ?cmp (rootp t) p (nodes s) = Some (rootp ?t, h)" "sk h ?t" "child_root h None ?t"
    using skew_heap_insert_refines[of "nodes s" t p ?cmp] q p by (auto simp: rq_ok_def)
  have dt: "dist_tree ?t" using q p by (simp add: dist_merge_tree rq_ok_def)
  have root: "run_pool (rq s) = rootp t" using q by (simp add: rq_ok_def)
  obtain s' where run: "stride_enqueue p s = Some s'" by (simp add: stride_enqueue_def root h(1) Let_def)
  then have pr: "procs s' = (procs s)(p := (procs s p)\<lparr>time_slice := refill (max_time_slice (rq s)) (time_slice (procs s p)), on_rq := True\<rparr>)"
    by (auto simp: stride_enqueue_def root h(1) upd_def Let_def refill_def)
  have fr: "current s' = current s" "satp s' = satp s" "sched_frame s s'" "nodes s' = h" "run_pool (rq s') = rootp ?t"
    "proc_num (rq s') = proc_num (rq s) + 1"
    using run by (auto simp: stride_enqueue_def root h(1) Let_def sched_frame_def)
  have "size ?t = proc_num (rq s) + 1" using q by (simp add: rq_ok_def size_merge_tree)
  then have "rq_ok ?t s'"
    using fr q p ts h dt by (auto simp: rq_ok_def pr refill_def sched_frame_def)
  then show ?thesis using run pr fr by auto
qed

lemma enqueue_order:
  assumes "rq_order t b st" "ahead b (st p) \<le> 2 ^ 30"
  shows "rq_order (merge_tree (proc_stride_comp_f st) t (Node Leaf p Leaf)) b st"
  using assms stride_heap.insert_heap[of b st t p] by (auto simp: rq_order_def)

lemma min_heap_mono:
  "(\<And>x y. x \<in> set_tree t \<Longrightarrow> y \<in> set_tree t \<Longrightarrow> key x \<le> key y \<Longrightarrow> key' x \<le> key' y) \<Longrightarrow>
   min_heap key t \<Longrightarrow> min_heap key' t"
  by (induction t) (auto simp: ball_Un)

abbreviation advance :: "pptr \<Rightarrow> 'a kstate_scheme \<Rightarrow> 'a kstate_scheme" where
  "advance p s \<equiv> upd p (\<lambda>x. x\<lparr>lab6_stride := lab6_stride x + stride_pass (lab6_priority x)\<rparr>) s"

lemma pick_dequeue_ok:
  assumes q: "rq_ok (Node l p r) s"
  shows "stride_pick_next s = (Some p, advance p s)"
    "\<exists>s2. stride_dequeue p (advance p s) = Some s2 \<and>
      rq_ok (merge_tree (proc_stride_comp_f (strides (advance p s))) l r) s2 \<and>
      procs s2 = procs (advance p s) \<and> current s2 = current s \<and> satp s2 = satp s \<and> sched_frame s s2"
proof -
  define s1 where "s1 = advance p s"
  let ?cmp = "proc_stride_comp_f (strides s1)" and ?t = "Node l p r"
  let ?m = "merge_tree ?cmp l r"
  have inv: "sk (nodes s) ?t" "dist_tree ?t" "child_root (nodes s) None ?t" "run_pool (rq s) = Some p"
    "proc_num (rq s) = size ?t" using q by (auto simp: rq_ok_def)
  show "stride_pick_next s = (Some p, advance p s)" by (simp add: stride_pick_next_def inv)
  obtain h where h: "skew_heap_remove ?cmp (Some p) p (nodes s) = Some (rootp ?m, h)" "sk h ?m" "child_root h None ?m"
    using skew_heap_remove_refines[OF inv(1,2) _ inv(3), of p ?cmp] by auto
  have os: "on_rq (procs s1 p)" using q by (simp add: s1_def rq_ok_def)
  obtain s2 where s2: "s2 = s1\<lparr>rq := (rq s)\<lparr>run_pool := rootp ?m, proc_num := proc_num (rq s) - 1\<rparr>, nodes := h\<rparr>"
    by blast
  have run: "stride_dequeue p s1 = Some s2"
    using os inv(4,5) h(1) by (simp add: stride_dequeue_def s2) (simp add: s1_def)
  have pr: "procs s2 = procs s1" by (simp add: s2)
  have "rq_ok ?m s2"
    using q h inv(2,5) unfolding rq_ok_def pr by (auto simp: s2 size_merge_tree dist_merge_tree s1_def)
  moreover have "current s2 = current s \<and> satp s2 = satp s \<and> sched_frame s s2"
    by (simp add: sched_frame_def s1_def s2)
  ultimately show "\<exists>s2. stride_dequeue p (advance p s) = Some s2 \<and>
      rq_ok (merge_tree (proc_stride_comp_f (strides (advance p s))) l r) s2 \<and>
      procs s2 = procs (advance p s) \<and> current s2 = current s \<and> satp s2 = satp s \<and> sched_frame s s2"
    using run pr unfolding s1_def by blast
qed

text \<open>Picking advances the stride of the root by at most \<open>BIG_STRIDE\<close>; its old stride becomes the new
  base, so the window does not grow.\<close>

lemma pick_order:
  assumes o: "rq_order (Node l p r) b st" and d: "dist_tree (Node l p r)"
    and st': "\<And>z. z \<noteq> p \<Longrightarrow> st' z = st z"
  shows "rq_order (merge_tree (proc_stride_comp_f st') l r) (st p) st'"
    "\<And>z. z \<in> set_tree (Node l p r) \<Longrightarrow> ahead b (st p) \<le> ahead b (st z)"
proof -
  let ?t = "Node l p r" and ?b = "st p"
  have hp: "min_heap (\<lambda>p. ahead b (st p)) ?t" using o by (simp add: rq_order_def)
  show le: "ahead b ?b \<le> ahead b (st z)" if "z \<in> set_tree ?t" for z
    using min_heap_root[OF hp _ that] by simp
  have rb: "ahead ?b (st z) = ahead b (st z) - ahead b ?b" if "z \<in> set_tree ?t" for z
    using ahead_rebase[OF le[OF that]] .
  have win: "ahead ?b (st z) \<le> 2 ^ 30" if "z \<in> set_tree ?t" for z
    using rb[OF that] o that by (auto simp: rq_order_def intro: order.trans[OF diff_le_self])
  have pz: "z \<noteq> p" if "z \<in> set_tree l \<union> set_tree r" for z using d that by auto
  have key: "ahead ?b (st' z) = ahead b (st z) - ahead b ?b" if "z \<in> set_tree l \<union> set_tree r" for z
    using rb[of z] st'[OF pz[OF that]] that by auto
  have sub: "min_heap (\<lambda>z. ahead ?b (st' z)) u" if "u = l \<or> u = r" for u
    by (rule min_heap_mono[where key = "\<lambda>p. ahead b (st p)"]) (use that key hp in auto)
  have "set_tree l \<union> set_tree r \<subseteq> {z. ahead ?b (st' z) \<le> 2 ^ 30}"
    using win st' pz by auto
  then show "rq_order (merge_tree (proc_stride_comp_f st') l r) ?b st'"
    using stride_heap.remove_root_heap[OF sub sub, of l r p] by (auto simp: rq_order_def)
qed

subsection \<open>The scheduler\<close>

definition runnable :: "'a kstate_scheme \<Rightarrow> pptr set" where
  "runnable s = {p. pstate (procs s p) = PROC_RUNNABLE \<and> p \<noteq> idleproc s}"

text \<open>Exactly the runnable processes other than the running one are in the pool.\<close>

definition sched_at :: "pptr tree \<Rightarrow> 'a kstate_scheme \<Rightarrow> bool" where
  "sched_at t s \<longleftrightarrow> rq_ok t s \<and> set_tree t = runnable s - {current s} \<and>
     0 < max_time_slice (rq s) \<and> (\<forall>p. 0 \<le> time_slice (procs s p))"

definition sched_ok :: "'a kstate_scheme \<Rightarrow> bool" where
  "sched_ok s \<longleftrightarrow> (\<exists>t. sched_at t s)"

text \<open>The strides of all runnable processes lie in one window above \<open>b\<close>.\<close>

definition in_window :: "pptr tree \<Rightarrow> 32 word \<Rightarrow> 'a kstate_scheme \<Rightarrow> bool" where
  "in_window t b s \<longleftrightarrow> rq_order t b (strides s) \<and>
     (current s \<in> runnable s \<longrightarrow> ahead b (strides s (current s)) \<le> 2 ^ 30)"

definition fair :: "'a kstate_scheme \<Rightarrow> bool" where
  "fair s \<longleftrightarrow> (\<exists>t b. sched_at t s \<and> in_window t b s)"

text \<open>The members of a process that scheduling does not touch.\<close>

definition core :: "proc_struct \<Rightarrow> proc_struct" where
  "core x = x\<lparr>need_resched := False, runs := 0, time_slice := 0, on_rq := False, lab6_stride := 0\<rparr>"

lemma core_simps:
  "pstate (core x) = pstate x" "pid (core x) = pid x" "kstack (core x) = kstack x" "proc_parent (core x) = proc_parent x"
  "proc_mm (core x) = proc_mm x" "pcontext (core x) = pcontext x" "proc_tf (core x) = proc_tf x" "cr3 (core x) = cr3 x"
  "flags (core x) = flags x" "pname (core x) = pname x" "exit_code (core x) = exit_code x" "wait_state (core x) = wait_state x"
  "cptr (core x) = cptr x" "yptr (core x) = yptr x" "optr (core x) = optr x" "lab6_priority (core x) = lab6_priority x"
  "filesp (core x) = filesp x"
  by (simp_all add: core_def)

lemma core_upd [simp]:
  "core (x\<lparr>runs := v\<rparr>) = core x" "core (x\<lparr>need_resched := b\<rparr>) = core x" "core (x\<lparr>time_slice := v\<rparr>) = core x"
  "core (x\<lparr>on_rq := b\<rparr>) = core x" "core (x\<lparr>lab6_stride := w\<rparr>) = core x"
  by (simp_all add: core_def)

lemma core_eqD:
  assumes "core x = core y"
  shows "pstate x = pstate y" "pid x = pid y" "kstack x = kstack y" "proc_parent x = proc_parent y"
    "proc_mm x = proc_mm y" "pcontext x = pcontext y" "proc_tf x = proc_tf y" "cr3 x = cr3 y"
    "flags x = flags y" "pname x = pname y" "exit_code x = exit_code y" "wait_state x = wait_state y"
    "cptr x = cptr y" "yptr x = yptr y" "optr x = optr y" "lab6_priority x = lab6_priority y"
    "filesp x = filesp y"
  using assms core_simps by metis+

lemma schedule_enqueue:
  assumes inv: "sched_at t s"
  defines "s0 \<equiv> upd (current s) (\<lambda>x. x\<lparr>need_resched := False\<rparr>) s"
  shows "\<exists>s1 t1. (if pstate (procs s0 (current s0)) = PROC_RUNNABLE then sched_class_enqueue (current s0) s0 else Some s0) = Some s1 \<and>
    rq_ok t1 s1 \<and> set_tree t1 = runnable s \<and> (\<forall>b. in_window t b s \<longrightarrow> rq_order t1 b (strides s)) \<and>
    (\<forall>p. core (procs s1 p) = core (procs s p)) \<and>
    (\<forall>p. strides s1 p = strides s p) \<and> (\<forall>p. runs (procs s1 p) = runs (procs s p)) \<and> (\<forall>p. 0 \<le> time_slice (procs s1 p)) \<and>
    current s1 = current s \<and> satp s1 = satp s \<and> sched_frame s s1"
proof -
  have q0: "rq_ok t s0" by (rule rq_ok_cong[of t s]) (use inv in \<open>auto simp: s0_def sched_at_def\<close>)
  have fr0: "core (procs s0 p) = core (procs s p)" "strides s0 p = strides s p" "runs (procs s0 p) = runs (procs s p)"
    "time_slice (procs s0 p) = time_slice (procs s p)" "pstate (procs s0 p) = pstate (procs s p)" "sched_frame s s0"
    "idleproc s0 = idleproc s" "current s0 = current s" "satp s0 = satp s" for p
    by (simp_all add: s0_def sched_frame_def)
  show ?thesis
  proof (cases "current s \<in> runnable s")
    case True
    let ?t = "merge_tree (proc_stride_comp_f (strides s0)) t (Node Leaf (current s) Leaf)"
    have "\<exists>s'. stride_enqueue (current s) s0 = Some s' \<and> rq_ok ?t s' \<and>
      procs s' = (procs s0)(current s := (procs s0 (current s))\<lparr>time_slice := refill (max_time_slice (rq s0)) (time_slice (procs s0 (current s))), on_rq := True\<rparr>) \<and>
      current s' = current s0 \<and> satp s' = satp s0 \<and> sched_frame s0 s'"
      by (intro stride_enqueue_ok) (use inv q0 fr0 in \<open>auto simp: sched_at_def s0_def\<close>)
    then obtain s' where s': "stride_enqueue (current s) s0 = Some s'" "rq_ok ?t s'"
      "procs s' = (procs s0)(current s := (procs s0 (current s))\<lparr>time_slice := refill (max_time_slice (rq s0)) (time_slice (procs s0 (current s))), on_rq := True\<rparr>)"
      "current s' = current s0" "satp s' = satp s0" "sched_frame s0 s'" by blast
    have run: "(if pstate (procs s0 (current s0)) = PROC_RUNNABLE then sched_class_enqueue (current s0) s0 else Some s0) = Some s'"
      using s'(1) True fr0 by (simp add: sched_class_enqueue_def runnable_def)
    have "core (procs s' p) = core (procs s p)" for p using fr0(1)[of p] by (auto simp: s'(3))
    moreover have "0 \<le> time_slice (procs s' p)" for p
      using inv fr0(4) by (auto simp: s'(3) sched_at_def refill_def s0_def)
    moreover have "sched_frame s s'" using s'(6) fr0(6) by (simp add: sched_frame_def)
    moreover have "set_tree ?t = runnable s" using inv True by (auto simp: sched_at_def)
    moreover have "rq_order ?t b (strides s)" if "in_window t b s" for b
      using enqueue_order[of t b "strides s" "current s"] that True by (simp add: in_window_def fr0)
    ultimately show ?thesis using run s' fr0 by (intro exI[of _ s'] exI[of _ ?t]) auto
  next
    case False
    then have "set_tree t = runnable s" using inv by (simp add: sched_at_def)
    moreover have "(if pstate (procs s0 (current s0)) = PROC_RUNNABLE then sched_class_enqueue (current s0) s0 else Some s0) = Some s0"
      using False fr0 by (simp add: sched_class_enqueue_def runnable_def)
    ultimately show ?thesis using q0 fr0 inv by (intro exI[of _ s0] exI[of _ t]) (auto simp: sched_at_def in_window_def)
  qed
qed

text \<open>The switch from \<open>s\<close> to process \<open>p\<close>.\<close>

definition switched :: "'a kstate_scheme \<Rightarrow> pptr \<Rightarrow> 'a kstate_scheme \<Rightarrow> bool" where
  "switched s p s' \<longleftrightarrow> current s' = p \<and> satp s' = (if p = current s then satp s else cr3 (procs s p)) \<and>
     sched_frame s s' \<and> (\<forall>q. core (procs s' q) = core (procs s q)) \<and>
     (\<forall>q. strides s' q = (if q = p \<and> p \<in> runnable s then strides s q + stride_pass (lab6_priority (procs s q)) else strides s q)) \<and>
     (\<forall>q. runs (procs s' q) = (if q = p then runs (procs s q) + 1 else runs (procs s q)))"

lemma runnable_core:
  assumes "\<And>q. core (procs s' q) = core (procs s q)" "sched_frame s s'"
  shows "runnable s' = runnable s"
  using assms core_eqD(1)[OF assms(1)] by (auto simp: runnable_def sched_frame_def)

lemma schedule_step:
  assumes inv: "sched_at t s"
  shows "\<exists>s' p t'. schedule s = Some s' \<and> sched_at t' s' \<and> switched s p s' \<and>
    (if runnable s = {} then p = idleproc s else p \<in> runnable s \<and> 0 < time_slice (procs s' p)) \<and>
    (\<forall>b. in_window t b s \<longrightarrow> (if runnable s = {} then in_window t' b s' else in_window t' (strides s p) s' \<and>
       (\<forall>q \<in> runnable s. ahead b (strides s p) \<le> ahead b (strides s q))))"
proof -
  define s0 where "s0 = upd (current s) (\<lambda>x. x\<lparr>need_resched := False\<rparr>) s"
  obtain s1 t1 where s1: "(if pstate (procs s0 (current s0)) = PROC_RUNNABLE then sched_class_enqueue (current s0) s0 else Some s0) = Some s1"
    "rq_ok t1 s1" "set_tree t1 = runnable s" "\<forall>b. in_window t b s \<longrightarrow> rq_order t1 b (strides s)"
    "\<forall>p. core (procs s1 p) = core (procs s p)"
    "\<forall>p. strides s1 p = strides s p" "\<forall>p. runs (procs s1 p) = runs (procs s p)" "\<forall>p. 0 \<le> time_slice (procs s1 p)"
    "current s1 = current s" "satp s1 = satp s" "sched_frame s s1"
    using schedule_enqueue[OF inv] unfolding s0_def by blast
  show ?thesis
  proof (cases t1)
    case Leaf
    let ?i = "idleproc s1"
    let ?s = "upd ?i (\<lambda>x. x\<lparr>runs := runs x + 1\<rparr>) s1"
    define s' where "s' = (if ?i \<noteq> current ?s then proc_run ?i ?s else ?s)"
    have "run_pool (rq s1) = None" using s1(2) Leaf by (simp add: rq_ok_def)
    then have run: "schedule s = Some s'"
      using s1(1) by (simp add: schedule_def s0_def[symmetric] Let_def sched_class_pick_next_def stride_pick_next_def s'_def)
    have e: "runnable s = {}" using s1(3) Leaf by simp
    have pr: "procs s' = procs ?s" "nodes s' = nodes s1" "rq s' = rq s1" "current s' = ?i" "sched_frame s s'" "satp s' = (if idleproc s = current s then satp s else cr3 (procs s1 ?i))"
      using s1(9-11) by (auto simp: s'_def proc_run_def sched_frame_def)
    have cr: "core (procs s' q) = core (procs s q)" for q
      using s1(5)[rule_format, of q] by (auto simp: pr)
    have "rq_ok t1 s'" by (rule rq_ok_cong[OF s1(2)]) (auto simp: pr)
    moreover have e': "runnable s' = {}" using runnable_core[of s' s] cr pr(5) e by simp
    ultimately have "sched_at t1 s'" using Leaf inv s1(8) pr by (auto simp: sched_at_def sched_frame_def)
    moreover have "in_window t1 b s'" for b using Leaf e' by (simp add: in_window_def rq_order_def)
    moreover have "switched s (idleproc s) s'"
      using pr cr e s1(5-7,11) core_eqD(8)[OF s1(5)[rule_format]] by (simp add: switched_def sched_frame_def)
    ultimately show ?thesis using run e by (intro exI[of _ s'] exI[of _ "idleproc s"] exI[of _ t1]) simp
  next
    case (Node l p r)
    note q1 = s1(2)[unfolded Node]
    let ?s2 = "advance p s1" and ?t3 = "merge_tree (proc_stride_comp_f (strides (advance p s1))) l r"
    obtain s3 where s3: "stride_dequeue p ?s2 = Some s3" "rq_ok ?t3 s3"
      "procs s3 = procs ?s2" "current s3 = current s1" "satp s3 = satp s1" "sched_frame s1 s3"
      using pick_dequeue_ok(2)[OF q1] by blast
    let ?s = "upd p (\<lambda>x. x\<lparr>runs := runs x + 1\<rparr>) s3"
    define s' where "s' = (if p \<noteq> current ?s then proc_run p ?s else ?s)"
    have run: "schedule s = Some s'"
      using s1(1) pick_dequeue_ok(1)[OF q1] s3(1) by (simp add: schedule_def s0_def[symmetric] Let_def sched_class_pick_next_def
        sched_class_dequeue_def s'_def)
    have fr: "sched_frame s s3" using s1(11) s3(6) by (simp add: sched_frame_def)
    have pr: "procs s' = procs ?s" "nodes s' = nodes s3" "rq s' = rq s3" "current s' = p"
        "sched_frame s s'" "satp s' = (if p = current s then satp s else cr3 (procs s1 p))"
      using s1(9-11) s3(4,5) fr by (auto simp: s'_def proc_run_def sched_frame_def s3(3))
    have cr: "core (procs s' q) = core (procs s q)" for q
      using s1(5)[rule_format, of q] by (auto simp: pr s3(3))
    have pA: "p \<in> runnable s" using s1(3) Node by auto
    have run': "runnable s' = runnable s" using runnable_core[of s' s] cr pr(5) by blast
    have dt: "dist_tree (Node l p r)" using q1 by (simp add: rq_ok_def)
    have sw: "switched s p s'"
      using pr cr s1(6,7) pA core_eqD(8,16)[OF s1(5)[rule_format]] by (auto simp: switched_def s3(3))
    have "rq_ok ?t3 s'" using rq_ok_cong[OF s3(2), of s'] by (auto simp: pr)
    moreover have "0 \<le> time_slice (procs s' q)" for q using s1(8) by (simp add: pr s3(3))
    ultimately have at: "sched_at ?t3 s'"
      using s1(3) run' pr(4,5) inv dt Node by (auto simp: sched_at_def sched_frame_def)
    have ts: "0 < time_slice (procs s' p)" using q1 by (simp add: pr s3(3) rq_ok_def)
    have st': "strides s' z = strides ?s2 z" for z by (simp add: pr s3(3))
    have "in_window ?t3 (strides s p) s'" "\<forall>q \<in> runnable s. ahead b (strides s p) \<le> ahead b (strides s q)"
      if "in_window t b s" for b
    proof -
      have o: "rq_order (Node l p r) b (strides s)" using s1(4) that Node by blast
      note po = pick_order[OF o dt, of "strides s'"]
      have "strides s' p - strides s p = stride_pass (lab6_priority (procs s p))" using sw pA by (simp add: switched_def)
      then have "ahead (strides s p) (strides s' p) \<le> 2 ^ 30" using stride_pass_le by (simp add: ahead_def)
      then show "in_window ?t3 (strides s p) s'"
        using po(1) s1(6) pr(4) unfolding in_window_def st' by simp
      show "\<forall>q \<in> runnable s. ahead b (strides s p) \<le> ahead b (strides s q)"
        using po(2) s1(3,6) Node st' by auto
    qed
    then show ?thesis using run at sw pA ts by (intro exI[of _ s'] exI[of _ p] exI[of _ ?t3]) auto
  qed
qed

lemma window_all:
  assumes "sched_at t s" "in_window t b s" "q \<in> runnable s" shows "ahead b (strides s q) \<le> 2 ^ 30"
  using assms by (cases "q = current s") (auto simp: sched_at_def in_window_def rq_order_def)

lemma switched_runnable: "switched s p s' \<Longrightarrow> runnable s' = runnable s"
  using runnable_core[of s' s] by (auto simp: switched_def)

text \<open>C16: in a well-formed state \<^verbatim>\<open>schedule()\<close> returns, keeps the run queue well formed and the set of
  runnable processes as it is, and switches to the idle process when nothing is runnable and otherwise to
  a runnable process with a positive time slice. If the strides are in a window of width
  \<open>BIG_STRIDE\<close>, that process has the smallest stride of all runnable processes (in the wrap-around
  order), and the strides are in such a window again afterwards.\<close>

theorem schedule_correct:
  assumes "sched_ok s"
  shows "\<exists>s' p. schedule s = Some s' \<and> sched_ok s' \<and> runnable s' = runnable s \<and> switched s p s' \<and>
    (if runnable s = {} then p = idleproc s else p \<in> runnable s \<and> 0 < time_slice (procs s' p)) \<and>
    (fair s \<longrightarrow> fair s' \<and> (\<forall>q \<in> runnable s. 0 \<le> sint (strides s q - strides s p)))"
proof -
  obtain t where t: "sched_at t s" "fair s \<longrightarrow> (\<exists>b. in_window t b s)"
    using assms by (auto simp: sched_ok_def fair_def)
  obtain s' p t' where s': "schedule s = Some s'" "sched_at t' s'" "switched s p s'"
    "if runnable s = {} then p = idleproc s else p \<in> runnable s \<and> 0 < time_slice (procs s' p)"
    "\<forall>b. in_window t b s \<longrightarrow> (if runnable s = {} then in_window t' b s' else in_window t' (strides s p) s' \<and>
       (\<forall>q \<in> runnable s. ahead b (strides s p) \<le> ahead b (strides s q)))"
    using schedule_step[OF t(1)] by blast
  have "fair s' \<and> (\<forall>q \<in> runnable s. 0 \<le> sint (strides s q - strides s p))" if "fair s"
  proof -
    obtain b where b: "in_window t b s" using t(2) \<open>fair s\<close> by blast
    have "fair s'" using s'(2,5) b unfolding fair_def by (metis (full_types))
    moreover have "0 \<le> sint (strides s q - strides s p)" if "q \<in> runnable s" for q
    proof -
      have "p \<in> runnable s" "ahead b (strides s p) \<le> ahead b (strides s q)" using s'(4,5) b that by (auto split: if_splits)
      then show ?thesis using sint_window[of b "strides s q" "strides s p"] window_all[OF t(1) b] that by simp
    qed
    ultimately show ?thesis by blast
  qed
  then show ?thesis using s' switched_runnable[OF s'(3)] unfolding sched_ok_def by blast
qed

subsection \<open>Proportional share\<close>

text \<open>\<open>n\<close> consecutive calls of \<^verbatim>\<open>schedule()\<close>, with the list of the processes they switch to.\<close>

primrec schedules :: "nat \<Rightarrow> 'a kstate_scheme \<Rightarrow> (pptr list \<times> 'a kstate_scheme) option" where
  "schedules 0 s = Some ([], s)"
| "schedules (Suc n) s = do { s1 \<leftarrow> schedule s; (ps, s2) \<leftarrow> schedules n s1; Some (current s1 # ps, s2) }"

abbreviation pass_of :: "'a kstate_scheme \<Rightarrow> pptr \<Rightarrow> nat" where
  "pass_of s p \<equiv> unat (stride_pass (lab6_priority (procs s p)))"

lemma schedules_window:
  assumes "sched_at t s" "in_window t b s" "runnable s \<noteq> {}"
  shows "\<exists>ps s' B. schedules n s = Some (ps, s') \<and> fair s' \<and> length ps = n \<and> set ps \<subseteq> runnable s \<and>
    (\<forall>q \<in> runnable s. B \<le> ahead b (strides s q) + count_list ps q * pass_of s q \<and>
       ahead b (strides s q) + count_list ps q * pass_of s q \<le> B + 2 ^ 30)"
  using assms
proof (induction n arbitrary: t b s)
  case 0
  then show ?case using window_all[OF 0(1,2)] by (intro exI[of _ "[]"] exI[of _ s] exI[of _ 0]) (auto simp: fair_def)
next
  case (Suc n)
  obtain s1 p t' where s1: "schedule s = Some s1" "sched_at t' s1" "switched s p s1" "p \<in> runnable s"
    "in_window t' (strides s p) s1" "\<forall>q \<in> runnable s. ahead b (strides s p) \<le> ahead b (strides s q)"
    using schedule_step[OF Suc.prems(1)] Suc.prems by auto metis
  note run = switched_runnable[OF s1(3)]
  have cp: "current s1 = p" using s1(3) by (simp add: switched_def)
  have pas: "pass_of s1 q = pass_of s q" for q
    using s1(3) core_eqD(16)[of "procs s1 q" "procs s q"] by (simp add: switched_def)
  have step: "ahead b (strides s q) + (if q = p then pass_of s q else 0) = ahead b (strides s p) + ahead (strides s p) (strides s1 q)"
    if "q \<in> runnable s" for q
  proof (cases "q = p")
    case True
    then have "strides s1 q - strides s p = stride_pass (lab6_priority (procs s p))" using s1(3,4) by (simp add: switched_def)
    then show ?thesis using True by (simp add: ahead_def)
  next
    case False
    then have "strides s1 q = strides s q" using s1(3) by (simp add: switched_def)
    then show ?thesis using ahead_rebase[of b "strides s p" "strides s q"] s1(6) that False by simp
  qed
  obtain ps s' B where IH: "schedules n s1 = Some (ps, s')" "fair s'" "length ps = n" "set ps \<subseteq> runnable s"
    "\<forall>q \<in> runnable s. B \<le> ahead (strides s p) (strides s1 q) + count_list ps q * pass_of s1 q \<and>
       ahead (strides s p) (strides s1 q) + count_list ps q * pass_of s1 q \<le> B + 2 ^ 30"
    using Suc.IH[OF s1(2,5)] Suc.prems(3) run by auto
  have "ahead b (strides s q) + count_list (p # ps) q * pass_of s q =
      ahead b (strides s p) + (ahead (strides s p) (strides s1 q) + count_list ps q * pass_of s1 q)" if "q \<in> runnable s" for q
    using step[OF that] pas[of q] by (auto simp: algebra_simps)
  then show ?case using s1(1,4) IH cp
    by (intro exI[of _ "p # ps"] exI[of _ s'] exI[of _ "ahead b (strides s p) + B"]) auto
qed

text \<open>C17: proportional share. As long as the set of runnable processes stays the same, the CPU turns two of
  them receive over any number of calls of \<^verbatim>\<open>schedule()\<close>, weighted by their passes
  (\<open>BIG_STRIDE\<close> divided by the priority), differ by at most two \<open>BIG_STRIDE\<close>, whatever the
  wrap-around of the 32-bit strides.\<close>

theorem proportional_share:
  assumes "fair s" "p \<in> runnable s" "q \<in> runnable s"
  shows "\<exists>ps s'. schedules n s = Some (ps, s') \<and> fair s' \<and> length ps = n \<and> set ps \<subseteq> runnable s \<and>
    count_list ps p * pass_of s p \<le> count_list ps q * pass_of s q + 2 * 2 ^ 30"
proof -
  obtain t b where tb: "sched_at t s" "in_window t b s" using assms(1) by (auto simp: fair_def)
  obtain ps s' B where w: "schedules n s = Some (ps, s')" "fair s'" "length ps = n" "set ps \<subseteq> runnable s"
    "\<forall>q \<in> runnable s. B \<le> ahead b (strides s q) + count_list ps q * pass_of s q \<and>
       ahead b (strides s q) + count_list ps q * pass_of s q \<le> B + 2 ^ 30"
    using schedules_window[OF tb, of n] assms(2) by blast
  have "ahead b (strides s q) \<le> 2 ^ 30" using window_all[OF tb assms(3)] .
  then have "count_list ps p * pass_of s p \<le> count_list ps q * pass_of s q + 2 * 2 ^ 30"
    using bspec[OF w(5) assms(2)] bspec[OF w(5) assms(3)] by simp
  then show ?thesis using w by blast
qed

text \<open>C18: no starvation. If every runnable process has a non-zero pass, each of them is chosen within
  \<open>2 \<times> BIG_STRIDE\<close> calls of \<^verbatim>\<open>schedule()\<close> per runnable process.\<close>

theorem no_starvation:
  assumes "fair s" "p \<in> runnable s" "\<forall>q \<in> runnable s. 0 < pass_of s q" "n > card (runnable s) * 2 ^ 31"
  shows "\<exists>ps s'. schedules n s = Some (ps, s') \<and> p \<in> set ps"
proof -
  obtain t b where tb: "sched_at t s" "in_window t b s" using assms(1) by (auto simp: fair_def)
  obtain ps s' B where w: "schedules n s = Some (ps, s')" "length ps = n" "set ps \<subseteq> runnable s"
    "\<forall>q \<in> runnable s. B \<le> ahead b (strides s q) + count_list ps q * pass_of s q \<and>
       ahead b (strides s q) + count_list ps q * pass_of s q \<le> B + 2 ^ 30"
    using schedules_window[OF tb, of n] assms(2) by blast
  have fin: "finite (runnable s)"
    using tb(1) finite_set_tree[of t] by (metis finite_Diff_insert finite_Diff2 finite.emptyI sched_at_def)
  have False if "p \<notin> set ps"
  proof -
    have "B \<le> 2 ^ 30" using bspec[OF w(4) assms(2)] window_all[OF tb assms(2)] that by (simp add: count_list_0_iff)
    have "count_list ps q \<le> 2 ^ 31" if q: "q \<in> runnable s" for q
    proof -
      have "count_list ps q \<le> count_list ps q * pass_of s q" using assms(3) q by (simp add: Suc_leI)
      moreover have "(2::nat) ^ 31 = 2 ^ 30 + 2 ^ 30" by simp
      ultimately show ?thesis using bspec[OF w(4) q] \<open>B \<le> 2 ^ 30\<close> by linarith
    qed
    then have "sum (count_list ps) (runnable s) \<le> card (runnable s) * 2 ^ 31"
      by (metis sum_bounded_above of_nat_id)
    moreover have "sum (count_list ps) (runnable s) = n" using sum_count_set[OF w(3) fin] w(2) by simp
    ultimately show False using assms(4) by simp
  qed
  then show ?thesis using w(1) by blast
qed

subsection \<open>Waking a process\<close>

lemma wakeup_step:
  assumes at: "sched_at t s" and p: "pstate (procs s p) \<notin> {PROC_ZOMBIE, PROC_RUNNABLE}"
  shows "\<exists>s' t'. wakeup_proc p s = Some s' \<and> sched_at t' s' \<and> runnable s' = runnable s \<union> ({p} - {idleproc s}) \<and>
    current s' = current s \<and> satp s' = satp s \<and> sched_frame s s' \<and>
    (\<forall>q. core (procs s' q) = core (if q = p then (procs s p)\<lparr>pstate := PROC_RUNNABLE, wait_state := 0\<rparr> else procs s q)) \<and>
    (\<forall>q. strides s' q = strides s q) \<and>
    (\<forall>b. in_window t b s \<longrightarrow> ahead b (strides s p) \<le> 2 ^ 30 \<longrightarrow> in_window t' b s')"
proof -
  define s1 where "s1 = upd p (\<lambda>x. x\<lparr>pstate := PROC_RUNNABLE, wait_state := 0\<rparr>) s"
  have w: "wakeup_proc p s = (if p \<noteq> current s1 then sched_class_enqueue p s1 else Some s1)"
    using p by (simp add: wakeup_proc_def s1_def)
  have s1: "nodes s1 = nodes s" "rq s1 = rq s" "current s1 = current s" "satp s1 = satp s" "sched_frame s s1"
    "\<And>q. on_rq (procs s1 q) = on_rq (procs s q)" "\<And>q. time_slice (procs s1 q) = time_slice (procs s q)"
    "\<And>q. strides s1 q = strides s q" "idleproc s1 = idleproc s"
    "\<And>q. core (procs s1 q) = core (if q = p then (procs s p)\<lparr>pstate := PROC_RUNNABLE, wait_state := 0\<rparr> else procs s q)"
    by (auto simp: s1_def sched_frame_def)
  have r1: "runnable s1 = runnable s \<union> ({p} - {idleproc s})" by (auto simp: runnable_def s1_def)
  have "rq_ok t s" using at by (simp add: sched_at_def)
  then have q1: "rq_ok t s1" by (rule rq_ok_cong) (simp_all add: s1)
  have pn: "p \<notin> set_tree t" using at p by (auto simp: sched_at_def runnable_def)
  show ?thesis
  proof (cases "p = current s \<or> p = idleproc s")
    case True
    then have "wakeup_proc p s = Some s1" by (auto simp: w s1 sched_class_enqueue_def)
    moreover have "sched_at t s1" using at q1 True r1 s1 by (auto simp: sched_at_def sched_frame_def runnable_def)
    moreover have "in_window t b s1" if "in_window t b s" "ahead b (strides s p) \<le> 2 ^ 30" for b
      using that True r1 unfolding in_window_def by (auto simp: s1)
    ultimately show ?thesis using s1 r1 by (intro exI[of _ s1] exI[of _ t]) simp
  next
    case False
    let ?t = "merge_tree (proc_stride_comp_f (strides s1)) t (Node Leaf p Leaf)"
    obtain s' where s': "stride_enqueue p s1 = Some s'" "rq_ok ?t s'"
      "procs s' = (procs s1)(p := (procs s1 p)\<lparr>time_slice := refill (max_time_slice (rq s1)) (time_slice (procs s1 p)), on_rq := True\<rparr>)"
      "current s' = current s1" "satp s' = satp s1" "sched_frame s1 s'"
      using stride_enqueue_ok[OF q1 pn] at s1 by (auto simp: sched_at_def)
    have run: "wakeup_proc p s = Some s'" using s'(1) False by (simp add: w s1 sched_class_enqueue_def)
    have cr: "core (procs s' q) = core (procs s1 q)" for q by (simp add: s'(3))
    have r': "runnable s' = runnable s1" using runnable_core[of s' s1] cr s'(6) by blast
    have "sched_at ?t s'"
      using s'(2) at r' r1 False s1 s'(4,6) by (auto simp: sched_at_def sched_frame_def s'(3) refill_def)
    moreover have "strides s' q = strides s q" for q by (simp add: s'(3) s1)
    moreover have "in_window ?t b s'" if "in_window t b s" "ahead b (strides s p) \<le> 2 ^ 30" for b
      using that enqueue_order[of t b "strides s" p] False r' r1 s'(4) s1(3)
      unfolding in_window_def by (simp add: s1 calculation(2))
    ultimately show ?thesis using run cr s1 r1 r' s'(4-6) by (intro exI[of _ s'] exI[of _ ?t]) (simp add: sched_frame_def)
  qed
qed

lemma fair_spread:
  assumes "fair s" "p \<in> runnable s" "q \<in> runnable s"
  shows "\<bar>sint (strides s q - strides s p)\<bar> \<le> 2 ^ 30"
proof -
  obtain t b where tb: "sched_at t s" "in_window t b s" using assms(1) by (auto simp: fair_def)
  have le: "\<bar>int m - int n\<bar> \<le> 2 ^ 30" if "m \<le> 2 ^ 30" "n \<le> 2 ^ 30" for m n :: nat using that by auto
  show ?thesis
    using le[OF window_all[OF tb assms(3)] window_all[OF tb assms(2)]]
      sint_window[OF window_all[OF tb assms(3)] window_all[OF tb assms(2)]] by simp
qed

text \<open>C19: \<^verbatim>\<open>wakeup_proc\<close> on a process that is neither runnable nor a zombie returns, makes exactly this
  process runnable, clears its wait state and keeps the run queue well formed. The order of the
  strides survives when the stride of the process is in the window of the others; it does not when its
  stride is more than \<open>BIG_STRIDE\<close> away from that of some runnable process, as the stride 0 of a new
  process may be.\<close>

theorem wakeup_proc_correct:
  assumes "sched_ok s" "pstate (procs s p) \<notin> {PROC_ZOMBIE, PROC_RUNNABLE}" "p \<noteq> idleproc s"
  shows "\<exists>s'. wakeup_proc p s = Some s' \<and> sched_ok s' \<and> runnable s' = insert p (runnable s) \<and>
    wait_state (procs s' p) = 0 \<and> current s' = current s \<and>
    (\<forall>t b. sched_at t s \<longrightarrow> in_window t b s \<longrightarrow> ahead b (strides s p) \<le> 2 ^ 30 \<longrightarrow> fair s') \<and>
    (\<forall>q \<in> runnable s. 2 ^ 30 < \<bar>sint (strides s q - strides s p)\<bar> \<longrightarrow> \<not> fair s')"
proof -
  obtain t0 where t0: "sched_at t0 s" using assms(1) by (auto simp: sched_ok_def)
  obtain s' t' where s': "wakeup_proc p s = Some s'" "sched_at t' s'" "runnable s' = runnable s \<union> ({p} - {idleproc s})"
      "current s' = current s" "\<forall>q. core (procs s' q) = core (if q = p then (procs s p)\<lparr>pstate := PROC_RUNNABLE, wait_state := 0\<rparr> else procs s q)"
      "\<forall>q. strides s' q = strides s q"
    using wakeup_step[OF t0 assms(2)] by blast
  have c: "core (procs s' p) = core ((procs s p)\<lparr>pstate := PROC_RUNNABLE, wait_state := 0\<rparr>)"
    using s'(5) by simp
  have "fair s'" if "sched_at t s" "in_window t b s" "ahead b (strides s p) \<le> 2 ^ 30" for t b
    using wakeup_step[OF that(1) assms(2)] that(2,3) s'(1) unfolding fair_def by (metis option.inject)
  moreover have "\<not> fair s'" if "q \<in> runnable s" "2 ^ 30 < \<bar>sint (strides s q - strides s p)\<bar>" for q
    using fair_spread[of s' p q] that s'(3,6) assms(3) by auto
  ultimately show ?thesis using s' assms(3) core_eqD(12)[OF c] by (auto simp: sched_ok_def)
qed

lemma proc_tick_ok:
  assumes "sched_ok s"
  defines "s' \<equiv> sched_class_proc_tick (current s) s"
  shows "sched_ok s'" "runnable s' = runnable s" "sched_frame s s'" "current s' = current s"
    "\<And>q. core (procs s' q) = core (procs s q)"
proof -
  obtain t where t: "sched_at t s" using assms by (auto simp: sched_ok_def)
  have fr: "nodes s' = nodes s" "rq s' = rq s" "\<And>q. q \<noteq> current s \<Longrightarrow> procs s' q = procs s q"
    by (auto simp: s'_def sched_class_proc_tick_def stride_proc_tick_def Let_def)
  show cr: "core (procs s' q) = core (procs s q)" for q
    by (auto simp: s'_def sched_class_proc_tick_def stride_proc_tick_def Let_def)
  show sf: "sched_frame s s'" "current s' = current s"
    by (auto simp: s'_def sched_class_proc_tick_def stride_proc_tick_def Let_def sched_frame_def)
  have nn: "0 \<le> time_slice (procs s q)" for q using t by (simp add: sched_at_def)
  show r: "runnable s' = runnable s" using runnable_core[of s' s] cr sf by blast
  have "rq_ok t s" "current s \<notin> set_tree t" using t by (auto simp: sched_at_def)
  then have "rq_ok t s'" using fr(3) unfolding rq_ok_def fr(1,2) by metis
  moreover have "0 \<le> time_slice (procs s' q)" for q
    using nn[of q] by (auto simp: s'_def sched_class_proc_tick_def stride_proc_tick_def Let_def)
  ultimately have "sched_at t s'" using t r fr(2) sf(2) by (simp add: sched_at_def)
  then show "sched_ok s'" by (auto simp: sched_ok_def)
qed

text \<open>The tick handler charges the running process one tick of its slice and asks for a
  reschedule exactly when the slice is used up (for the idle process: always); the run queue stays well
  formed.\<close>

lemma proc_tick_correct:
  assumes "sched_ok s"
  shows "sched_ok (sched_class_proc_tick (current s) s) \<and>
    runnable (sched_class_proc_tick (current s) s) = runnable s \<and>
    (let x = procs s (current s); y = procs (sched_class_proc_tick (current s) s) (current s) in
     if current s = idleproc s then y = x\<lparr>need_resched := True\<rparr>
     else time_slice y = max 0 (time_slice x - 1) \<and> need_resched y = (need_resched x \<or> time_slice x \<le> 1))"
proof -
  have "0 \<le> time_slice (procs s (current s))" using assms by (auto simp: sched_ok_def sched_at_def)
  then show ?thesis using proc_tick_ok(1,2)[OF assms]
    by (auto simp: sched_class_proc_tick_def stride_proc_tick_def Let_def)
qed

subsection \<open>A sample state\<close>

text \<open>The idle process 0, the running process 1 with a stride just below the wrap-around, process 2 in the
  pool with a stride just above it, and process 3 asleep.\<close>

definition blank_proc :: proc_struct where
  "blank_proc = \<lparr>pstate = PROC_UNINIT, pid = -1, runs = 0, kstack = 0, need_resched = False, proc_parent = None,
     proc_mm = None, pcontext = \<lparr>ctx_ra = 0, ctx_sp = 0, ctx_s = \<lambda>_. 0\<rparr>, proc_tf = None, cr3 = 0, flags = 0,
     pname = [], exit_code = 0, wait_state = 0, cptr = None, yptr = None, optr = None, on_rq = False, time_slice = 0,
     lab6_stride = 0, lab6_priority = 0, filesp = None\<rparr>"

definition sample_procs :: "pptr \<Rightarrow> proc_struct" where
  "sample_procs p =
     (if p = 0 then blank_proc\<lparr>pstate := PROC_RUNNABLE, pid := 0\<rparr>
      else if p = 1 then blank_proc\<lparr>pstate := PROC_RUNNABLE, pid := 1, time_slice := 3, lab6_stride := 0xFFFFFFF0, lab6_priority := 2\<rparr>
      else if p = 2 then blank_proc\<lparr>pstate := PROC_RUNNABLE, pid := 2, time_slice := 5, on_rq := True, lab6_stride := 0x10, lab6_priority := 6\<rparr>
      else if p = 3 then blank_proc\<lparr>pstate := PROC_SLEEPING, pid := 3, wait_state := WT_TIMER, lab6_stride := 0x20\<rparr>
      else blank_proc)"

definition sample_k :: kstate where
  "sample_k = \<lparr>procs = sample_procs, nodes = \<lambda>_. \<lparr>sh_parent = None, sh_left = None, sh_right = None\<rparr>,
     rq = \<lparr>proc_num = 1, max_time_slice = 5, run_pool = Some 2\<rparr>, current = 1, idleproc = 0, initproc = 1, satp = 0\<rparr>"

lemma sample_k_runnable: "runnable sample_k = {1, 2}"
  by (auto simp: runnable_def sample_k_def sample_procs_def blank_proc_def)

lemma sample_k_at: "sched_at (Node Leaf 2 Leaf) sample_k"
proof -
  have "rq_ok (Node Leaf 2 Leaf) sample_k"
    by (simp add: rq_ok_def sample_k_def child_root_def child_of_def sample_procs_def blank_proc_def)
  then show ?thesis using sample_k_runnable
    by (auto simp: sched_at_def sample_k_def sample_procs_def blank_proc_def)
qed

lemma sample_k_window: "in_window (Node Leaf 2 Leaf) 0xFFFFFFF0 sample_k"
  by (simp add: in_window_def rq_order_def ahead_def sample_k_def sample_procs_def)

lemma sample_k_fair: "fair sample_k" "sched_ok sample_k"
  using sample_k_at sample_k_window by (auto simp: fair_def sched_ok_def)

lemma sample_k_pass: "pass_of sample_k 1 = 2 ^ 29" "pass_of sample_k 2 = 178956970"
  by (simp_all add: sample_k_def sample_procs_def stride_pass_def BIG_STRIDE_def push_bit_eq_mult unat_div)

theorem schedule_correct_witness:
  "sched_ok sample_k \<and> fair sample_k \<and>
   (\<exists>s' p. schedule sample_k = Some s' \<and> sched_ok s' \<and> p \<in> {1, 2} \<and> switched sample_k p s' \<and>
      0 \<le> sint (strides sample_k 2 - strides sample_k p))"
proof -
  obtain s' p where "schedule sample_k = Some s'" "sched_ok s'" "switched sample_k p s'" "p \<in> runnable sample_k"
    "\<forall>q \<in> runnable sample_k. 0 \<le> sint (strides sample_k q - strides sample_k p)"
    using schedule_correct[OF sample_k_fair(2)] sample_k_fair(1) sample_k_runnable by auto
  then show ?thesis using sample_k_fair sample_k_runnable by auto
qed

theorem proportional_share_witness:
  "fair sample_k \<and> 2 \<in> runnable sample_k \<and> 1 \<in> runnable sample_k \<and>
   (\<exists>ps s'. schedules 1000 sample_k = Some (ps, s') \<and> length ps = 1000 \<and>
      count_list ps 2 * 178956970 \<le> count_list ps 1 * 2 ^ 29 + 2 ^ 31)"
  using proportional_share[OF sample_k_fair(1), of 2 1 1000] sample_k_fair(1) sample_k_runnable sample_k_pass
  by (auto simp del: One_nat_def)

theorem no_starvation_witness:
  "fair sample_k \<and> (\<exists>ps s'. schedules 4294967297 sample_k = Some (ps, s') \<and> 2 \<in> set ps)"
  using no_starvation[OF sample_k_fair(1), of 2 4294967297] sample_k_fair(1) sample_k_runnable sample_k_pass
  by (auto simp del: One_nat_def)

theorem wakeup_proc_correct_witness:
  "pstate (procs sample_k 3) = PROC_SLEEPING \<and> (\<exists>s'. wakeup_proc 3 sample_k = Some s' \<and> fair s' \<and> runnable s' = {1, 2, 3})"
proof -
  have p: "pstate (procs sample_k 3) \<notin> {PROC_ZOMBIE, PROC_RUNNABLE}" "3 \<noteq> idleproc sample_k"
    "pstate (procs sample_k 3) = PROC_SLEEPING" "ahead 0xFFFFFFF0 (strides sample_k 3) \<le> 2 ^ 30"
    by (simp_all add: sample_k_def sample_procs_def ahead_def)
  show ?thesis
    using wakeup_proc_correct[OF sample_k_fair(2) p(1,2)] p(3,4) sample_k_at sample_k_window sample_k_runnable
    by (metis insert_commute)
qed

end
