(* ===== verification/Timers.thy ===== *)
theory Timers
  imports Sched
begin

text \<open>
  The timer list of \<^verbatim>\<open>src/kern/schedule/sched.c\<close>. It is a delta list: the \<^verbatim>\<open>expires\<close> member of a timer counts
  the ticks after the timer before it. The ring \<^verbatim>\<open>timer_list\<close> is the list of its timers (numbers standing
  for their addresses) in ring order, so \<^verbatim>\<open>list_empty(&timer->timer_link)\<close> says that the timer is not in
  the list, and \<^verbatim>\<open>list_add_before\<close>, \<^verbatim>\<open>list_del_init\<close> are insertion and removal (lemmas of theory
  \<open>Ring\<close>). The sum of the deltas up to a timer is its deadline, a number of ticks below \<open>2 ^ 32\<close>, so no
  delta overflows.
\<close>

record timer =
  expires :: nat
  timer_proc :: "pptr option"

record tstate = kstate +
  timer_list :: "nat list"
  timers :: "nat \<Rightarrow> timer"

definition timer_init :: "nat \<Rightarrow> pptr \<Rightarrow> nat \<Rightarrow> 'a tstate_scheme \<Rightarrow> 'a tstate_scheme" where
  "timer_init t p e s = s\<lparr>timers := (timers s)(t := \<lparr>expires = e, timer_proc = Some p\<rparr>)\<rparr>"

definition set_expires :: "nat \<Rightarrow> nat \<Rightarrow> (nat \<Rightarrow> timer) \<Rightarrow> nat \<Rightarrow> timer" where
  "set_expires t e T = T(t := (T t)\<lparr>expires := e\<rparr>)"

fun add_walk :: "nat \<Rightarrow> nat list \<Rightarrow> (nat \<Rightarrow> timer) \<Rightarrow> nat list \<times> (nat \<Rightarrow> timer)" where
  "add_walk t [] T = ([t], T)"
| "add_walk t (n # ns) T =
     (if expires (T t) < expires (T n) then (t # n # ns, set_expires n (expires (T n) - expires (T t)) T)
      else let (r, T) = add_walk t ns (set_expires t (expires (T t) - expires (T n)) T) in (n # r, T))"

definition add_timer :: "nat \<Rightarrow> 'a tstate_scheme \<Rightarrow> 'a tstate_scheme option" where
  "add_timer t s = do {
     kassert (expires (timers s t) > 0 \<and> timer_proc (timers s t) \<noteq> None);
     kassert (t \<notin> set (timer_list s));
     let (l, T) = add_walk t (timer_list s) (timers s);
     Some (s\<lparr>timer_list := l, timers := T\<rparr>)
   }"

definition del_timer :: "nat \<Rightarrow> 'a tstate_scheme \<Rightarrow> 'a tstate_scheme" where
  "del_timer t s =
     (if t \<in> set (timer_list s) then
        let s = (if expires (timers s t) \<noteq> 0 then
            (case tl (dropWhile (\<lambda>u. u \<noteq> t) (timer_list s)) of
               [] \<Rightarrow> s
             | n # _ \<Rightarrow> s\<lparr>timers := set_expires n (expires (timers s n) + expires (timers s t)) (timers s)\<rparr>)
          else s) in
        s\<lparr>timer_list := remove1 t (timer_list s)\<rparr>
      else s)"

text \<open>The loop over the expired timers at the front: \<open>ts\<close> is the list from \<^verbatim>\<open>le\<close> on.\<close>

fun run_expired :: "nat list \<Rightarrow> 'a tstate_scheme \<Rightarrow> 'a tstate_scheme option" where
  "run_expired [] s = Some s"
| "run_expired (t # ts) s =
     (if expires (timers s t) = 0 then do {
        p \<leftarrow> timer_proc (timers s t);
        kassert (wait_state (procs s p) \<noteq> 0 \<longrightarrow> wait_state (procs s p) AND WT_INTERRUPTED \<noteq> 0);
        s \<leftarrow> wakeup_proc p s;
        run_expired ts (del_timer t s)
      } else Some s)"

definition run_timer_list :: "'a tstate_scheme \<Rightarrow> 'a tstate_scheme option" where
  "run_timer_list s = do {
     s \<leftarrow> (case timer_list s of
        [] \<Rightarrow> Some s
      | t # ts \<Rightarrow> do {
          kassert (expires (timers s t) \<noteq> 0);
          let s = s\<lparr>timers := set_expires t (expires (timers s t) - 1) (timers s)\<rparr>;
          run_expired (t # ts) s });
     Some (sched_class_proc_tick (current s) s)
   }"

subsection \<open>Deadlines\<close>

text \<open>The deadline of a timer: the sum of the deltas up to it.\<close>

fun due :: "(nat \<Rightarrow> timer) \<Rightarrow> nat list \<Rightarrow> nat \<Rightarrow> nat" where
  "due T [] t = 0"
| "due T (n # ns) t = expires (T n) + (if t = n then 0 else due T ns t)"

definition timers_ok :: "nat list \<Rightarrow> (nat \<Rightarrow> timer) \<Rightarrow> bool" where
  "timers_ok l T \<longleftrightarrow> distinct l \<and> (\<forall>t \<in> set l. timer_proc (T t) \<noteq> None) \<and> (l \<noteq> [] \<longrightarrow> 0 < expires (T (hd l)))"

lemma due_cong: "(\<And>t. t \<in> set l \<Longrightarrow> expires (T' t) = expires (T t)) \<Longrightarrow> due T' l t = due T l t"
  by (induction l) auto

lemma set_expires_simps [simp]:
  "expires (set_expires t e T u) = (if u = t then e else expires (T u))"
  "timer_proc (set_expires t e T u) = timer_proc (T u)"
  by (simp_all add: set_expires_def)

lemma add_walk_due:
  assumes "distinct l" "t \<notin> set l" "add_walk t l T = (l', T')"
  shows "(\<forall>u \<in> set l. due T' l' u = due T l u) \<and> due T' l' t = expires (T t) \<and> set l' = insert t (set l) \<and> distinct l' \<and>
    (\<forall>u. timer_proc (T' u) = timer_proc (T u)) \<and> (\<forall>u. u \<notin> insert t (set l) \<longrightarrow> T' u = T u) \<and>
    (l \<noteq> [] \<longrightarrow> 0 < expires (T (hd l)) \<longrightarrow> 0 < expires (T t) \<longrightarrow> 0 < expires (T' (hd l')))"
  using assms
proof (induction l arbitrary: T l' T')
  case (Cons n ns)
  show ?case
  proof (cases "expires (T t) < expires (T n)")
    case True
    then have e: "l' = t # n # ns" "T' = set_expires n (expires (T n) - expires (T t)) T" using Cons.prems by auto
    have "due T' ns u = due T ns u" for u using Cons.prems e(2) by (intro due_cong) auto
    then show ?thesis using True Cons.prems e by (auto simp: set_expires_def)
  next
    case False
    let ?T = "set_expires t (expires (T t) - expires (T n)) T"
    obtain r where r: "add_walk t ns ?T = (r, T')" "l' = n # r" using Cons.prems(3) False by (auto simp: Let_def split: prod.splits)
    have IH: "\<forall>u \<in> set ns. due T' r u = due ?T ns u" "due T' r t = expires (?T t)" "set r = insert t (set ns)" "distinct r"
      "\<forall>u. timer_proc (T' u) = timer_proc (?T u)" "\<forall>u. u \<notin> insert t (set ns) \<longrightarrow> T' u = ?T u"
      using Cons.IH[OF _ _ r(1)] Cons.prems by auto
    have "due ?T ns u = due T ns u" for u using Cons.prems by (intro due_cong) auto
    moreover have "T' n = T n" using IH(6) Cons.prems by (auto simp: set_expires_def)
    ultimately show ?thesis using False IH r Cons.prems by (auto simp: set_expires_def)
  qed
qed auto

lemma due_append: "t \<notin> set xs \<Longrightarrow> due T (xs @ l) t = sum_list (map (\<lambda>u. expires (T u)) xs) + due T l t"
  by (induction xs) auto

lemma due_append1: "t \<in> set xs \<Longrightarrow> due T (xs @ l) t = due T xs t"
  by (induction xs) auto

lemma due_insert: "t \<notin> set xs \<Longrightarrow> due T (xs @ t # ys) t = sum_list (map (\<lambda>u. expires (T u)) xs) + expires (T t)"
  by (simp add: due_append)

text \<open>Removing a timer from the middle of the list.\<close>

lemma del_timer_due:
  assumes "distinct (timer_list s)" "t \<in> set (timer_list s)"
  shows "timer_list (del_timer t s) = remove1 t (timer_list s)"
    "u \<in> set (timer_list s) \<Longrightarrow> u \<noteq> t \<Longrightarrow> due (timers (del_timer t s)) (remove1 t (timer_list s)) u = due (timers s) (timer_list s) u"
    "timer_proc (timers (del_timer t s) u) = timer_proc (timers s u)"
proof -
  obtain xs ys where l: "timer_list s = xs @ t # ys" using assms(2) by (meson split_list)
  have d: "t \<notin> set xs" "t \<notin> set ys" "distinct xs" "distinct ys" "set xs \<inter> set ys = {}" using assms(1) l by auto
  have dw: "tl (dropWhile (\<lambda>u. u \<noteq> t) (timer_list s)) = ys" using d(1) unfolding l by (subst dropWhile_append2) auto
  have rm: "remove1 t (timer_list s) = xs @ ys" using d(1) by (simp add: l remove1_append)
  show "timer_list (del_timer t s) = remove1 t (timer_list s)"
    using assms(2) by (auto simp: del_timer_def Let_def split: list.splits)
  show "timer_proc (timers (del_timer t s) u) = timer_proc (timers s u)"
    using assms(2) by (auto simp: del_timer_def Let_def split: list.splits)
  let ?T = "timers (del_timer t s)"
  have T: "expires (?T v) = (if ys \<noteq> [] \<and> v = hd ys then expires (timers s v) + expires (timers s t) else expires (timers s v))" for v
    using assms(2) dw by (cases ys) (auto simp: del_timer_def Let_def)
  show "due ?T (remove1 t (timer_list s)) u = due (timers s) (timer_list s) u" if u: "u \<in> set (timer_list s)" "u \<noteq> t"
  proof (cases "u \<in> set xs")
    case True
    have "due ?T xs u = due (timers s) xs u" using d(5) by (intro due_cong) (auto simp: T)
    then have "due ?T (xs @ ys) u = due (timers s) (xs @ t # ys) u" using True by (simp add: due_append1)
    then show ?thesis unfolding rm unfolding l .
  next
    case False
    then obtain y zs where ys: "ys = y # zs" using u l by (cases ys) auto
    have "map (\<lambda>u. expires (?T u)) xs = map (\<lambda>u. expires (timers s u)) xs" using d(5) ys by (auto simp: T)
    then have "(\<Sum>u\<leftarrow>xs. expires (?T u)) = (\<Sum>u\<leftarrow>xs. expires (timers s u))" by metis
    moreover have "due ?T zs u = due (timers s) zs u" using d(4) ys by (intro due_cong) (auto simp: T)
    moreover have "expires (?T y) = expires (timers s y) + expires (timers s t)" using ys by (simp add: T)
    ultimately have "due ?T (xs @ ys) u = due (timers s) (xs @ t # ys) u" using False u(2) by (simp add: due_append ys)
    then show ?thesis unfolding rm unfolding l .
  qed
qed

subsection \<open>Expiry\<close>

definition woken :: "proc_struct \<Rightarrow> proc_struct" where
  "woken x = (if pstate x = PROC_RUNNABLE then x else x\<lparr>pstate := PROC_RUNNABLE, wait_state := 0\<rparr>)"

lemma wakeup_any:
  assumes "sched_ok s" "pstate (procs s p) \<noteq> PROC_ZOMBIE"
  shows "\<exists>s'. wakeup_proc p s = Some s' \<and> sched_ok s' \<and> sched_frame s s' \<and> current s' = current s \<and>
    (\<forall>q. core (procs s' q) = core (if q = p then woken (procs s p) else procs s q))"
proof (cases "pstate (procs s p) = PROC_RUNNABLE")
  case True
  then show ?thesis using assms by (auto simp: wakeup_proc_def sched_frame_def woken_def)
next
  case False
  obtain t where "sched_at t s" using assms(1) by (auto simp: sched_ok_def)
  then obtain s' t' where "wakeup_proc p s = Some s'" "sched_at t' s'" "sched_frame s s'" "current s' = current s"
    "\<forall>q. core (procs s' q) = core (if q = p then (procs s p)\<lparr>pstate := PROC_RUNNABLE, wait_state := 0\<rparr> else procs s q)"
    using wakeup_step[of t s p] False assms(2) by blast
  then show ?thesis using False unfolding sched_ok_def woken_def by auto
qed

lemma timer_more:
  assumes "kstate.more s' = kstate.more (s :: 'a tstate_scheme)"
  shows "timer_list s' = timer_list s" "timers s' = timers s" "tstate.more s' = tstate.more s"
  using assms by (cases s; cases s'; simp)+

text \<open>A process a timer may wake: it is no zombie, and if it waits, its wait can be interrupted.\<close>

definition wakeable :: "proc_struct \<Rightarrow> bool" where
  "wakeable x \<longleftrightarrow> pstate x \<noteq> PROC_ZOMBIE \<and> (wait_state x \<noteq> 0 \<longrightarrow> wait_state x AND WT_INTERRUPTED \<noteq> 0)"

lemma wakeable_woken: "wakeable x \<Longrightarrow> wakeable (woken x)" by (auto simp: wakeable_def woken_def)

lemma woken_core: "core x = core y \<Longrightarrow> core (woken x) = core (woken y)"
  by (cases x; cases y) (simp add: core_def woken_def)

lemma woken_woken [simp]: "woken (woken x) = woken x" by (simp add: woken_def)

lemma wakeable_core: "core x = core y \<Longrightarrow> wakeable x = wakeable y"
  using core_eqD(1,12)[of x y] by (simp add: wakeable_def)

lemma run_expired_ok:
  assumes "sched_ok s" "timer_list s = l" "distinct l"
    "\<forall>t \<in> set (takeWhile (\<lambda>t. expires (timers s t) = 0) l). \<exists>p. timer_proc (timers s t) = Some p \<and> wakeable (procs s p)"
  defines "zs \<equiv> takeWhile (\<lambda>t. expires (timers s t) = 0) l"
  shows "\<exists>s'. run_expired l s = Some s' \<and> sched_ok s' \<and> timer_list s' = dropWhile (\<lambda>t. expires (timers s t) = 0) l \<and>
    timers s' = timers s \<and> current s' = current s \<and> idleproc s' = idleproc s \<and>
    (\<forall>q. core (procs s' q) = core (if \<exists>t \<in> set zs. timer_proc (timers s t) = Some q then woken (procs s q) else procs s q))"
  using assms(1-4) unfolding zs_def
proof (induction l arbitrary: s)
  case (Cons t l)
  show ?case
  proof (cases "expires (timers s t) = 0")
    case True
    obtain p where p: "timer_proc (timers s t) = Some p" "wakeable (procs s p)" using Cons.prems True by auto
    then obtain s1 where s1: "wakeup_proc p s = Some s1" "sched_ok s1" "sched_frame s s1" "current s1 = current s"
      "\<forall>q. core (procs s1 q) = core (if q = p then woken (procs s p) else procs s q)"
      using wakeup_any[of s p] Cons.prems(1) by (auto simp: wakeable_def)
    have m: "timer_list s1 = t # l" "timers s1 = timers s" using timer_more[of s1 s] s1(3) Cons.prems(2) by (auto simp: sched_frame_def)
    let ?s = "del_timer t s1"
    have s2: "timer_list ?s = l" "timers ?s = timers s" "procs ?s = procs s1" "current ?s = current s" "idleproc ?s = idleproc s"
        "nodes ?s = nodes s1" "rq ?s = rq s1"
      using m True s1(3,4) by (auto simp: del_timer_def sched_frame_def)
    have ok: "sched_ok ?s" using s1(2-4) s2(3-7) by (simp add: sched_ok_def sched_at_def rq_ok_def runnable_def sched_frame_def)
    have wk: "wakeable (procs s1 q)" if "wakeable (procs s q)" for q
      using s1(5) that wakeable_woken[of "procs s q"] wakeable_core by (metis (full_types))
    have "\<forall>u \<in> set (takeWhile (\<lambda>t. expires (timers ?s t) = 0) l). \<exists>q. timer_proc (timers ?s u) = Some q \<and> wakeable (procs ?s q)"
      using Cons.prems(4) wk True unfolding s2(2,3) by fastforce
    then obtain s' where s': "run_expired l ?s = Some s'" "sched_ok s'" "timer_list s' = dropWhile (\<lambda>t. expires (timers s t) = 0) l"
      "timers s' = timers s" "current s' = current s" "idleproc s' = idleproc s"
      "\<forall>q. core (procs s' q) = core (if \<exists>t \<in> set (takeWhile (\<lambda>t. expires (timers s t) = 0) l). timer_proc (timers s t) = Some q
         then woken (procs s1 q) else procs s1 q)"
      using Cons.IH[OF ok s2(1)] Cons.prems(3) s2 by auto
    have "run_expired (t # l) s = Some s'"
      using True p s1(1) s'(1) by (auto simp: wakeable_def)
    moreover have "core (procs s' q) = core (if \<exists>t \<in> set (takeWhile (\<lambda>t. expires (timers s t) = 0) (t # l)). timer_proc (timers s t) = Some q
         then woken (procs s q) else procs s q)" for q
    proof (cases "q = p")
      case True
      then have c: "core (procs s1 q) = core (woken (procs s q))" using s1(5) by simp
      then have "core (woken (procs s1 q)) = core (woken (procs s q))" using woken_core[OF c] by simp
      then have "core (procs s' q) = core (woken (procs s q))" using s'(7) c by simp
      then show ?thesis using p(1) True \<open>expires (timers s t) = 0\<close> by simp
    next
      case False
      then have "core (procs s1 q) = core (procs s q)" using s1(5) by simp
      then have "core (procs s' q) = core (if \<exists>t \<in> set (takeWhile (\<lambda>t. expires (timers s t) = 0) l). timer_proc (timers s t) = Some q
         then woken (procs s q) else procs s q)" using s'(7) woken_core[of "procs s1 q" "procs s q"] by simp
      then show ?thesis using p(1) False \<open>expires (timers s t) = 0\<close> by simp
    qed
    ultimately show ?thesis using s' True by (intro exI[of _ s']) simp
  next
    case False
    then show ?thesis using Cons.prems by auto
  qed
qed auto

lemma due_zero:
  "distinct l \<Longrightarrow> u \<in> set l \<Longrightarrow> due T l u = 0 \<longleftrightarrow> u \<in> set (takeWhile (\<lambda>v. expires (T v) = 0) l)"
  by (induction l) (auto dest: set_takeWhileD)

lemma due_dropWhile:
  "distinct l \<Longrightarrow> u \<in> set (dropWhile (\<lambda>v. expires (T v) = 0) l) \<Longrightarrow> due T (dropWhile (\<lambda>v. expires (T v) = 0) l) u = due T l u"
  by (induction l) (auto dest: set_dropWhileD)

lemma due_tick:
  "u \<in> set (t # ts) \<Longrightarrow> 0 < expires (T t) \<Longrightarrow> distinct (t # ts) \<Longrightarrow>
   due (set_expires t (expires (T t) - 1) T) (t # ts) u = due T (t # ts) u - 1 \<and> 0 < due T (t # ts) u"
proof -
  assume a: "u \<in> set (t # ts)" "0 < expires (T t)" "distinct (t # ts)"
  have "due (set_expires t (expires (T t) - 1) T) ts u = due T ts u" using a(3) by (intro due_cong) auto
  then show ?thesis using a by simp
qed

text \<open>C23: inserting a timer with \<open>n > 0\<close> ticks gives it the deadline \<open>n\<close> and leaves the deadline of every
  other timer unchanged; deleting it again restores the set of timers and all deadlines.\<close>

theorem add_del_timer_deadlines:
  assumes "timers_ok (timer_list s) (timers s)" "t \<notin> set (timer_list s)" "0 < expires (timers s t)" "timer_proc (timers s t) \<noteq> None"
  shows "\<exists>s'. add_timer t s = Some s' \<and> timers_ok (timer_list s') (timers s') \<and>
    set (timer_list s') = insert t (set (timer_list s)) \<and>
    due (timers s') (timer_list s') t = expires (timers s t) \<and>
    (\<forall>u \<in> set (timer_list s). due (timers s') (timer_list s') u = due (timers s) (timer_list s) u) \<and>
    set (timer_list (del_timer t s')) = set (timer_list s) \<and>
    (\<forall>u \<in> set (timer_list s). due (timers (del_timer t s')) (timer_list (del_timer t s')) u = due (timers s) (timer_list s) u)"
proof -
  obtain l T where w: "add_walk t (timer_list s) (timers s) = (l, T)" by fastforce
  have d: "distinct (timer_list s)" using assms(1) by (simp add: timers_ok_def)
  note a = add_walk_due[OF d assms(2) w]
  let ?s = "s\<lparr>timer_list := l, timers := T\<rparr>"
  have run: "add_timer t s = Some ?s" using assms w by (simp add: add_timer_def)
  have "0 < expires (T (hd l))"
  proof (cases "timer_list s = []")
    case True
    then show ?thesis using w assms(3) by auto
  next
    case False
    then have "0 < expires (timers s (hd (timer_list s)))" using assms(1) by (simp add: timers_ok_def)
    then show ?thesis using a False assms(3) by blast
  qed
  then have ok: "timers_ok l T" using a assms(1,4) by (auto simp: timers_ok_def)
  have "u \<in> set (timer_list s) \<Longrightarrow> u \<noteq> t" for u using assms(2) by auto
  then have "set (timer_list (del_timer t ?s)) = set (timer_list s)"
    "\<forall>u \<in> set (timer_list s). due (timers (del_timer t ?s)) (timer_list (del_timer t ?s)) u = due (timers s) (timer_list s) u"
    using del_timer_due[of ?s t] a assms(2) by auto
  then show ?thesis using run ok a by (intro exI[of _ ?s]) simp
qed

text \<open>C24: one timer tick. If the timer list is well formed and the processes whose timers are due may be
  woken, \<^verbatim>\<open>run_timer_list\<close> returns; it removes exactly the timers with one tick left, wakes exactly their
  processes, counts one tick down for all other timers, and keeps the timer list and the run queue well
  formed.\<close>

theorem run_timer_list_correct:
  assumes "sched_ok s" "timers_ok (timer_list s) (timers s)"
    "\<forall>t \<in> set (timer_list s). due (timers s) (timer_list s) t = 1 \<longrightarrow> wakeable (procs s (the (timer_proc (timers s t))))"
  shows "\<exists>s'. run_timer_list s = Some s' \<and> sched_ok s' \<and> timers_ok (timer_list s') (timers s') \<and>
    set (timer_list s') = {t \<in> set (timer_list s). 1 < due (timers s) (timer_list s) t} \<and>
    (\<forall>t \<in> set (timer_list s'). due (timers s') (timer_list s') t = due (timers s) (timer_list s) t - 1) \<and>
    (\<forall>q. core (procs s' q) = core (if \<exists>t \<in> set (timer_list s). due (timers s) (timer_list s) t = 1 \<and> timer_proc (timers s t) = Some q
       then woken (procs s q) else procs s q))"
proof (cases "timer_list s")
  case Nil
  have "timer_list (sched_class_proc_tick (current s) s) = []"
    using timer_more(1)[of "sched_class_proc_tick (current s) s" s] proc_tick_ok(3)[OF assms(1)] Nil by (simp add: sched_frame_def)
  then show ?thesis using proc_tick_ok[OF assms(1)] Nil by (simp add: run_timer_list_def timers_ok_def)
next
  case (Cons t ts)
  let ?l = "timer_list s" and ?T = "timers s"
  define T1 where "T1 = set_expires t (expires (?T t) - 1) ?T"
  let ?s1 = "s\<lparr>timers := T1\<rparr>"
  let ?z = "\<lambda>v. expires (T1 v) = 0"
  have d: "distinct ?l" "0 < expires (?T t)" using assms(2) Cons by (auto simp: timers_ok_def)
  have tick: "due T1 ?l u = due ?T ?l u - 1 \<and> 0 < due ?T ?l u" if "u \<in> set ?l" for u
    using due_tick[of u t ts ?T] that d Cons unfolding T1_def by auto
  have z: "u \<in> set (takeWhile ?z ?l) \<longleftrightarrow> due ?T ?l u = 1" if "u \<in> set ?l" for u
    using due_zero[OF d(1) that, of T1] tick[OF that] by auto
  have tp: "timer_proc (T1 u) = timer_proc (?T u)" for u by (simp add: T1_def)
  have ok1: "sched_ok ?s1" using assms(1) by (simp add: sched_ok_def sched_at_def rq_ok_def runnable_def)
  have pre: "\<exists>p. timer_proc (?T u) = Some p \<and> wakeable (procs s p)" if u: "u \<in> set (takeWhile ?z ?l)" for u
  proof -
    have ul: "u \<in> set ?l" using u by (rule set_takeWhileD[THEN conjunct1])
    then obtain p where p: "timer_proc (?T u) = Some p" using assms(2) by (auto simp: timers_ok_def)
    then show ?thesis using z[OF ul] u ul assms(3) by fastforce
  qed
  have "\<exists>s'. run_expired ?l ?s1 = Some s' \<and> sched_ok s' \<and> timer_list s' = dropWhile ?z ?l \<and>
    timers s' = T1 \<and> current s' = current s \<and> idleproc s' = idleproc s \<and>
    (\<forall>q. core (procs s' q) = core (if \<exists>t \<in> set (takeWhile ?z ?l). timer_proc (?T t) = Some q then woken (procs s q) else procs s q))"
    using run_expired_ok[OF ok1 _ d(1)] pre by (simp add: tp cong: if_cong)
  then obtain s2 where s2: "run_expired ?l ?s1 = Some s2" "sched_ok s2" "timer_list s2 = dropWhile ?z ?l" "timers s2 = T1"
    "current s2 = current s" "\<forall>q. core (procs s2 q) = core (if \<exists>t \<in> set (takeWhile ?z ?l). timer_proc (?T t) = Some q
       then woken (procs s q) else procs s q)"
    by blast
  let ?s3 = "sched_class_proc_tick (current s2) s2"
  have s3: "sched_ok ?s3" "timer_list ?s3 = dropWhile ?z ?l" "timers ?s3 = T1" "\<And>q. core (procs ?s3 q) = core (procs s2 q)"
    using proc_tick_ok[OF s2(2)] timer_more[of ?s3 s2] s2(3,4) by (auto simp: sched_frame_def)
  have run: "run_timer_list s = Some ?s3" using Cons d(2) s2(1) by (simp add: run_timer_list_def T1_def)
  have st: "set (dropWhile ?z ?l) = {u \<in> set ?l. 1 < due ?T ?l u}"
  proof -
    have "distinct (takeWhile ?z ?l @ dropWhile ?z ?l)" "set ?l = set (takeWhile ?z ?l @ dropWhile ?z ?l)" using d(1) by simp_all
    then have "set (dropWhile ?z ?l) = set ?l - set (takeWhile ?z ?l)" unfolding distinct_append set_append by blast
    then show ?thesis using z tick by force
  qed
  have "timers_ok (dropWhile ?z ?l) T1"
    using assms(2) d(1) hd_dropWhile[of ?z ?l] by (auto simp: timers_ok_def tp dest: set_dropWhileD)
  moreover have "due T1 (dropWhile ?z ?l) u = due ?T ?l u - 1" if "u \<in> set (dropWhile ?z ?l)" for u
    using due_dropWhile[OF d(1) that] tick set_dropWhileD[OF that] by simp
  moreover have "(\<exists>t \<in> set (takeWhile ?z ?l). timer_proc (?T t) = Some q) \<longleftrightarrow>
      (\<exists>t \<in> set ?l. due ?T ?l t = 1 \<and> timer_proc (?T t) = Some q)" for q
    using z by (meson set_takeWhileD)
  ultimately show ?thesis using run s3 s2(6) st by (intro exI[of _ ?s3]) simp
qed

subsection \<open>A sample state\<close>

text \<open>Process 3 of the sample run queue sleeps on three timers: two of them are due at the next tick.\<close>

definition sample_timers :: "nat \<Rightarrow> timer" where
  "sample_timers t = \<lparr>expires = (if t = 10 then 1 else if t = 12 then 4 else if t = 13 then 2 else 0), timer_proc = Some 3\<rparr>"

definition sample_t :: tstate where
  "sample_t = kstate.extend sample_k (tstate.fields [10, 11, 12] sample_timers)"

lemma sample_t_simps [simp]:
  "procs sample_t = procs sample_k" "nodes sample_t = nodes sample_k" "rq sample_t = rq sample_k"
  "current sample_t = current sample_k" "idleproc sample_t = idleproc sample_k"
  "timer_list sample_t = [10, 11, 12]" "timers sample_t = sample_timers"
  by (simp_all add: sample_t_def kstate.defs tstate.defs)

lemma sample_t_ok: "sched_ok sample_t" "timers_ok [10, 11, 12] sample_timers"
proof -
  have "sched_at (Node Leaf 2 Leaf) sample_t" using sample_k_at unfolding sched_at_def rq_ok_def runnable_def sample_t_simps .
  then show "sched_ok sample_t" by (auto simp: sched_ok_def)
  show "timers_ok [10, 11, 12] sample_timers" by (simp add: timers_ok_def sample_timers_def)
qed

theorem add_del_timer_deadlines_witness:
  "timers_ok (timer_list sample_t) (timers sample_t) \<and> 13 \<notin> set (timer_list sample_t) \<and>
   (\<exists>s'. add_timer 13 sample_t = Some s' \<and> due (timers s') (timer_list s') 13 = 2 \<and> due (timers s') (timer_list s') 12 = 5)"
proof -
  have e: "timer_proc (timers sample_t 13) \<noteq> None" "0 < expires (timers sample_t 13)" "13 \<notin> set (timer_list sample_t)"
    "expires (timers sample_t 13) = 2" "due (timers sample_t) (timer_list sample_t) 12 = 5"
    by (simp_all add: sample_timers_def)
  have ok: "timers_ok (timer_list sample_t) (timers sample_t)" using sample_t_ok by simp
  show ?thesis using add_del_timer_deadlines[OF ok e(3,2,1)] ok e(3-5) by auto
qed

theorem run_timer_list_correct_witness:
  "sched_ok sample_t \<and> wakeable (procs sample_t 3) \<and>
   (\<exists>s'. run_timer_list sample_t = Some s' \<and> set (timer_list s') = {12} \<and> due (timers s') (timer_list s') 12 = 4 \<and>
      pstate (procs s' 3) = PROC_RUNNABLE)"
proof -
  have w: "wakeable (procs sample_t 3)"
    by (simp add: wakeable_def sample_k_def sample_procs_def WT_TIMER_def WT_INTERRUPTED_def)
  have d: "due sample_timers [10, 11, 12] 10 = 1" "due sample_timers [10, 11, 12] 11 = 1" "due sample_timers [10, 11, 12] 12 = 5"
    "timer_proc (sample_timers t) = Some 3" for t
    by (simp_all add: sample_timers_def)
  have ok: "timers_ok (timer_list sample_t) (timers sample_t)" using sample_t_ok by simp
  have "\<forall>t \<in> set (timer_list sample_t). due (timers sample_t) (timer_list sample_t) t = 1 \<longrightarrow>
      wakeable (procs sample_t (the (timer_proc (timers sample_t t))))" using w d(4) by simp
  then obtain s' where s': "run_timer_list sample_t = Some s'"
    "set (timer_list s') = {t \<in> set (timer_list sample_t). 1 < due (timers sample_t) (timer_list sample_t) t}"
    "\<forall>t \<in> set (timer_list s'). due (timers s') (timer_list s') t = due (timers sample_t) (timer_list sample_t) t - 1"
    "\<forall>q. core (procs s' q) = core (if \<exists>t \<in> set (timer_list sample_t). due (timers sample_t) (timer_list sample_t) t = 1 \<and>
       timer_proc (timers sample_t t) = Some q then woken (procs sample_t q) else procs sample_t q)"
    using run_timer_list_correct[OF sample_t_ok(1) ok] by blast
  have s: "set (timer_list s') = {12}" using s'(2) d by auto
  have ex: "\<exists>t \<in> set (timer_list sample_t). due (timers sample_t) (timer_list sample_t) t = 1 \<and> timer_proc (timers sample_t t) = Some 3"
    using d by simp
  have "core (procs s' 3) = core (woken (procs sample_t 3))" using s'(4)[rule_format, of 3] unfolding if_P[OF ex] .
  then have "pstate (procs s' 3) = pstate (woken (procs sample_t 3))" by (rule core_eqD(1))
  then have "pstate (procs s' 3) = PROC_RUNNABLE" by (simp add: woken_def)
  moreover have "due (timers s') (timer_list s') 12 = 4" using s'(3) s d(3) by simp
  ultimately show ?thesis using s'(1) s w sample_t_ok(1) by blast
qed

end
