(* ===== verification/Libc_String.thy ===== *)
theory Libc_String
  imports Kern_Prelude
begin

text \<open>
  The C string library \<^verbatim>\<open>src/libs/string.c\<close> with \<^verbatim>\<open>atoi\<close>, \<^verbatim>\<open>hash32\<close> and \<^verbatim>\<open>rand\<close>, and the kernel's
  \<^verbatim>\<open>strdup\<close> and \<^verbatim>\<open>stradd\<close> (\<^verbatim>\<open>src/kern/libs/string.c\<close>). Memory is a map from addresses to bytes
  (\<^verbatim>\<open>char\<close> is unsigned on RISC-V); a loop that stops at a NUL byte is a partial function, one that counts
  down is primitive recursive. A pointer result is an address, NULL is \<open>None\<close>. The generic variants of
  the functions are modelled: no \<^verbatim>\<open>__HAVE_ARCH\<close> macro is defined for this machine.
\<close>

type_synonym byte = "8 word"
type_synonym bmem = "nat \<Rightarrow> byte"

definition cchar :: "char \<Rightarrow> byte" where "cchar c = of_nat (of_char c)"

subsection \<open>Strings\<close>

partial_function (option) strlen_loop :: "bmem \<Rightarrow> nat \<Rightarrow> nat \<Rightarrow> nat option" where
  "strlen_loop m s cnt = (if m s \<noteq> 0 then strlen_loop m (s + 1) (cnt + 1) else Some cnt)"

definition strlen :: "bmem \<Rightarrow> nat \<Rightarrow> nat option" where
  "strlen m s = strlen_loop m s 0"

function strnlen_loop :: "bmem \<Rightarrow> nat \<Rightarrow> nat \<Rightarrow> nat \<Rightarrow> nat" where
  "strnlen_loop m s len cnt = (if cnt < len \<and> m s \<noteq> 0 then strnlen_loop m (s + 1) len (cnt + 1) else cnt)"
  by pat_completeness auto
termination by (relation "measure (\<lambda>(_, _, len, cnt). len - cnt)") auto

declare strnlen_loop.simps [simp del]

definition strnlen :: "bmem \<Rightarrow> nat \<Rightarrow> nat \<Rightarrow> nat" where
  "strnlen m s len = strnlen_loop m s len 0"

partial_function (option) strcpy :: "nat \<Rightarrow> nat \<Rightarrow> bmem \<Rightarrow> bmem option" where
  "strcpy p src m = (let c = m src; m = m(p := c) in
     if c \<noteq> 0 then strcpy (p + 1) (src + 1) m else Some m)"

primrec strncpy :: "nat \<Rightarrow> nat \<Rightarrow> nat \<Rightarrow> bmem \<Rightarrow> bmem" where
  "strncpy 0 p src m = m"
| "strncpy (Suc len) p src m = (let c = m src in
     strncpy len (p + 1) (if c \<noteq> 0 then src + 1 else src) (m(p := c)))"

definition strcat :: "nat \<Rightarrow> nat \<Rightarrow> bmem \<Rightarrow> bmem option" where
  "strcat dst src m = do { n \<leftarrow> strlen m dst; strcpy (dst + n) src m }"

partial_function (option) strcmp :: "bmem \<Rightarrow> nat \<Rightarrow> nat \<Rightarrow> int option" where
  "strcmp m s1 s2 = (if m s1 \<noteq> 0 \<and> m s1 = m s2 then strcmp m (s1 + 1) (s2 + 1)
     else Some (uint (m s1) - uint (m s2)))"

primrec strncmp :: "bmem \<Rightarrow> nat \<Rightarrow> nat \<Rightarrow> nat \<Rightarrow> int" where
  "strncmp m 0 s1 s2 = 0"
| "strncmp m (Suc n) s1 s2 = (if m s1 \<noteq> 0 \<and> m s1 = m s2 then strncmp m n (s1 + 1) (s2 + 1)
     else uint (m s1) - uint (m s2))"

partial_function (option) strchr :: "bmem \<Rightarrow> nat \<Rightarrow> byte \<Rightarrow> nat option option" where
  "strchr m s c = (if m s \<noteq> 0 then (if m s = c then Some (Some s) else strchr m (s + 1) c) else Some None)"

partial_function (option) strfind :: "bmem \<Rightarrow> nat \<Rightarrow> byte \<Rightarrow> nat option" where
  "strfind m s c = (if m s \<noteq> 0 then (if m s = c then Some s else strfind m (s + 1) c) else Some s)"

subsection \<open>Numbers\<close>

partial_function (option) skip_blank :: "bmem \<Rightarrow> nat \<Rightarrow> nat option" where
  "skip_blank m s = (if m s = cchar CHR '' '' \<or> m s = 9 then skip_blank m (s + 1) else Some s)"

definition digit_of :: "byte \<Rightarrow> int option" where
  "digit_of c =
     (if cchar CHR ''0'' \<le> c \<and> c \<le> cchar CHR ''9'' then Some (uint c - 48)
      else if cchar CHR ''a'' \<le> c \<and> c \<le> cchar CHR ''z'' then Some (uint c - 97 + 10)
      else if cchar CHR ''A'' \<le> c \<and> c \<le> cchar CHR ''Z'' then Some (uint c - 65 + 10)
      else None)"

partial_function (option) strtol_digits :: "bmem \<Rightarrow> nat \<Rightarrow> int \<Rightarrow> 64 word \<Rightarrow> (64 word \<times> nat) option" where
  "strtol_digits m s base val =
     (case digit_of (m s) of
        None \<Rightarrow> Some (val, s)
      | Some dig \<Rightarrow> if dig \<ge> base then Some (val, s)
          else strtol_digits m (s + 1) base (val * of_int base + of_int dig))"

text \<open>The value and the final position, which the source stores through \<^verbatim>\<open>endptr\<close>.\<close>

definition strtol :: "bmem \<Rightarrow> nat \<Rightarrow> int \<Rightarrow> (64 word \<times> nat) option" where
  "strtol m s base = do {
     s \<leftarrow> skip_blank m s;
     let (s, neg) = (if m s = cchar CHR ''+'' then (s + 1, False)
       else if m s = cchar CHR ''-'' then (s + 1, True) else (s, False));
     let (s, base) =
       (if (base = 0 \<or> base = 16) \<and> m s = cchar CHR ''0'' \<and> m (s + 1) = cchar CHR ''x'' then (s + 2, 16)
        else if base = 0 \<and> m s = cchar CHR ''0'' then (s + 1, 8)
        else if base = 0 then (s, 10) else (s, base));
     (val, s) \<leftarrow> strtol_digits m s base 0;
     Some (if neg then - val else val, s)
   }"

definition atoi :: "bmem \<Rightarrow> nat \<Rightarrow> int option" where
  "atoi m nptr = map_option (\<lambda>(v, _). sint (ucast v :: 32 word)) (strtol m nptr 10)"

subsection \<open>Memory blocks\<close>

primrec memset :: "nat \<Rightarrow> nat \<Rightarrow> byte \<Rightarrow> bmem \<Rightarrow> bmem" where
  "memset 0 p c m = m"
| "memset (Suc n) p c m = memset n (p + 1) c (m(p := c))"

primrec copy_up :: "nat \<Rightarrow> nat \<Rightarrow> nat \<Rightarrow> bmem \<Rightarrow> bmem" where
  "copy_up 0 d s m = m"
| "copy_up (Suc n) d s m = copy_up n (d + 1) (s + 1) (m(d := m s))"

primrec copy_down :: "nat \<Rightarrow> nat \<Rightarrow> nat \<Rightarrow> bmem \<Rightarrow> bmem" where
  "copy_down 0 d s m = m"
| "copy_down (Suc n) d s m = copy_down n (d - 1) (s - 1) (m(d - 1 := m (s - 1)))"

definition memmove :: "nat \<Rightarrow> nat \<Rightarrow> nat \<Rightarrow> bmem \<Rightarrow> bmem" where
  "memmove dst src n m =
     (if src < dst \<and> src + n > dst then copy_down n (dst + n) (src + n) m else copy_up n dst src m)"

definition memcpy :: "nat \<Rightarrow> nat \<Rightarrow> nat \<Rightarrow> bmem \<Rightarrow> bmem" where
  "memcpy dst src n m = copy_up n dst src m"

primrec memcmp :: "bmem \<Rightarrow> nat \<Rightarrow> nat \<Rightarrow> nat \<Rightarrow> int" where
  "memcmp m 0 s1 s2 = 0"
| "memcmp m (Suc n) s1 s2 = (if m s1 \<noteq> m s2 then uint (m s1) - uint (m s2) else memcmp m n (s1 + 1) (s2 + 1))"

text \<open>\<^verbatim>\<open>strdup\<close> and \<^verbatim>\<open>stradd\<close>: the block \<^verbatim>\<open>kmalloc\<close> returned is an argument.\<close>

definition strdup :: "nat option \<Rightarrow> nat \<Rightarrow> bmem \<Rightarrow> (nat option \<times> bmem) option" where
  "strdup blk src m = do {
     len \<leftarrow> strlen m src;
     Some (case blk of None \<Rightarrow> (None, m)
       | Some dst \<Rightarrow> (Some dst, (memcpy dst src len m)(dst + len := 0)))
   }"

definition stradd :: "nat option \<Rightarrow> nat \<Rightarrow> nat \<Rightarrow> bmem \<Rightarrow> (nat option \<times> bmem) option" where
  "stradd blk src1 src2 m = do {
     len1 \<leftarrow> strlen m src1;
     len2 \<leftarrow> strlen m src2;
     Some (case blk of None \<Rightarrow> (None, m)
       | Some dst \<Rightarrow>
           let m = memcpy dst src1 len1 m; d = dst + len1;
               m = memcpy d src2 len2 m; d = d + len2 in
           (Some dst, m(d := 0)))
   }"

subsection \<open>Hashing and random numbers\<close>

definition hash32 :: "32 word \<Rightarrow> nat \<Rightarrow> 32 word" where
  "hash32 val bits = drop_bit (32 - bits) (val * 0x9e370001)"

definition rand :: "64 word \<Rightarrow> int \<times> 64 word" where
  "rand nxt = (let nxt = take_bit 48 (nxt * 0x5DEECE66D + 0xB);
                   result = drop_bit 12 nxt in
     (uint result mod 2147483648, nxt))"

definition srand :: "32 word \<Rightarrow> 64 word" where "srand seed = ucast seed"

lemmas [code] = strlen_loop.simps strcpy.simps strcmp.simps strchr.simps strfind.simps skip_blank.simps strtol_digits.simps

subsection \<open>Copying\<close>

text \<open>A block copied through intermediate memories reads the original source bytes.\<close>

definition blit :: "nat \<Rightarrow> nat \<Rightarrow> nat \<Rightarrow> bmem \<Rightarrow> bmem" where
  "blit d s n m = (\<lambda>a. if d \<le> a \<and> a < d + n then m (s + (a - d)) else m a)"

lemma blit_0 [simp]: "blit d s 0 m = m"
  by (rule ext) (auto simp: blit_def)

lemma blit_step:
  assumes "d < s \<or> s + n < d \<or> d = s"
  shows "blit (d + 1) (s + 1) n (m(d := m s)) = blit d s (Suc n) m"
proof
  fix a
  show "blit (d + 1) (s + 1) n (m(d := m s)) a = blit d s (Suc n) m a"
  proof (cases "d < a")
    case True
    then obtain k where "a = d + Suc k" using less_iff_Suc_add by auto
    then show ?thesis using assms by (auto simp: blit_def)
  qed (auto simp: blit_def)
qed

lemma copy_up_blit: "\<not> (s < d \<and> d < s + n) \<Longrightarrow> copy_up n d s m = blit d s n m"
proof (induction n arbitrary: d s m)
  case (Suc n)
  have "copy_up (Suc n) d s m = blit (d + 1) (s + 1) n (m(d := m s))"
    using Suc.IH[of "s + 1" "d + 1" "m(d := m s)"] Suc.prems by (auto simp del: fun_upd_apply)
  also have "\<dots> = blit d s (Suc n) m" using Suc.prems by (intro blit_step) auto
  finally show ?case .
qed simp

lemma copy_down_blit: "s \<le> d \<Longrightarrow> copy_down n (d + n) (s + n) m = blit d s n m"
proof (induction n arbitrary: m)
  case (Suc n)
  have "copy_down (Suc n) (d + Suc n) (s + Suc n) m = blit d s n (m(d + n := m (s + n)))"
    using Suc.IH[of "m(d + n := m (s + n))"] Suc.prems by (auto simp del: fun_upd_apply)
  also have "\<dots> = blit d s (Suc n) m"
  proof
    fix a
    show "blit d s n (m(d + n := m (s + n))) a = blit d s (Suc n) m a"
      using Suc.prems by (cases "a = d + n") (auto simp: blit_def)
  qed
  finally show ?case .
qed simp

text \<open>C20: \<^verbatim>\<open>memmove\<close> leaves in the destination the bytes the source had before the call, however the two
  blocks overlap, and changes nothing else; \<^verbatim>\<open>memcpy\<close> does the same unless the destination starts
  inside the source block.\<close>

theorem memmove_correct:
  "memmove dst src n m = (\<lambda>a. if dst \<le> a \<and> a < dst + n then m (src + (a - dst)) else m a) \<and>
   (\<not> (src < dst \<and> dst < src + n) \<longrightarrow> memcpy dst src n m = memmove dst src n m)"
  by (auto simp: memmove_def memcpy_def copy_up_blit copy_down_blit blit_def[symmetric])

theorem memmove_correct_witness:
  "\<not> (10 < (4::nat) \<and> 4 < 10 + (8::nat)) \<and> memcpy 4 10 8 (\<lambda>a. of_nat a) = memmove 4 10 8 (\<lambda>a. of_nat a) \<and>
   memmove 4 10 8 (\<lambda>a. of_nat a) 5 = (11 :: byte)"
  using memmove_correct[of 4 10 8 "\<lambda>a. of_nat a"] by simp

subsection \<open>Strings\<close>

text \<open>\<open>cstr m s xs\<close>: the NUL-terminated string at \<open>s\<close> is \<open>xs\<close>.\<close>

primrec cstr :: "bmem \<Rightarrow> nat \<Rightarrow> byte list \<Rightarrow> bool" where
  "cstr m s [] \<longleftrightarrow> m s = 0"
| "cstr m s (x # xs) \<longleftrightarrow> x \<noteq> 0 \<and> m s = x \<and> cstr m (s + 1) xs"

lemma cstr_frame: "(\<And>i. i \<le> length xs \<Longrightarrow> m' (s + i) = m (s + i)) \<Longrightarrow> cstr m' s xs = cstr m s xs"
proof (induction xs arbitrary: s)
  case (Cons x xs)
  have "cstr m' (s + 1) xs = cstr m (s + 1) xs"
    by (rule Cons.IH) (use Cons.prems[of "Suc i" for i] in auto)
  then show ?case using Cons.prems[of 0] by simp
qed auto

lemma strlen_loop_cstr: "cstr m s xs \<Longrightarrow> strlen_loop m s k = Some (k + length xs)"
proof (induction xs arbitrary: s k)
  case (Cons x xs)
  then show ?case by (subst strlen_loop.simps) simp
qed (simp add: strlen_loop.simps)

lemma strlen_cstr: "cstr m s xs \<Longrightarrow> strlen m s = Some (length xs)"
  by (simp add: strlen_def strlen_loop_cstr)

lemma strnlen_loop_cstr: "cstr m s xs \<Longrightarrow> k \<le> len \<Longrightarrow> strnlen_loop m s len k = min len (k + length xs)"
proof (induction xs arbitrary: s k)
  case (Cons x xs)
  then show ?case by (subst strnlen_loop.simps) auto
qed (subst strnlen_loop.simps, simp)

lemma strcpy_cstr:
  "cstr m s xs \<Longrightarrow> d + length xs < s \<or> s + length xs < d \<Longrightarrow> strcpy d s m = Some (blit d s (length xs + 1) m)"
proof (induction xs arbitrary: s d m)
  case Nil
  then show ?case by (subst strcpy.simps) (auto simp: blit_def)
next
  case (Cons x xs)
  let ?m = "m(d := x)"
  have c: "cstr ?m (s + 1) xs"
    using Cons.prems by (subst cstr_frame[of xs _ _ m]) auto
  have "d + 1 + length xs < s + 1 \<or> s + 1 + length xs < d + 1" using Cons.prems(2) by auto
  note IH = Cons.IH[OF c this]
  have "blit (d + 1) (s + 1) (length xs + 1) ?m = blit d s (length (x # xs) + 1) m"
    using blit_step[of d s "length xs + 1" m] Cons.prems by auto
  then show ?case using Cons.prems(1) IH by (subst strcpy.simps) (simp add: Let_def del: fun_upd_apply)
qed

lemma cstr_blit: "cstr m s xs \<Longrightarrow> cstr (blit d s (length xs + 1) m) d xs"
proof -
  have "cstr m' d xs" if "cstr m s xs" "\<And>i. i \<le> length xs \<Longrightarrow> m' (d + i) = m (s + i)" for m' xs s d
    using that
  proof (induction xs arbitrary: s d)
    case (Cons x xs)
    have "cstr m' (d + 1) xs" by (rule Cons.IH[of "s + 1"]) (use Cons.prems(1) Cons.prems(2)[of "Suc i" for i] in auto)
    then show ?case using Cons.prems(1) Cons.prems(2)[of 0] by simp
  qed (use that(2)[of 0] in force)
  then show "cstr m s xs \<Longrightarrow> cstr (blit d s (length xs + 1) m) d xs" by (simp add: blit_def)
qed

lemma uint_pos: "x \<noteq> 0 \<Longrightarrow> 0 < uint (x :: byte)"
  by (metis uint_0_iff uint_ge_0 order_less_le)

lemma strcmp_cstr:
  "cstr m a xs \<Longrightarrow> cstr m b ys \<Longrightarrow> \<exists>r. strcmp m a b = Some r \<and> (r = 0 \<longleftrightarrow> xs = ys) \<and>
     (r < 0 \<longleftrightarrow> (xs, ys) \<in> lexord {(x, y). x < y})"
proof (induction xs arbitrary: ys a b)
  case Nil
  then show ?case by (cases ys) (auto simp: strcmp.simps[of m a b] uint_pos uint_0_iff)
next
  case step: (Cons x xs)
  show ?case
  proof (cases ys)
    case Nil
    then show ?thesis using step.prems by (auto simp: strcmp.simps[of m a b] uint_pos uint_0_iff dest: uint_pos)
  next
    case (Cons y ys')
    then show ?thesis
      using step.prems step.IH[of "a + 1" "b + 1" ys']
      by (cases "x = y") (auto simp: strcmp.simps[of m a b] word_less_def word_uint_eq_iff)
  qed
qed

text \<open>On NUL-terminated strings \<^verbatim>\<open>strcmp\<close> returns; its result is 0 exactly for equal strings and negative
  exactly when the first string is lexicographically smaller.\<close>

lemma strcmp_correct:
  assumes "cstr m a xs" "cstr m b ys"
  shows "\<exists>r. strcmp m a b = Some r \<and> (r = 0 \<longleftrightarrow> xs = ys) \<and> (r < 0 \<longleftrightarrow> (xs, ys) \<in> lexord {(x, y). x < y})"
  using strcmp_cstr[OF assms] .

definition sample_bytes :: bmem where
  "sample_bytes a = (if a = 0 then 97 else if a = 1 then 98 else if a = 3 then 97 else if a = 4 then 99 else 0)"

end
