(* ===== verification/Proc_Table.thy ===== *)
theory Proc_Table
  imports Timers Libc_String
begin

text \<open>
  The process table of \<^verbatim>\<open>src/kern/process/proc.c\<close>: the process list, the pid hash table, the allocation of
  pids and the parent/child/sibling links. The rings \<^verbatim>\<open>proc_list\<close> and \<^verbatim>\<open>hash_list[i]\<close> are lists of
  processes in ring order: \<^verbatim>\<open>list_add\<close> puts a process in front, \<^verbatim>\<open>list_del\<close> removes it. The static
  variables of \<^verbatim>\<open>get_pid\<close> are part of the state.
\<close>

definition MAX_PROCESS :: int where "MAX_PROCESS = 4096"
definition MAX_PID :: int where "MAX_PID = MAX_PROCESS * 2"
definition PROC_NAME_LEN :: nat where "PROC_NAME_LEN = 15"
definition HASH_SHIFT :: nat where "HASH_SHIFT = 10"

record kernel = tstate +
  proc_list :: "pptr list"
  hash_list :: "nat \<Rightarrow> pptr list"
  nr_process :: int
  last_pid :: int
  next_safe :: int

definition pid_hashfn :: "int \<Rightarrow> nat" where
  "pid_hashfn x = unat (hash32 (word_of_int x) HASH_SHIFT)"

subsection \<open>Process identifiers\<close>

text \<open>One pass over the process list; the first component of the result says \<^verbatim>\<open>goto repeat\<close>.\<close>

fun pid_scan :: "int list \<Rightarrow> int \<Rightarrow> int \<Rightarrow> bool \<times> int \<times> int" where
  "pid_scan [] lp safe = (False, lp, safe)"
| "pid_scan (p # ps) lp safe =
     (if p = lp then
        (let lp = lp + 1 in
         if lp \<ge> safe then (True, if lp \<ge> MAX_PID then 1 else lp, MAX_PID)
         else pid_scan ps lp safe)
      else if p > lp \<and> safe > p then pid_scan ps lp p
      else pid_scan ps lp safe)"

partial_function (option) pid_repeat :: "int list \<Rightarrow> int \<Rightarrow> int \<Rightarrow> (int \<times> int) option" where
  "pid_repeat ps lp safe =
     (case pid_scan ps lp safe of (again, lp, safe) \<Rightarrow>
        if again then pid_repeat ps lp safe else Some (lp, safe))"

declare pid_repeat.simps [code]

abbreviation pids :: "'a kernel_scheme \<Rightarrow> int list" where
  "pids s \<equiv> map (\<lambda>p. pid (procs s p)) (proc_list s)"

definition get_pid :: "'a kernel_scheme \<Rightarrow> (int \<times> 'a kernel_scheme) option" where
  "get_pid s = (let lp = last_pid s + 1 in
     do {
       (lp, safe) \<leftarrow>
         (if lp \<ge> MAX_PID then pid_repeat (pids s) 1 MAX_PID
          else if lp \<ge> next_safe s then pid_repeat (pids s) lp MAX_PID
          else Some (lp, next_safe s));
       Some (lp, s\<lparr>last_pid := lp, next_safe := safe\<rparr>) })"

subsection \<open>The hash table\<close>

definition hash_proc :: "pptr \<Rightarrow> 'a kernel_scheme \<Rightarrow> 'a kernel_scheme" where
  "hash_proc p s = (let i = pid_hashfn (pid (procs s p)) in s\<lparr>hash_list := (hash_list s)(i := p # hash_list s i)\<rparr>)"

definition unhash_proc :: "pptr \<Rightarrow> 'a kernel_scheme \<Rightarrow> 'a kernel_scheme" where
  "unhash_proc p s = s\<lparr>hash_list := (\<lambda>i. remove1 p (hash_list s i))\<rparr>"

definition find_proc :: "int \<Rightarrow> 'a kernel_scheme \<Rightarrow> pptr option" where
  "find_proc i s = (if 0 < i \<and> i < MAX_PID
     then List.find (\<lambda>p. pid (procs s p) = i) (hash_list s (pid_hashfn i)) else None)"

subsection \<open>Links between processes\<close>

definition set_links :: "pptr \<Rightarrow> 'a kernel_scheme \<Rightarrow> 'a kernel_scheme option" where
  "set_links p s = do {
     let s = s\<lparr>proc_list := p # proc_list s\<rparr>;
     let s = upd p (\<lambda>x. x\<lparr>yptr := None\<rparr>) s;
     parent \<leftarrow> proc_parent (procs s p);
     let s = upd p (\<lambda>x. x\<lparr>optr := cptr (procs s parent)\<rparr>) s;
     let s = (case optr (procs s p) of None \<Rightarrow> s | Some o' \<Rightarrow> upd o' (\<lambda>x. x\<lparr>yptr := Some p\<rparr>) s);
     let s = upd parent (\<lambda>x. x\<lparr>cptr := Some p\<rparr>) s;
     Some (s\<lparr>nr_process := nr_process s + 1\<rparr>)
   }"

definition remove_links :: "pptr \<Rightarrow> 'a kernel_scheme \<Rightarrow> 'a kernel_scheme option" where
  "remove_links p s = do {
     let s = s\<lparr>proc_list := remove1 p (proc_list s)\<rparr>;
     let s = (case optr (procs s p) of None \<Rightarrow> s
       | Some o' \<Rightarrow> upd o' (\<lambda>x. x\<lparr>yptr := yptr (procs s p)\<rparr>) s);
     s \<leftarrow> (case yptr (procs s p) of
        Some y \<Rightarrow> Some (upd y (\<lambda>x. x\<lparr>optr := optr (procs s p)\<rparr>) s)
      | None \<Rightarrow> do { parent \<leftarrow> proc_parent (procs s p); Some (upd parent (\<lambda>x. x\<lparr>cptr := optr (procs s p)\<rparr>) s) });
     Some (s\<lparr>nr_process := nr_process s - 1\<rparr>)
   }"

subsection \<open>New processes\<close>

text \<open>The members \<^verbatim>\<open>alloc_proc\<close> sets; \<^verbatim>\<open>exit_code\<close> keeps what the block held.\<close>

definition new_proc :: "64 word \<Rightarrow> proc_struct \<Rightarrow> proc_struct" where
  "new_proc boot_cr3 x = \<lparr>pstate = PROC_UNINIT, pid = -1, runs = 0, kstack = 0, need_resched = False, proc_parent = None,
     proc_mm = None, pcontext = \<lparr>ctx_ra = 0, ctx_sp = 0, ctx_s = \<lambda>_. 0\<rparr>, proc_tf = None, cr3 = boot_cr3, flags = 0,
     pname = [], exit_code = exit_code x, wait_state = 0, cptr = None, yptr = None, optr = None, on_rq = False, time_slice = 0,
     lab6_stride = 0, lab6_priority = 0, filesp = None\<rparr>"

text \<open>\<open>blk\<close> is the block \<^verbatim>\<open>kmalloc\<close> returned.\<close>

definition alloc_proc :: "pptr option \<Rightarrow> 64 word \<Rightarrow> 'a kernel_scheme \<Rightarrow> pptr option \<times> 'a kernel_scheme" where
  "alloc_proc blk boot_cr3 s = (case blk of None \<Rightarrow> (None, s)
     | Some p \<Rightarrow> (Some p, (upd p (new_proc boot_cr3) s)
         \<lparr>nodes := (nodes s)(p := \<lparr>sh_parent = None, sh_left = None, sh_right = None\<rparr>)\<rparr>))"

definition set_proc_name :: "pptr \<Rightarrow> string \<Rightarrow> 'a kernel_scheme \<Rightarrow> 'a kernel_scheme" where
  "set_proc_name p nm s = upd p (\<lambda>x. x\<lparr>pname := take PROC_NAME_LEN nm\<rparr>) s"

definition get_proc_name :: "pptr \<Rightarrow> 'a kernel_scheme \<Rightarrow> string" where
  "get_proc_name p s = take PROC_NAME_LEN (pname (procs s p))"

subsection \<open>Pids are unique\<close>

lemma pid_scan_done:
  assumes "pid_scan ps lp safe = (False, lp', safe')" "lp < safe" "safe \<le> MAX_PID" "1 \<le> lp"
  shows "1 \<le> lp' \<and> lp' < safe' \<and> safe' \<le> MAX_PID \<and> safe' \<le> safe \<and> lp \<le> lp' \<and> (\<forall>p \<in> set ps. p < lp' \<or> safe' \<le> p)"
  using assms
proof (induction ps lp safe rule: pid_scan.induct)
  case (2 p ps lp safe)
  consider "p = lp" "lp + 1 < safe" | "p > lp" "safe > p" | "p \<noteq> lp" "\<not> (p > lp \<and> safe > p)"
    using 2(4) by (force split: if_splits simp: Let_def)
  then show ?case
  proof cases
    case 1
    then show ?thesis using 2(1)[OF 1(1) refl] 2(4-) by (auto simp: Let_def)
  next
    case 2
    then show ?thesis using "2.IH"(2) "2.prems" by force
  next
    case 3
    then show ?thesis using "2.IH"(3) "2.prems" by force
  qed
qed auto

text \<open>The cyclic distance to a free pid decreases with every restart.\<close>

definition pid_dist :: "int \<Rightarrow> int \<Rightarrow> nat" where
  "pid_dist f lp = nat (if lp \<le> f then f - lp else f - lp + (MAX_PID - 1))"

lemma pid_scan_restart:
  assumes "pid_scan ps lp safe = (True, lp', safe')" "f \<notin> set ps" "1 \<le> f" "f < MAX_PID" "1 \<le> lp" "lp < safe" "safe \<le> MAX_PID"
  shows "1 \<le> lp' \<and> lp' < MAX_PID \<and> safe' = MAX_PID \<and> pid_dist f lp' < pid_dist f lp"
  using assms
proof (induction ps lp safe rule: pid_scan.induct)
  case (2 p ps lp safe)
  consider "p = lp" "lp + 1 \<ge> safe" | "p = lp" "lp + 1 < safe" | "p \<noteq> lp" "p > lp" "safe > p" | "p \<noteq> lp" "\<not> (p > lp \<and> safe > p)"
    by linarith
  then show ?case
  proof cases
    case 1
    then have e: "lp' = (if lp + 1 \<ge> MAX_PID then 1 else lp + 1)" "safe' = MAX_PID" using "2.prems"(1) by (simp_all add: Let_def)
    have "lp \<noteq> f" "MAX_PID = 8192" using 1 "2.prems"(2) by (auto simp: MAX_PID_def MAX_PROCESS_def)
    then show ?thesis using e "2.prems" by (auto simp: pid_dist_def)
  next
    case 2
    then have "pid_scan ps (lp + 1) safe = (True, lp', safe')" using "2.prems"(1) by (simp add: Let_def)
    then have "1 \<le> lp' \<and> lp' < MAX_PID \<and> safe' = MAX_PID \<and> pid_dist f lp' < pid_dist f (lp + 1)"
      using "2.IH"(1)[OF 2(1) refl] "2.prems" 2 by auto
    moreover have "pid_dist f (lp + 1) < pid_dist f lp"
      using 2 "2.prems" by (auto simp: pid_dist_def)
    ultimately show ?thesis by auto
  next
    case 3
    then show ?thesis using "2.IH"(2) "2.prems" by auto
  next
    case 4
    then show ?thesis using "2.IH"(3) "2.prems" by auto
  qed
qed auto

lemma pid_repeat_ok:
  assumes "f \<notin> set ps" "1 \<le> f" "f < MAX_PID" "1 \<le> lp" "lp < MAX_PID"
  shows "\<exists>lp' safe'. pid_repeat ps lp MAX_PID = Some (lp', safe') \<and> 1 \<le> lp' \<and> lp' < safe' \<and> safe' \<le> MAX_PID \<and>
    (\<forall>p \<in> set ps. p < lp' \<or> safe' \<le> p)"
  using assms(4,5)
proof (induction "pid_dist f lp" arbitrary: lp rule: less_induct)
  case less
  obtain again lp1 safe1 where sc: "pid_scan ps lp MAX_PID = (again, lp1, safe1)" by (metis prod.exhaust)
  show ?case
  proof (cases again)
    case True
    then have r: "1 \<le> lp1 \<and> lp1 < MAX_PID \<and> safe1 = MAX_PID \<and> pid_dist f lp1 < pid_dist f lp"
      using pid_scan_restart[of ps lp MAX_PID lp1 safe1 f] sc assms less.prems by simp
    then show ?thesis using less.hyps[of lp1] sc True by (subst pid_repeat.simps) auto
  next
    case False
    then show ?thesis using pid_scan_done[of ps lp MAX_PID lp1 safe1] sc less.prems by (subst pid_repeat.simps) auto
  qed
qed

definition pid_window :: "'a kernel_scheme \<Rightarrow> bool" where
  "pid_window s \<longleftrightarrow> 1 \<le> last_pid s \<and> next_safe s \<le> MAX_PID \<and> (\<forall>p \<in> set (pids s). \<not> (last_pid s < p \<and> p < next_safe s))"

lemma free_pid_exists:
  assumes "int (length ps) \<le> MAX_PROCESS" shows "\<exists>f. f \<notin> set ps \<and> 1 \<le> f \<and> f < MAX_PID"
proof (rule ccontr)
  assume "\<not> ?thesis"
  then have "{1 ..< MAX_PID} \<subseteq> set ps" by auto
  then have "card {1 ..< MAX_PID} \<le> length ps" by (meson card_length card_mono finite_set order_trans)
  then show False using assms by (simp add: MAX_PID_def MAX_PROCESS_def)
qed

lemma get_pid_ok:
  assumes "pid_window s" "int (length (proc_list s)) \<le> MAX_PROCESS"
  shows "\<exists>i safe. get_pid s = Some (i, s\<lparr>last_pid := i, next_safe := safe\<rparr>) \<and> 1 \<le> i \<and> i < MAX_PID \<and> i \<notin> set (pids s) \<and>
    safe \<le> MAX_PID \<and> (\<forall>p \<in> set (pids s). \<not> (i < p \<and> p < safe))"
proof -
  obtain f where f: "f \<notin> set (pids s)" "1 \<le> f" "f < MAX_PID"
    using free_pid_exists[of "pids s"] assms(2) by auto
  have rep: "\<exists>i safe. pid_repeat (pids s) lp MAX_PID = Some (i, safe) \<and> 1 \<le> i \<and> i < safe \<and> safe \<le> MAX_PID \<and> (\<forall>p \<in> set (pids s). p < i \<or> safe \<le> p)"
    if "1 \<le> lp" "lp < MAX_PID" for lp using pid_repeat_ok[OF f that] .
  consider "last_pid s + 1 \<ge> MAX_PID" | "last_pid s + 1 < MAX_PID" "last_pid s + 1 \<ge> next_safe s"
    | "last_pid s + 1 < MAX_PID" "last_pid s + 1 < next_safe s" by linarith
  then show ?thesis
  proof cases
    case 1
    then show ?thesis using rep[of 1] by (auto simp: get_pid_def MAX_PID_def MAX_PROCESS_def) force
  next
    case 2
    then show ?thesis using rep[of "last_pid s + 1"] assms(1) by (auto simp: get_pid_def pid_window_def) force
  next
    case 3
    then have "get_pid s = Some (last_pid s + 1, s\<lparr>last_pid := last_pid s + 1, next_safe := next_safe s\<rparr>)"
      by (simp add: get_pid_def Let_def)
    moreover have w: "\<forall>p \<in> set (pids s). \<not> (last_pid s < p \<and> p < next_safe s)" using assms(1) unfolding pid_window_def by blast
    have "last_pid s + 1 \<notin> set (pids s)"
    proof
      assume "last_pid s + 1 \<in> set (pids s)"
      from bspec[OF w this] 3 show False by simp
    qed
    moreover have "\<forall>p \<in> set (pids s). \<not> (last_pid s + 1 < p \<and> p < next_safe s)"
    proof
      fix p assume "p \<in> set (pids s)"
      from bspec[OF w this] show "\<not> (last_pid s + 1 < p \<and> p < next_safe s)" by linarith
    qed
    moreover have "1 \<le> last_pid s + 1" "last_pid s + 1 < MAX_PID" "next_safe s \<le> MAX_PID"
      using assms(1) 3 unfolding pid_window_def by linarith+
    ultimately show ?thesis by blast
  qed
qed

subsection \<open>The process tree\<close>

text \<open>\<open>kseg P a y xs b z\<close>: following \<^verbatim>\<open>optr\<close> from \<open>a\<close> gives the processes \<open>xs\<close> and then \<open>b\<close>, and their \<^verbatim>\<open>yptr\<close>
  members point back, starting with \<open>y\<close>; the last one is \<open>z\<close>.\<close>

fun kseg :: "(pptr \<Rightarrow> proc_struct) \<Rightarrow> pptr option \<Rightarrow> pptr option \<Rightarrow> pptr list \<Rightarrow> pptr option \<Rightarrow> pptr option \<Rightarrow> bool" where
  "kseg P a y [] b z \<longleftrightarrow> a = b \<and> y = z"
| "kseg P a y (x # xs) b z \<longleftrightarrow> a = Some x \<and> yptr (P x) = y \<and> kseg P (optr (P x)) (Some x) xs b z"

definition kids :: "(pptr \<Rightarrow> proc_struct) \<Rightarrow> pptr \<Rightarrow> pptr list \<Rightarrow> bool" where
  "kids P r xs \<longleftrightarrow> (\<exists>z. kseg P (cptr (P r)) None xs None z)"

lemma kseg_append: "kseg P a y (xs @ ys) b z \<longleftrightarrow> (\<exists>c w. kseg P a y xs c w \<and> kseg P c w ys b z)"
  by (induction xs arbitrary: a y) auto

lemma kseg_last: "kseg P a y xs b z \<Longrightarrow> xs \<noteq> [] \<Longrightarrow> z = Some (last xs)"
proof (induction xs arbitrary: a y)
  case (Cons x xs)
  then show ?case by (cases xs) auto
qed simp

lemma kseg_cong:
  "(\<And>x. x \<in> set xs \<Longrightarrow> yptr (P' x) = yptr (P x) \<and> optr (P' x) = optr (P x)) \<Longrightarrow> kseg P' a y xs b z = kseg P a y xs b z"
  by (induction xs arbitrary: a y) auto

lemma kids_cong:
  assumes "\<And>x. x \<in> set xs \<Longrightarrow> yptr (P' x) = yptr (P x) \<and> optr (P' x) = optr (P x)" "cptr (P' r) = cptr (P r)"
  shows "kids P' r xs = kids P r xs"
  unfolding kids_def assms(2) using kseg_cong[of xs P' P, OF assms(1)] by blast

definition children :: "(pptr \<Rightarrow> proc_struct) \<Rightarrow> pptr list \<Rightarrow> pptr \<Rightarrow> pptr set" where
  "children P l r = {x \<in> set l. proc_parent (P x) = Some r}"

definition ptree :: "(pptr \<Rightarrow> proc_struct) \<Rightarrow> pptr \<Rightarrow> pptr list \<Rightarrow> bool" where
  "ptree P root l \<longleftrightarrow> distinct l \<and> root \<notin> set l \<and>
     (\<forall>x \<in> set l. \<exists>r \<in> insert root (set l). proc_parent (P x) = Some r) \<and>
     (\<forall>r \<in> insert root (set l). \<exists>xs. kids P r xs \<and> distinct xs \<and> set xs = children P l r)"

lemma ptreeD:
  assumes "ptree P root l" "r \<in> insert root (set l)"
  obtains xs where "kids P r xs" "distinct xs" "set xs = children P l r"
  using assms unfolding ptree_def by blast

lemma ptree_parent:
  assumes "ptree P root l" "x \<in> set l" obtains r where "r \<in> insert root (set l)" "proc_parent (P x) = Some r"
  using assms unfolding ptree_def by blast

text \<open>Putting \<open>p\<close> in front of the children of \<open>q\<close>.\<close>

definition link_in :: "pptr \<Rightarrow> pptr \<Rightarrow> (pptr \<Rightarrow> proc_struct) \<Rightarrow> (pptr \<Rightarrow> proc_struct) \<Rightarrow> bool" where
  "link_in p q P P' \<longleftrightarrow>
     (\<forall>x. proc_parent (P' x) = (if x = p then Some q else proc_parent (P x))) \<and>
     (\<forall>x. cptr (P' x) = (if x = q then Some p else cptr (P x))) \<and>
     (\<forall>x. optr (P' x) = (if x = p then cptr (P q) else optr (P x))) \<and>
     (\<forall>x. yptr (P' x) = (if cptr (P q) = Some x then Some p else if x = p then None else yptr (P x)))"

lemma link_in_kids:
  assumes l: "link_in p q P P'" and k: "kids P q xs" "distinct xs" "p \<notin> set xs" and pq: "p \<noteq> q"
  shows "kids P' q (p # xs)"
proof -
  obtain z where z: "kseg P (cptr (P q)) None xs None z" using k(1) by (auto simp: kids_def)
  have cp: "cptr (P q) \<noteq> Some p" using z k(3) by (cases xs) auto
  have "kseg P' (cptr (P q)) (Some p) xs None (if xs = [] then Some p else z)"
  proof (cases xs)
    case (Cons x ys)
    have c: "cptr (P q) = Some x" using z Cons by simp
    have "kseg P' (optr (P x)) (Some x) ys None z = kseg P (optr (P x)) (Some x) ys None z"
      using Cons k(2,3) l by (intro kseg_cong) (auto simp: link_in_def c)
    then have "kseg P' (optr (P x)) (Some x) ys None z" using z Cons by simp
    then show ?thesis using Cons c l k(3) by (auto simp: link_in_def)
  qed (use z in auto)
  then show ?thesis using l cp unfolding kids_def by (auto simp: link_in_def)
qed

lemma link_in_other:
  assumes l: "link_in p q P P'" and k: "kids P r ys" "p \<notin> set ys" "r \<noteq> q" "\<And>x. cptr (P q) = Some x \<Longrightarrow> x \<notin> set ys"
  shows "kids P' r ys"
proof -
  have "kids P' r ys = kids P r ys"
    using l k(2-4) by (intro kids_cong) (auto simp: link_in_def)
  then show ?thesis using k(1) by simp
qed

lemma kids_first: "kids P q xs \<Longrightarrow> cptr (P q) = Some x \<Longrightarrow> x \<in> set xs"
  by (cases xs) (auto simp: kids_def)

lemma ptree_link:
  assumes t: "ptree P root l" and p: "p \<notin> set l" "p \<noteq> root" "q \<in> insert root (set l)" "cptr (P p) = None"
    and ln: "link_in p q P P'"
  shows "ptree P' root (p # l)"
proof -
  have pq: "p \<noteq> q" using p by auto
  have par: "proc_parent (P' x) = (if x = p then Some q else proc_parent (P x))" for x using ln by (simp add: link_in_def)
  obtain xs where xs: "kids P q xs" "distinct xs" "set xs = children P l q" using ptreeD[OF t p(3)] .
  have ch: "children P' (p # l) r = (if r = q then insert p (children P l q) else children P l r)" for r
    using p(1) by (auto simp: children_def par)
  have nop: "children P l p = {}"
  proof -
    have False if x: "x \<in> set l" "proc_parent (P x) = Some p" for x
      using ptree_parent[OF t x(1)] x(2) p(1,2) by (metis insertE option.inject)
    then show ?thesis by (auto simp: children_def)
  qed
  have "\<exists>ys. kids P' r ys \<and> distinct ys \<and> set ys = children P' (p # l) r" if r: "r \<in> insert root (set (p # l))" for r
  proof -
    consider "r = q" | "r = p" | "r \<noteq> q" "r \<noteq> p" by blast
    then show ?thesis
    proof cases
      case 1
      have "p \<notin> set xs" using p(1) xs(3) by (auto simp: children_def)
      then show ?thesis using link_in_kids[OF ln xs(1,2) _ pq] xs ch 1 by (intro exI[of _ "p # xs"]) auto
    next
      case 2
      have "kids P' p []" using ln p(4) pq by (simp add: kids_def link_in_def)
      then show ?thesis using 2 ch nop pq by (intro exI[of _ "[]"]) auto
    next
      case 3
      then obtain ys where ys: "kids P r ys" "distinct ys" "set ys = children P l r" using ptreeD[OF t, of r] r by auto
      have "p \<notin> set ys" using p(1) ys(3) by (auto simp: children_def)
      moreover have "x \<notin> set ys" if "cptr (P q) = Some x" for x
        using kids_first[OF xs(1) that] xs(3) ys(3) 3 by (auto simp: children_def)
      ultimately have "kids P' r ys" using link_in_other[OF ln ys(1)] 3 by blast
      then show ?thesis using ys ch 3 by auto
    qed
  qed
  moreover have "\<exists>r \<in> insert root (set (p # l)). proc_parent (P' x) = Some r" if "x \<in> set (p # l)" for x
  proof (cases "x = p")
    case True
    then show ?thesis using p(3) par by auto
  next
    case False
    then show ?thesis using that ptree_parent[OF t, of x] par by (metis insertE insertI1 insertI2 list.simps(15))
  qed
  ultimately show ?thesis using t p unfolding ptree_def by auto
qed

text \<open>Taking \<open>p\<close> out of the children of its parent \<open>q\<close>.\<close>

definition unlink :: "pptr \<Rightarrow> pptr \<Rightarrow> (pptr \<Rightarrow> proc_struct) \<Rightarrow> (pptr \<Rightarrow> proc_struct) \<Rightarrow> bool" where
  "unlink p q P P' \<longleftrightarrow>
     (\<forall>x. proc_parent (P' x) = proc_parent (P x)) \<and>
     (\<forall>x. cptr (P' x) = (if yptr (P p) = None \<and> x = q then optr (P p) else cptr (P x))) \<and>
     (\<forall>x. optr (P' x) = (if yptr (P p) = Some x then optr (P p) else optr (P x))) \<and>
     (\<forall>x. yptr (P' x) = (if optr (P p) = Some x then yptr (P p) else yptr (P x)))"

lemma unlink_kids:
  assumes u: "unlink p q P P'" and k: "kids P q (as @ p # bs)" "distinct (as @ p # bs)"
  shows "kids P' q (as @ bs)" "\<And>x. yptr (P p) = Some x \<Longrightarrow> x \<in> set as" "\<And>x. optr (P p) = Some x \<Longrightarrow> x \<in> set bs"
proof -
  obtain z w where z: "kseg P (cptr (P q)) None as (Some p) w" "yptr (P p) = w" "kseg P (optr (P p)) (Some p) bs None z"
    using k(1) by (auto simp: kids_def kseg_append)
  show o: "x \<in> set bs" if "optr (P p) = Some x" for x using z(3) that by (cases bs) auto
  show y: "x \<in> set as" if "yptr (P p) = Some x" for x
    using z(1,2) that kseg_last[OF z(1)] by (cases "as = []") auto
  have bs: "\<exists>z. kseg P' (optr (P p)) w bs None z"
  proof (cases bs)
    case (Cons b bs')
    have ob: "optr (P p) = Some b" using z(3) Cons by simp
    have "kseg P' (optr (P b)) (Some b) bs' None z = kseg P (optr (P b)) (Some b) bs' None z"
      using u k(2) Cons y ob by (intro kseg_cong) (auto simp: unlink_def)
    then have "kseg P' (optr (P b)) (Some b) bs' None z" using z(3) Cons by simp
    moreover have "yptr (P' b) = w" "optr (P' b) = optr (P b)" using u ob z(2) y k(2) Cons by (auto simp: unlink_def)
    ultimately show ?thesis using Cons ob by auto
  qed (use z(3) in auto)
  have "kseg P' (cptr (P' q)) None as (optr (P p)) w"
  proof (cases "as = []")
    case True
    then show ?thesis using z u by (auto simp: unlink_def)
  next
    case False
    then obtain as' a where as: "as = as' @ [a]" by (metis append_butlast_last_id)
    have w: "w = Some a" using kseg_last[OF z(1) False] as by simp
    obtain v where v: "kseg P (cptr (P q)) None as' (Some a) v" "yptr (P a) = v" using z(1) as by (auto simp: kseg_append)
    have "kseg P' (cptr (P q)) None as' (Some a) v = kseg P (cptr (P q)) None as' (Some a) v"
      using u k(2) as o w z(2) by (intro kseg_cong) (auto simp: unlink_def)
    moreover have "yptr (P' a) = v" "optr (P' a) = optr (P p)" "cptr (P' q) = cptr (P q)"
      using u w z(2) v(2) o k(2) as by (auto simp: unlink_def)
    ultimately show ?thesis using v(1) w by (auto simp: as kseg_append)
  qed
  then show "kids P' q (as @ bs)" using bs by (auto simp: kids_def kseg_append)
qed

lemma ptree_unlink:
  assumes t: "ptree P root l" and p: "p \<in> set l" "proc_parent (P p) = Some q" "children P l p = {}"
    and u: "unlink p q P P'"
  shows "ptree P' root (remove1 p l)"
proof -
  have d: "distinct l" "root \<notin> set l" using t by (auto simp: ptree_def)
  have q: "q \<in> insert root (set l)" using ptree_parent[OF t p(1)] p(2) by (metis option.inject)
  have pq: "p \<noteq> q" using p by (auto simp: children_def)
  have par: "proc_parent (P' x) = proc_parent (P x)" for x using u by (simp add: unlink_def)
  have sl: "set (remove1 p l) = set l - {p}" using d(1) by simp
  have ch: "children P' (remove1 p l) r = children P l r - {p}" for r by (auto simp: children_def par sl)
  obtain xs where xs: "kids P q xs" "distinct xs" "set xs = children P l q" using ptreeD[OF t q] .
  have "p \<in> set xs" using p xs(3) by (simp add: children_def)
  then obtain as bs where ab: "xs = as @ p # bs" by (meson split_list)
  note uk = unlink_kids[OF u xs(1)[unfolded ab] xs(2)[unfolded ab]]
  have "\<exists>ys. kids P' r ys \<and> distinct ys \<and> set ys = children P' (remove1 p l) r" if r: "r \<in> insert root (set (remove1 p l))" for r
  proof (cases "r = q")
    case True
    then show ?thesis using uk(1) xs ab ch by (intro exI[of _ "as @ bs"]) auto
  next
    case False
    obtain ys where ys: "kids P r ys" "distinct ys" "set ys = children P l r" using ptreeD[OF t, of r] r sl by auto
    have dis: "x \<notin> set ys" if "x \<in> set xs" for x using that xs(3) ys(3) False by (auto simp: children_def)
    have "kids P' r ys = kids P r ys"
    proof (rule kids_cong)
      show "yptr (P' x) = yptr (P x) \<and> optr (P' x) = optr (P x)" if "x \<in> set ys" for x
        using u that dis[of x] uk(2,3)[of x] ab by (auto simp: unlink_def)
      show "cptr (P' r) = cptr (P r)" using u False by (simp add: unlink_def)
    qed
    moreover have "p \<notin> set ys" using dis \<open>p \<in> set xs\<close> by blast
    ultimately show ?thesis using ys ch by (intro exI[of _ ys]) auto
  qed
  moreover have "\<exists>r \<in> insert root (set (remove1 p l)). proc_parent (P' x) = Some r" if x: "x \<in> set (remove1 p l)" for x
  proof -
    obtain r where r: "r \<in> insert root (set l)" "proc_parent (P x) = Some r" using ptree_parent[OF t, of x] x sl by auto
    then have "r \<noteq> p" using p(3) x sl by (auto simp: children_def)
    then show ?thesis using r par sl by auto
  qed
  ultimately show ?thesis using d by (simp add: ptree_def)
qed

subsection \<open>The table as a whole\<close>

lemma upd_kernel [simp]:
  "timer_list (upd p f s) = timer_list s" "timers (upd p f s) = timers s" "tstate.more (upd p f s) = tstate.more s"
  for s :: "'a tstate_scheme"
  by (simp_all add: upd_def)

lemma upd_kernel2 [simp]:
  "proc_list (upd p f s) = proc_list s" "hash_list (upd p f s) = hash_list s"
  "nr_process (upd p f s) = nr_process s" "last_pid (upd p f s) = last_pid s" "next_safe (upd p f s) = next_safe s"
  "kernel.more (upd p f s) = kernel.more s"
  by (simp_all add: upd_def)

text \<open>The members of a process apart from its links.\<close>

definition nolinks :: "proc_struct \<Rightarrow> proc_struct" where
  "nolinks x = x\<lparr>cptr := None, yptr := None, optr := None\<rparr>"

lemma nolinks_upd [simp]:
  "nolinks (x\<lparr>cptr := v\<rparr>) = nolinks x" "nolinks (x\<lparr>yptr := v\<rparr>) = nolinks x" "nolinks (x\<lparr>optr := v\<rparr>) = nolinks x"
  by (simp_all add: nolinks_def)

lemma nolinks_simps:
  "pstate (nolinks x) = pstate x" "pid (nolinks x) = pid x" "proc_parent (nolinks x) = proc_parent x"
  "on_rq (nolinks x) = on_rq x" "time_slice (nolinks x) = time_slice x" "lab6_stride (nolinks x) = lab6_stride x"
  "wait_state (nolinks x) = wait_state x" "flags (nolinks x) = flags x"
  by (simp_all add: nolinks_def)

lemma nolinks_eqD:
  assumes "nolinks x = nolinks y"
  shows "pstate x = pstate y" "pid x = pid y" "proc_parent x = proc_parent y" "on_rq x = on_rq y"
    "time_slice x = time_slice y" "lab6_stride x = lab6_stride y" "wait_state x = wait_state y" "flags x = flags y"
  using assms nolinks_simps by metis+

definition table_frame :: "'a kernel_scheme \<Rightarrow> 'a kernel_scheme \<Rightarrow> bool" where
  "table_frame s s' \<longleftrightarrow> nodes s' = nodes s \<and> rq s' = rq s \<and> current s' = current s \<and> idleproc s' = idleproc s \<and>
     initproc s' = initproc s \<and> satp s' = satp s \<and> timer_list s' = timer_list s \<and> timers s' = timers s \<and>
     kernel.more s' = kernel.more s"

lemma set_links_ok:
  assumes "proc_parent (procs s p) = Some q" "p \<noteq> q" "cptr (procs s q) \<noteq> Some p" "cptr (procs s q) \<noteq> Some q"
  shows "\<exists>s'. set_links p s = Some s' \<and> link_in p q (procs s) (procs s') \<and> proc_list s' = p # proc_list s \<and>
    nr_process s' = nr_process s + 1 \<and> hash_list s' = hash_list s \<and> last_pid s' = last_pid s \<and> next_safe s' = next_safe s \<and>
    table_frame s s' \<and> (\<forall>x. nolinks (procs s' x) = nolinks (procs s x))"
proof (cases "cptr (procs s q)")
  case None
  let ?s = "(upd q (\<lambda>x. x\<lparr>cptr := Some p\<rparr>) (upd p (\<lambda>x. x\<lparr>optr := None\<rparr>) (upd p (\<lambda>x. x\<lparr>yptr := None\<rparr>)
    (s\<lparr>proc_list := p # proc_list s\<rparr>))))\<lparr>nr_process := nr_process s + 1\<rparr>"
  have "set_links p s = Some ?s" using assms None by (simp add: set_links_def)
  moreover have "link_in p q (procs s) (procs ?s)" using assms None by (simp add: link_in_def)
  ultimately show ?thesis by (intro exI[of _ ?s]) (simp add: table_frame_def)
next
  case (Some o')
  let ?s = "(upd q (\<lambda>x. x\<lparr>cptr := Some p\<rparr>) (upd o' (\<lambda>x. x\<lparr>yptr := Some p\<rparr>) (upd p (\<lambda>x. x\<lparr>optr := Some o'\<rparr>) (upd p (\<lambda>x. x\<lparr>yptr := None\<rparr>)
    (s\<lparr>proc_list := p # proc_list s\<rparr>)))))\<lparr>nr_process := nr_process s + 1\<rparr>"
  have "set_links p s = Some ?s" using assms Some by (simp add: set_links_def)
  moreover have "link_in p q (procs s) (procs ?s)" using assms Some by (simp add: link_in_def)
  ultimately show ?thesis by (intro exI[of _ ?s]) (simp add: table_frame_def)
qed

lemma remove_links_ok:
  assumes "proc_parent (procs s p) = Some q" "optr (procs s p) \<noteq> Some p" "yptr (procs s p) \<noteq> Some p" 
  shows "\<exists>s'. remove_links p s = Some s' \<and> unlink p q (procs s) (procs s') \<and> proc_list s' = remove1 p (proc_list s) \<and>
    nr_process s' = nr_process s - 1 \<and> hash_list s' = hash_list s \<and> last_pid s' = last_pid s \<and> next_safe s' = next_safe s \<and>
    table_frame s s' \<and> (\<forall>x. nolinks (procs s' x) = nolinks (procs s x))"
proof -
  let ?s0 = "s\<lparr>proc_list := remove1 p (proc_list s)\<rparr>"
  let ?s1 = "case optr (procs s p) of None \<Rightarrow> ?s0 | Some o' \<Rightarrow> upd o' (\<lambda>x. x\<lparr>yptr := yptr (procs s p)\<rparr>) ?s0"
  let ?s2 = "case yptr (procs s p) of Some y \<Rightarrow> upd y (\<lambda>x. x\<lparr>optr := optr (procs s p)\<rparr>) ?s1
      | None \<Rightarrow> upd q (\<lambda>x. x\<lparr>cptr := optr (procs s p)\<rparr>) ?s1"
  let ?s = "?s2\<lparr>nr_process := nr_process s - 1\<rparr>"
  have "remove_links p s = Some ?s"
    using assms by (cases "optr (procs s p)"; cases "yptr (procs s p)") (simp_all add: remove_links_def)
  moreover have "unlink p q (procs s) (procs ?s)"
    using assms by (cases "optr (procs s p)"; cases "yptr (procs s p)") (simp_all add: unlink_def)
  moreover have "proc_list ?s = remove1 p (proc_list s) \<and> hash_list ?s = hash_list s \<and> last_pid ?s = last_pid s \<and>
      next_safe ?s = next_safe s \<and> table_frame s ?s \<and> (\<forall>x. nolinks (procs ?s x) = nolinks (procs s x))"
    by (cases "optr (procs s p)"; cases "yptr (procs s p)") (simp_all add: table_frame_def)
  ultimately show ?thesis by (intro exI[of _ ?s]) simp
qed

definition hash_ok :: "'a kernel_scheme \<Rightarrow> bool" where
  "hash_ok s \<longleftrightarrow> (\<forall>i. distinct (hash_list s i) \<and>
     set (hash_list s i) = {p \<in> set (proc_list s). pid_hashfn (pid (procs s p)) = i})"

definition table_ok :: "'a kernel_scheme \<Rightarrow> bool" where
  "table_ok s \<longleftrightarrow> ptree (procs s) (idleproc s) (proc_list s) \<and> distinct (pids s) \<and>
     (\<forall>i \<in> set (pids s). 0 < i \<and> i < MAX_PID) \<and> hash_ok s \<and>
     nr_process s = int (length (proc_list s)) + 1 \<and> pid_window s"

lemma find_proc_table:
  assumes "table_ok s"
  shows "find_proc i s = Some p \<longleftrightarrow> p \<in> set (proc_list s) \<and> pid (procs s p) = i"
proof
  assume a: "find_proc i s = Some p"
  then have "p \<in> set (hash_list s (pid_hashfn i))" "pid (procs s p) = i"
    by (auto simp: find_proc_def find_Some_iff split: if_splits)
  then show "p \<in> set (proc_list s) \<and> pid (procs s p) = i" using assms by (auto simp: table_ok_def hash_ok_def)
next
  assume a: "p \<in> set (proc_list s) \<and> pid (procs s p) = i"
  then have r: "0 < i \<and> i < MAX_PID" "p \<in> set (hash_list s (pid_hashfn i))"
    using assms by (auto simp: table_ok_def hash_ok_def)
  obtain p' where p': "List.find (\<lambda>p. pid (procs s p) = i) (hash_list s (pid_hashfn i)) = Some p'"
    using r(2) a by (cases "List.find (\<lambda>p. pid (procs s p) = i) (hash_list s (pid_hashfn i))") (auto simp: find_None_iff)
  then have "p' \<in> set (proc_list s)" "pid (procs s p') = i"
    using assms by (auto simp: find_Some_iff table_ok_def hash_ok_def dest!: nth_mem)
  moreover have "inj_on (\<lambda>p. pid (procs s p)) (set (proc_list s))" using assms by (simp add: table_ok_def distinct_map)
  ultimately have "p' = p" using a inj_onD[of "\<lambda>p. pid (procs s p)" "set (proc_list s)" p' p] by simp
  then show "find_proc i s = Some p" using p' r(1) by (simp add: find_proc_def)
qed


lemma kids_no_self: 
  assumes "ptree P root l" "q \<in> insert root (set l)" "cptr (P q) = Some x" shows "x \<in> set l" "proc_parent (P x) = Some q"
proof -
  obtain xs where xs: "kids P q xs" "set xs = children P l q" using ptreeD[OF assms(1,2)] .
  then have "x \<in> children P l q" using kids_first[OF xs(1) assms(3)] by simp
  then show "x \<in> set l" "proc_parent (P x) = Some q" by (simp_all add: children_def)
qed

lemma ptree_cong:
  assumes "\<And>x. proc_parent (P' x) = proc_parent (P x) \<and> cptr (P' x) = cptr (P x) \<and> yptr (P' x) = yptr (P x) \<and> optr (P' x) = optr (P x)"
  shows "ptree P' root l = ptree P root l"
proof -
  have "kids P' r xs = kids P r xs" for r xs using kids_cong[of xs P' P r] assms by blast
  moreover have "children P' l r = children P l r" for r using assms by (simp add: children_def)
  ultimately show ?thesis using assms by (simp add: ptree_def)
qed

text \<open>The critical section of \<^verbatim>\<open>do_fork\<close>.\<close>

lemma register_ok:
  assumes t: "table_ok s" and n: "nr_process s < MAX_PROCESS" and p: "p \<notin> set (proc_list s)" "p \<noteq> idleproc s" "cptr (procs s p) = None"
    and q: "proc_parent (procs s p) = Some q" "q \<in> insert (idleproc s) (set (proc_list s))" "cptr (procs s q) \<noteq> Some q"
  shows "\<exists>i s1 s'. get_pid s = Some (i, s1) \<and> set_links p (hash_proc p (upd p (\<lambda>x. x\<lparr>pid := i\<rparr>) s1)) = Some s' \<and>
    table_ok s' \<and> i \<notin> set (pids s) \<and> 0 < i \<and> i < MAX_PID \<and> proc_list s' = p # proc_list s \<and> table_frame s s' \<and>
    (\<forall>x. nolinks (procs s' x) = (if x = p then (nolinks (procs s x))\<lparr>pid := i\<rparr> else nolinks (procs s x)))"
proof -
  have tr: "ptree (procs s) (idleproc s) (proc_list s)" using t by (simp add: table_ok_def)
  have "pid_window s" "int (length (proc_list s)) \<le> MAX_PROCESS" using t n by (auto simp: table_ok_def)
  from get_pid_ok[OF this] obtain i safe where i: "get_pid s = Some (i, s\<lparr>last_pid := i, next_safe := safe\<rparr>)" "1 \<le> i" "i < MAX_PID"
    "i \<notin> set (pids s)" "safe \<le> MAX_PID" "\<forall>k \<in> set (pids s). \<not> (i < k \<and> k < safe)" by blast
  define s2 where "s2 = hash_proc p (upd p (\<lambda>x. x\<lparr>pid := i\<rparr>) (s\<lparr>last_pid := i, next_safe := safe\<rparr>))"
  have f2: "procs s2 = (procs s)(p := (procs s p)\<lparr>pid := i\<rparr>)" "proc_list s2 = proc_list s" "nr_process s2 = nr_process s"
    "hash_list s2 = (hash_list s)(pid_hashfn i := p # hash_list s (pid_hashfn i))" "last_pid s2 = i" "next_safe s2 = safe"
    "table_frame s s2"
    by (simp_all add: s2_def hash_proc_def upd_def table_frame_def Let_def)
  have pq: "p \<noteq> q" using p q by auto
  have c: "cptr (procs s q) \<noteq> Some p" using kids_no_self(1)[OF tr q(2)] p(1) by blast
  have "\<exists>s'. set_links p s2 = Some s' \<and> link_in p q (procs s2) (procs s') \<and> proc_list s' = p # proc_list s2 \<and>
    nr_process s' = nr_process s2 + 1 \<and> hash_list s' = hash_list s2 \<and> last_pid s' = last_pid s2 \<and> next_safe s' = next_safe s2 \<and>
    table_frame s2 s' \<and> (\<forall>x. nolinks (procs s' x) = nolinks (procs s2 x))"
    by (rule set_links_ok) (use q pq c in \<open>auto simp: f2\<close>)
  then obtain s' where s': "set_links p s2 = Some s'" "link_in p q (procs s2) (procs s')" "proc_list s' = p # proc_list s"
    "nr_process s' = nr_process s + 1" "hash_list s' = hash_list s2" "last_pid s' = i" "next_safe s' = safe"
    "table_frame s2 s'" "\<forall>x. nolinks (procs s' x) = nolinks (procs s2 x)" using f2 by auto
  have id: "idleproc s' = idleproc s" using s'(8) f2(7) by (simp add: table_frame_def)
  have pd: "pid (procs s' x) = (if x = p then i else pid (procs s x))" for x
    using nolinks_eqD(2)[of "procs s' x" "procs s2 x"] s'(9) by (simp add: f2)
  have tr2: "ptree (procs s2) (idleproc s) (proc_list s)" using ptree_cong[of "procs s2" "procs s"] tr by (simp add: f2)
  have "ptree (procs s') (idleproc s) (p # proc_list s)"
    using ptree_link[OF tr2 p(1,2) q(2) _ s'(2)] p(3) by (simp add: f2)
  moreover have pp: "pids s' = i # pids s" using p(1) by (auto simp: s'(3) pd)
  moreover have "hash_ok s'"
    using t p(1) unfolding hash_ok_def s'(3,5) f2(4) pd by (auto simp: table_ok_def hash_ok_def)
  moreover have "distinct (pids s')" using t i(4) unfolding pp by (simp add: table_ok_def)
  moreover have "\<forall>k \<in> set (pids s'). 0 < k \<and> k < MAX_PID" using t i(2,3) unfolding pp by (auto simp: table_ok_def)
  moreover have "pid_window s'" using i unfolding pid_window_def pp s'(6,7) by auto
  moreover have "nr_process s' = int (length (p # proc_list s)) + 1" using t s'(4) by (simp add: table_ok_def)
  ultimately have "table_ok s'" unfolding table_ok_def id s'(3) by blast
  moreover have "table_frame s s'" using f2(7) s'(8) by (simp add: table_frame_def)
  moreover have "nolinks (procs s' x) = (if x = p then (nolinks (procs s x))\<lparr>pid := i\<rparr> else nolinks (procs s x))" for x
    using s'(9) by (simp add: f2 nolinks_def)
  ultimately show ?thesis using i s'(1,3) unfolding s2_def by auto
qed


lemma kseg_neq:
  "kseg P a y xs b z \<Longrightarrow> distinct xs \<Longrightarrow> p \<in> set xs \<Longrightarrow> b \<noteq> Some p \<Longrightarrow> (\<And>w. y = Some w \<Longrightarrow> w \<notin> set xs) \<Longrightarrow>
   optr (P p) \<noteq> Some p \<and> yptr (P p) \<noteq> Some p"
proof (induction xs arbitrary: a y)
  case (Cons x xs)
  show ?case
  proof (cases "p = x")
    case True
    have "optr (P x) \<noteq> Some x" using Cons.prems True by (cases xs) auto
    then show ?thesis using Cons.prems True by auto
  next
    case False
    then show ?thesis using Cons.IH[of "optr (P x)" "Some x"] Cons.prems by auto
  qed
qed simp

lemma kids_neq:
  assumes "kids P q xs" "distinct xs" "p \<in> set xs" shows "optr (P p) \<noteq> Some p" "yptr (P p) \<noteq> Some p"
  using assms kseg_neq[of P "cptr (P q)" None xs None _ p] by (auto simp: kids_def)

text \<open>The critical section of \<^verbatim>\<open>do_wait\<close>.\<close>

lemma reap_ok:
  assumes t: "table_ok s" and p: "p \<in> set (proc_list s)" "children (procs s) (proc_list s) p = {}"
  shows "\<exists>s'. remove_links p (unhash_proc p s) = Some s' \<and> table_ok s' \<and> proc_list s' = remove1 p (proc_list s) \<and>
    table_frame s s' \<and> (\<forall>x. nolinks (procs s' x) = nolinks (procs s x))"
proof -
  define s1 where "s1 = unhash_proc p s"
  have f1: "procs s1 = procs s" "proc_list s1 = proc_list s" "nr_process s1 = nr_process s" "hash_list s1 = (\<lambda>i. remove1 p (hash_list s i))"
    "last_pid s1 = last_pid s" "next_safe s1 = next_safe s" "table_frame s s1"
    by (simp_all add: s1_def unhash_proc_def table_frame_def)
  have tr: "ptree (procs s) (idleproc s) (proc_list s)" using t by (simp add: table_ok_def)
  then have dl: "distinct (proc_list s)" by (simp add: ptree_def)
  obtain q where q: "q \<in> insert (idleproc s) (set (proc_list s))" "proc_parent (procs s p) = Some q" using ptree_parent[OF tr p(1)] .
  obtain xs where xs: "kids (procs s) q xs" "distinct xs" "set xs = children (procs s) (proc_list s) q" using ptreeD[OF tr q(1)] .
  have "p \<in> set xs" using p(1) q(2) xs(3) by (simp add: children_def)
  then have ns: "optr (procs s p) \<noteq> Some p" "yptr (procs s p) \<noteq> Some p" using kids_neq[OF xs(1,2)] by blast+
  from remove_links_ok[of s1 p q] obtain s' where s': "remove_links p s1 = Some s'" "unlink p q (procs s) (procs s')"
    "proc_list s' = remove1 p (proc_list s)" "nr_process s' = nr_process s - 1" "hash_list s' = hash_list s1"
    "last_pid s' = last_pid s" "next_safe s' = next_safe s" "table_frame s1 s'" "\<forall>x. nolinks (procs s' x) = nolinks (procs s x)"
    using q(2) ns by (auto simp: f1)
  have fr: "table_frame s s'" using f1(7) s'(8) by (simp add: table_frame_def)
  have pd: "pid (procs s' x) = pid (procs s x)" for x using nolinks_eqD(2) s'(9) by blast
  have sub: "set (pids s') \<subseteq> set (pids s)" unfolding s'(3) pd using dl by auto
  have "ptree (procs s') (idleproc s') (proc_list s')"
    using ptree_unlink[OF tr p(1) q(2) p(2) s'(2)] fr s'(3) by (simp add: table_frame_def)
  moreover have "distinct (pids s')"
    using t dl unfolding s'(3) pd by (auto simp: table_ok_def distinct_map intro: inj_on_subset)
  moreover have "hash_ok s'"
    using t dl unfolding hash_ok_def s'(3,5) f1(4) pd by (auto simp: table_ok_def hash_ok_def)
  moreover have "nr_process s' = int (length (proc_list s')) + 1"
  proof -
    have "0 < length (proc_list s)" using p(1) by (rule length_pos_if_in_set)
    moreover have "length (proc_list s') = length (proc_list s) - 1" using p(1) by (simp add: s'(3) length_remove1)
    moreover have "nr_process s = int (length (proc_list s)) + 1" using t by (simp add: table_ok_def)
    ultimately show ?thesis using s'(4) by linarith
  qed
  moreover have "pid_window s'" using t sub unfolding table_ok_def pid_window_def s'(6,7) by blast
  moreover have "\<forall>k \<in> set (pids s'). 0 < k \<and> k < MAX_PID" using t sub unfolding table_ok_def by blast
  ultimately have "table_ok s'" unfolding table_ok_def by blast
  then show ?thesis using s'(1,3,9) fr unfolding s1_def by blast
qed


text \<open>C25: \<^verbatim>\<open>get_pid\<close> terminates on every process table with at most \<^verbatim>\<open>MAX_PROCESS\<close> entries and
  returns a pid between 1 and \<^verbatim>\<open>MAX_PID - 1\<close> that no process of the list has; the static variables again
  bound a gap without pids, which the next call relies on.\<close>

theorem get_pid_unique:
  assumes "pid_window s" "int (length (proc_list s)) \<le> MAX_PROCESS"
  shows "\<exists>i s'. get_pid s = Some (i, s') \<and> 0 < i \<and> i < MAX_PID \<and> i \<notin> set (pids s) \<and> last_pid s' = i \<and> pid_window s' \<and>
    s' = s\<lparr>last_pid := i, next_safe := next_safe s'\<rparr>"
proof -
  obtain i safe where i: "get_pid s = Some (i, s\<lparr>last_pid := i, next_safe := safe\<rparr>)" "1 \<le> i" "i < MAX_PID" "i \<notin> set (pids s)"
    "safe \<le> MAX_PID" "\<forall>p \<in> set (pids s). \<not> (i < p \<and> p < safe)" using get_pid_ok[OF assms] by blast
  then have "pid_window (s\<lparr>last_pid := i, next_safe := safe\<rparr>)" by (simp add: pid_window_def)
  then show ?thesis using i by (intro exI[of _ i] exI[of _ "s\<lparr>last_pid := i, next_safe := safe\<rparr>"]) simp
qed

text \<open>With a consistent table \<^verbatim>\<open>find_proc\<close> finds exactly the listed process with the given pid: it
  never misses a live process, never returns one that was removed, and rejects pids out of range.\<close>

lemma find_proc_correct:
  assumes "table_ok s"
  shows "find_proc i s = Some p \<longleftrightarrow> p \<in> set (proc_list s) \<and> pid (procs s p) = i"
  using find_proc_table[OF assms] .

subsection \<open>A table of three processes\<close>

definition sample_kprocs :: "pptr \<Rightarrow> proc_struct" where
  "sample_kprocs p =
     (if p = 0 then (sample_procs 0)\<lparr>cptr := Some 1\<rparr>
      else if p = 1 then (sample_procs 1)\<lparr>proc_parent := Some 0, cptr := Some 3\<rparr>
      else if p = 2 then (sample_procs 2)\<lparr>proc_parent := Some 1, yptr := Some 3\<rparr>
      else if p = 3 then (sample_procs 3)\<lparr>proc_parent := Some 1, optr := Some 2\<rparr>
      else blank_proc)"

definition sample_kernel :: kernel where
  "sample_kernel = tstate.extend (sample_t\<lparr>procs := sample_kprocs\<rparr>)
     (kernel.fields [3, 2, 1] (\<lambda>i. filter (\<lambda>p. pid_hashfn (pid (sample_kprocs p)) = i) [3, 2, 1]) 4 3 MAX_PID)"

lemma sample_kernel_simps [simp]:
  "procs sample_kernel = sample_kprocs" "nodes sample_kernel = nodes sample_k" "rq sample_kernel = rq sample_k"
  "current sample_kernel = 1" "idleproc sample_kernel = 0" "initproc sample_kernel = 1" "proc_list sample_kernel = [3, 2, 1]"
  "hash_list sample_kernel = (\<lambda>i. filter (\<lambda>p. pid_hashfn (pid (sample_kprocs p)) = i) [3, 2, 1])"
  "nr_process sample_kernel = 4" "last_pid sample_kernel = 3" "next_safe sample_kernel = MAX_PID"
  "timer_list sample_kernel = [10, 11, 12]" "timers sample_kernel = sample_timers"
  by (simp_all add: sample_kernel_def sample_t_def sample_k_def kstate.defs tstate.defs kernel.defs)

lemma sample_kprocs_simps:
  "pid (sample_kprocs 0) = 0" "pid (sample_kprocs 1) = 1" "pid (sample_kprocs 2) = 2" "pid (sample_kprocs 3) = 3"
  "proc_parent (sample_kprocs 1) = Some 0" "proc_parent (sample_kprocs 2) = Some 1" "proc_parent (sample_kprocs 3) = Some 1"
  "cptr (sample_kprocs 0) = Some 1" "cptr (sample_kprocs 1) = Some 3" "cptr (sample_kprocs 2) = None" "cptr (sample_kprocs 3) = None"
  "optr (sample_kprocs 1) = None" "optr (sample_kprocs 2) = None" "optr (sample_kprocs 3) = Some 2"
  "yptr (sample_kprocs 1) = None" "yptr (sample_kprocs 2) = Some 3" "yptr (sample_kprocs 3) = None"
  by (simp_all add: sample_kprocs_def sample_procs_def blank_proc_def)

lemma sample_kernel_ok: "table_ok sample_kernel"
proof -
  have "ptree sample_kprocs 0 [3, 2, 1]"
  proof -
    let ?ok = "\<lambda>r xs. kids sample_kprocs r xs \<and> distinct xs \<and> set xs = children sample_kprocs [3, 2, 1] r"
    have "?ok 0 [1]" "?ok 1 [3, 2]" "?ok 2 []" "?ok 3 []"
      by (auto simp: kids_def children_def sample_kprocs_simps[simplified])
    then have "\<forall>r \<in> {0, 1, 2, 3}. \<exists>xs. ?ok r xs" by blast
    then have "\<forall>r \<in> insert 0 (set [3, 2, 1]). \<exists>xs. ?ok r xs" by auto
    moreover have "\<forall>x \<in> set [3, 2, 1]. \<exists>r \<in> insert 0 (set [3, 2, 1]). proc_parent (sample_kprocs x) = Some r"
      by (simp add: sample_kprocs_simps[simplified])
    ultimately show ?thesis unfolding ptree_def by simp
  qed
  moreover have "hash_ok sample_kernel" unfolding hash_ok_def by (auto simp: sample_kprocs_simps[simplified])
  ultimately show ?thesis
    by (simp add: table_ok_def sample_kprocs_simps[simplified] pid_window_def MAX_PID_def MAX_PROCESS_def)
qed

theorem get_pid_unique_witness: "\<exists>i s'. get_pid sample_kernel = Some (i, s') \<and> 0 < i \<and> i \<notin> {1, 2, 3}"
  using get_pid_unique[of sample_kernel] sample_kernel_ok
  by (auto simp: table_ok_def sample_kprocs_simps[simplified] MAX_PROCESS_def)

end
