(* ===== verification/Sync.thy ===== *)
theory Sync
  imports Proc_Table
begin

text \<open>
  Wait queues and semaphores: \<^verbatim>\<open>src/kern/sync/wait.c\<close>, \<^verbatim>\<open>wait.h\<close>, \<^verbatim>\<open>sem.c\<close> on the state of the
  process table. A \<^verbatim>\<open>wait_t\<close> and a queue are numbers; a semaphore is a queue with a value. The ring of a
  queue is the list of its entries, \<^verbatim>\<open>list_add_before\<close> on the head appends; \<open>wait_linked\<close> says that
  \<^verbatim>\<open>wait_link\<close> is in a ring (\<^verbatim>\<open>!list_empty\<close>). Interrupts are off in every function, so each is one step; a
  function that calls \<^verbatim>\<open>schedule()\<close> is two: the part up to the switch, and the part that runs when the process
  is resumed.
\<close>

record wait =
  wproc :: "pptr option"
  wakeup_flags :: "32 word"
  wait_queue :: nat
  wait_linked :: bool

record sync = kernel +
  waits :: "nat \<Rightarrow> wait"
  wqs :: "nat \<Rightarrow> nat list"
  sem_value :: "nat \<Rightarrow> int"

subsection \<open>Wait queues\<close>

definition upd_wait :: "nat \<Rightarrow> (wait \<Rightarrow> wait) \<Rightarrow> 'a sync_scheme \<Rightarrow> 'a sync_scheme" where
  "upd_wait w f s = s\<lparr>waits := (waits s)(w := f (waits s w))\<rparr>"

definition wait_init :: "nat \<Rightarrow> pptr option \<Rightarrow> 'a sync_scheme \<Rightarrow> 'a sync_scheme" where
  "wait_init w p = upd_wait w (\<lambda>x. x\<lparr>wproc := p, wakeup_flags := WT_INTERRUPTED, wait_linked := False\<rparr>)"

definition wait_queue_init :: "nat \<Rightarrow> 'a sync_scheme \<Rightarrow> 'a sync_scheme" where
  "wait_queue_init q s = s\<lparr>wqs := (wqs s)(q := [])\<rparr>"

definition wait_queue_add :: "nat \<Rightarrow> nat \<Rightarrow> 'a sync_scheme \<Rightarrow> 'a sync_scheme option" where
  "wait_queue_add q w s = do {
     kassert (\<not> wait_linked (waits s w) \<and> wproc (waits s w) \<noteq> None);
     let s = upd_wait w (\<lambda>x. x\<lparr>wait_queue := q, wait_linked := True\<rparr>) s;
     Some (s\<lparr>wqs := (wqs s)(q := wqs s q @ [w])\<rparr>)
   }"

definition wait_queue_del :: "nat \<Rightarrow> nat \<Rightarrow> 'a sync_scheme \<Rightarrow> 'a sync_scheme option" where
  "wait_queue_del q w s = do {
     kassert (wait_linked (waits s w) \<and> wait_queue (waits s w) = q);
     let s = upd_wait w (\<lambda>x. x\<lparr>wait_linked := False\<rparr>) s;
     Some (s\<lparr>wqs := (wqs s)(q := remove1 w (wqs s q))\<rparr>)
   }"

definition after :: "nat \<Rightarrow> nat list \<Rightarrow> nat option" where
  "after w xs = (case dropWhile (\<lambda>x. x \<noteq> w) xs of _ # y # _ \<Rightarrow> Some y | _ \<Rightarrow> None)"

definition wait_queue_next :: "nat \<Rightarrow> nat \<Rightarrow> 'a sync_scheme \<Rightarrow> nat option option" where
  "wait_queue_next q w s = do {
     kassert (wait_linked (waits s w) \<and> wait_queue (waits s w) = q);
     Some (after w (wqs s q))
   }"

definition wait_queue_prev :: "nat \<Rightarrow> nat \<Rightarrow> 'a sync_scheme \<Rightarrow> nat option option" where
  "wait_queue_prev q w s = do {
     kassert (wait_linked (waits s w) \<and> wait_queue (waits s w) = q);
     Some (after w (rev (wqs s q)))
   }"

definition wait_queue_first :: "nat \<Rightarrow> 'a sync_scheme \<Rightarrow> nat option" where
  "wait_queue_first q s = (case wqs s q of [] \<Rightarrow> None | w # _ \<Rightarrow> Some w)"

definition wait_queue_last :: "nat \<Rightarrow> 'a sync_scheme \<Rightarrow> nat option" where
  "wait_queue_last q s = (case rev (wqs s q) of [] \<Rightarrow> None | w # _ \<Rightarrow> Some w)"

definition wait_queue_empty :: "nat \<Rightarrow> 'a sync_scheme \<Rightarrow> bool" where
  "wait_queue_empty q s \<longleftrightarrow> wqs s q = []"

definition wait_in_queue :: "nat \<Rightarrow> 'a sync_scheme \<Rightarrow> bool" where
  "wait_in_queue w s \<longleftrightarrow> wait_linked (waits s w)"

definition wakeup_wait :: "nat \<Rightarrow> nat \<Rightarrow> 32 word \<Rightarrow> bool \<Rightarrow> 'a sync_scheme \<Rightarrow> 'a sync_scheme option" where
  "wakeup_wait q w fl del s = do {
     s \<leftarrow> (if del then wait_queue_del q w s else Some s);
     let s = upd_wait w (\<lambda>x. x\<lparr>wakeup_flags := fl\<rparr>) s;
     p \<leftarrow> wproc (waits s w);
     wakeup_proc p s
   }"

definition wakeup_first :: "nat \<Rightarrow> 32 word \<Rightarrow> bool \<Rightarrow> 'a sync_scheme \<Rightarrow> 'a sync_scheme option" where
  "wakeup_first q fl del s = (case wait_queue_first q s of None \<Rightarrow> Some s | Some w \<Rightarrow> wakeup_wait q w fl del s)"

partial_function (option) wakeup_del_loop :: "nat \<Rightarrow> 32 word \<Rightarrow> 'a sync_scheme \<Rightarrow> 'a sync_scheme option" where
  "wakeup_del_loop q fl s = (case wait_queue_first q s of None \<Rightarrow> Some s
     | Some w \<Rightarrow> do { s \<leftarrow> wakeup_wait q w fl True s; wakeup_del_loop q fl s })"

partial_function (option) wakeup_keep_loop :: "nat \<Rightarrow> 32 word \<Rightarrow> nat option \<Rightarrow> 'a sync_scheme \<Rightarrow> 'a sync_scheme option" where
  "wakeup_keep_loop q fl wo s = (case wo of None \<Rightarrow> Some s
     | Some w \<Rightarrow> do { s \<leftarrow> wakeup_wait q w fl False s; wo \<leftarrow> wait_queue_next q w s; wakeup_keep_loop q fl wo s })"

declare wakeup_del_loop.simps [code] wakeup_keep_loop.simps [code]

definition wakeup_queue :: "nat \<Rightarrow> 32 word \<Rightarrow> bool \<Rightarrow> 'a sync_scheme \<Rightarrow> 'a sync_scheme option" where
  "wakeup_queue q fl del s =
     (if del then wakeup_del_loop q fl s else wakeup_keep_loop q fl (wait_queue_first q s) s)"

definition wait_current_set :: "nat \<Rightarrow> nat \<Rightarrow> 32 word \<Rightarrow> 'a sync_scheme \<Rightarrow> 'a sync_scheme option" where
  "wait_current_set q w ws s = do {
     let s = wait_init w (Some (current s)) s;
     let s = upd (current s) (\<lambda>x. x\<lparr>pstate := PROC_SLEEPING\<rparr>) s;
     let s = upd (current s) (\<lambda>x. x\<lparr>wait_state := ws\<rparr>) s;
     wait_queue_add q w s
   }"

definition wait_current_del :: "nat \<Rightarrow> nat \<Rightarrow> 'a sync_scheme \<Rightarrow> 'a sync_scheme option" where
  "wait_current_del q w s = (if wait_in_queue w s then wait_queue_del q w s else Some s)"

subsection \<open>Semaphores\<close>

definition sem_init :: "nat \<Rightarrow> int \<Rightarrow> 'a sync_scheme \<Rightarrow> 'a sync_scheme" where
  "sem_init q v s = wait_queue_init q (s\<lparr>sem_value := (sem_value s)(q := v)\<rparr>)"

definition up_ws :: "nat \<Rightarrow> 32 word \<Rightarrow> 'a sync_scheme \<Rightarrow> 'a sync_scheme option" where
  "up_ws q ws s = (case wait_queue_first q s of
       None \<Rightarrow> Some (s\<lparr>sem_value := (sem_value s)(q := sem_value s q + 1)\<rparr>)
     | Some w \<Rightarrow> do {
         p \<leftarrow> wproc (waits s w);
         kassert (wait_state (procs s p) = ws);
         wakeup_wait q w ws True s
       })"

text \<open>\<^verbatim>\<open>__down\<close> up to the switch: \<open>Some flags\<close> when it returned at once, \<open>None\<close> when the process went to
  sleep. \<open>w\<close> is its stack variable \<^verbatim>\<open>__wait\<close>.\<close>

definition down_enter :: "nat \<Rightarrow> nat \<Rightarrow> 32 word \<Rightarrow> 'a sync_scheme \<Rightarrow> (32 word option \<times> 'a sync_scheme) option" where
  "down_enter q w ws s =
     (if sem_value s q > 0 then Some (Some 0, s\<lparr>sem_value := (sem_value s)(q := sem_value s q - 1)\<rparr>)
      else do {
        s \<leftarrow> wait_current_set q w ws s;
        s \<leftarrow> schedule s;
        Some (None, s)
      })"

definition down_resume :: "nat \<Rightarrow> nat \<Rightarrow> 32 word \<Rightarrow> 'a sync_scheme \<Rightarrow> (32 word \<times> 'a sync_scheme) option" where
  "down_resume q w ws s = do {
     s \<leftarrow> wait_current_del q w s;
     Some (if wakeup_flags (waits s w) \<noteq> ws then wakeup_flags (waits s w) else 0, s)
   }"

definition up :: "nat \<Rightarrow> 'a sync_scheme \<Rightarrow> 'a sync_scheme option" where
  "up q = up_ws q WT_KSEM"

text \<open>\<^verbatim>\<open>down\<close>: \<open>True\<close> when it returned at once; its second half asserts that the wake-up was no interruption.\<close>

definition down :: "nat \<Rightarrow> nat \<Rightarrow> 'a sync_scheme \<Rightarrow> (bool \<times> 'a sync_scheme) option" where
  "down q w s = do {
     (r, s) \<leftarrow> down_enter q w WT_KSEM s;
     case r of None \<Rightarrow> Some (False, s) | Some fl \<Rightarrow> do { kassert (fl = 0); Some (True, s) }
   }"

definition down_return :: "nat \<Rightarrow> nat \<Rightarrow> 'a sync_scheme \<Rightarrow> 'a sync_scheme option" where
  "down_return q w s = do { (fl, s) \<leftarrow> down_resume q w WT_KSEM s; kassert (fl = 0); Some s }"

definition try_down :: "nat \<Rightarrow> 'a sync_scheme \<Rightarrow> bool \<times> 'a sync_scheme" where
  "try_down q s = (if sem_value s q > 0 then (True, s\<lparr>sem_value := (sem_value s)(q := sem_value s q - 1)\<rparr>) else (False, s))"

subsection \<open>The invariant\<close>

text \<open>\<open>ty q\<close> is the wait state of the processes in queue \<open>q\<close>. Every entry of a queue belongs to a sleeping
  process of its own.\<close>

definition wq_ok :: "(nat \<Rightarrow> 32 word) \<Rightarrow> 'a sync_scheme \<Rightarrow> bool" where
  "wq_ok ty s \<longleftrightarrow> (\<forall>q. distinct (wqs s q)) \<and>
     (\<forall>q. \<forall>w \<in> set (wqs s q). wait_linked (waits s w) \<and> wait_queue (waits s w) = q \<and>
        (\<exists>p. wproc (waits s w) = Some p \<and> pstate (procs s p) = PROC_SLEEPING \<and> wait_state (procs s p) = ty q)) \<and>
     (\<forall>q q'. \<forall>w \<in> set (wqs s q). \<forall>w' \<in> set (wqs s q'). wproc (waits s w) = wproc (waits s w') \<longrightarrow> w = w')"

lemma wq_okD:
  assumes "wq_ok ty s"
  shows "distinct (wqs s q)"
    and "w \<in> set (wqs s q) \<Longrightarrow> wait_linked (waits s w)" and "w \<in> set (wqs s q) \<Longrightarrow> wait_queue (waits s w) = q"
    and "w \<in> set (wqs s q) \<Longrightarrow> \<exists>p. wproc (waits s w) = Some p \<and> pstate (procs s p) = PROC_SLEEPING \<and> wait_state (procs s p) = ty q"
    and "w \<in> set (wqs s q) \<Longrightarrow> w' \<in> set (wqs s q') \<Longrightarrow> wproc (waits s w) = wproc (waits s w') \<Longrightarrow> w = w'"
  using assms unfolding wq_ok_def by blast+

definition sync_ok :: "(nat \<Rightarrow> 32 word) \<Rightarrow> 'a sync_scheme \<Rightarrow> bool" where
  "sync_ok ty s \<longleftrightarrow> sched_ok s \<and> wq_ok ty s"

lemma sync_more:
  assumes "kstate.more s' = kstate.more (s :: 'a sync_scheme)"
  shows "timer_list s' = timer_list s" "timers s' = timers s" "proc_list s' = proc_list s" "hash_list s' = hash_list s"
    "nr_process s' = nr_process s" "last_pid s' = last_pid s" "next_safe s' = next_safe s"
    "waits s' = waits s" "wqs s' = wqs s" "sem_value s' = sem_value s" "sync.more s' = sync.more s"
  using assms by (cases s; cases s'; simp)+

lemma upd_sync [simp]:
  "waits (upd p f s) = waits s" "wqs (upd p f s) = wqs s" "sem_value (upd p f s) = sem_value s" "sync.more (upd p f s) = sync.more s"
  by (simp_all add: upd_def)

lemma upd_wait_simps [simp]:
  "procs (upd_wait w f s) = procs s" "nodes (upd_wait w f s) = nodes s" "rq (upd_wait w f s) = rq s" "current (upd_wait w f s) = current s"
  "idleproc (upd_wait w f s) = idleproc s" "wqs (upd_wait w f s) = wqs s" "sem_value (upd_wait w f s) = sem_value s"
  "waits (upd_wait w f s) v = (if v = w then f (waits s w) else waits s v)"
  by (simp_all add: upd_wait_def)

text \<open>Scheduling does not read the synchronisation state.\<close>

lemma sched_ok_cong:
  assumes "procs s' = procs s" "nodes s' = nodes s" "rq s' = rq s" "current s' = current s" "idleproc s' = idleproc s"
  shows "sched_ok s' = sched_ok s" "runnable s' = runnable s"
  using assms by (simp_all add: sched_ok_def sched_at_def rq_ok_def runnable_def)

text \<open>The running process may change its own members, apart from those of the run queue.\<close>

lemma sched_ok_current:
  assumes "sched_ok s" "\<And>x. on_rq (f x) = on_rq x \<and> time_slice (f x) = time_slice x"
  shows "sched_ok (upd (current s) f s)"
proof -
  obtain t where t: "sched_at t s" using assms(1) by (auto simp: sched_ok_def)
  have "rq_ok t s" using t by (simp add: sched_at_def)
  then have "rq_ok t (upd (current s) f s)" using rq_ok_cong[of t s "upd (current s) f s"] assms(2) by simp
  moreover have "runnable (upd (current s) f s) - {current s} = runnable s - {current s}" by (auto simp: runnable_def)
  ultimately have "sched_at t (upd (current s) f s)" using t assms(2) by (simp add: sched_at_def)
  then show ?thesis by (auto simp: sched_ok_def)
qed

lemma wq_ok_core:
  assumes "wq_ok ty s" "wqs s' = wqs s" "waits s' = waits s" "\<And>p. core (procs s' p) = core (procs s p)"
  shows "wq_ok ty s'"
  using assms core_eqD(1,12)[OF assms(4)] unfolding wq_ok_def by simp

lemma wakeup_wait_ok:
  assumes ok: "sync_ok ty s" and q: "wqs s q = w # ws" and p: "wproc (waits s w) = Some p"
  shows "\<exists>s'. wakeup_wait q w fl True s = Some s' \<and> sync_ok ty s' \<and> wqs s' = (wqs s)(q := ws) \<and> sem_value s' = sem_value s \<and>
    waits s' = (waits s)(w := (waits s w)\<lparr>wait_linked := False, wakeup_flags := fl\<rparr>) \<and> current s' = current s \<and>
    (\<forall>x. core (procs s' x) = core (if x = p then woken (procs s p) else procs s x)) \<and> idleproc s' = idleproc s"
proof -
  have wq: "wq_ok ty s" and sc: "sched_ok s" using ok by (auto simp: sync_ok_def)
  have w: "w \<in> set (wqs s q)" using q by simp
  define s1 where "s1 = upd_wait w (\<lambda>x. x\<lparr>wakeup_flags := fl\<rparr>) ((upd_wait w (\<lambda>x. x\<lparr>wait_linked := False\<rparr>) s)\<lparr>wqs := (wqs s)(q := ws)\<rparr>)"
  have s1: "procs s1 = procs s" "nodes s1 = nodes s" "rq s1 = rq s" "current s1 = current s" "idleproc s1 = idleproc s"
    "waits s1 = (waits s)(w := (waits s w)\<lparr>wait_linked := False, wakeup_flags := fl\<rparr>)" "wqs s1 = (wqs s)(q := ws)" "sem_value s1 = sem_value s"
    by (simp_all add: s1_def fun_eq_iff)
  have e: "wakeup_wait q w fl True s = wakeup_proc p s1"
    using wq_okD(2,3)[OF wq w] p q by (simp add: wakeup_wait_def wait_queue_del_def s1_def)
  have sl: "pstate (procs s p) = PROC_SLEEPING" using wq_okD(4)[OF wq w] p by auto
  obtain s' where s': "wakeup_proc p s1 = Some s'" "sched_ok s'" "sched_frame s1 s'" "current s' = current s1"
    "\<forall>x. core (procs s' x) = core (if x = p then woken (procs s1 p) else procs s1 x)"
    using wakeup_any[of s1 p] sched_ok_cong(1)[OF s1(1-5)] sc sl s1(1) by auto
  note m = sync_more[OF s'(3)[unfolded sched_frame_def, THEN conjunct2, THEN conjunct2, THEN conjunct2]]
  have mem: "v \<in> set (wqs s' r) \<Longrightarrow> v \<in> set (wqs s r) \<and> v \<noteq> w" for v r
    using wq_okD(1)[OF wq, of q] wq_okD(3)[OF wq w] wq_okD(3)[OF wq, of v r] q by (auto simp: m s1 split: if_splits)
  have "wq_ok ty s'" unfolding wq_ok_def
  proof (intro conjI allI ballI impI)
    show "distinct (wqs s' r)" for r using wq_okD(1)[OF wq, of r] wq_okD(1)[OF wq, of q] q by (auto simp: m s1)
    fix r v assume v: "v \<in> set (wqs s' r)"
    note v' = mem[OF v]
    show "wait_linked (waits s' v)" "wait_queue (waits s' v) = r" using v' wq_okD(2,3)[OF wq, of v r] by (auto simp: m s1)
    obtain y where y: "wproc (waits s v) = Some y" "pstate (procs s y) = PROC_SLEEPING" "wait_state (procs s y) = ty r"
      using wq_okD(4)[OF wq, of v r] v' by auto
    have "y \<noteq> p" using wq_okD(5)[OF wq, of v r w q] v' w y(1) p by auto
    then have "core (procs s' y) = core (procs s y)" using s'(5) s1(1) by simp
    then show "\<exists>p. wproc (waits s' v) = Some p \<and> pstate (procs s' p) = PROC_SLEEPING \<and> wait_state (procs s' p) = ty r"
      using y v' core_eqD(1,12)[of "procs s' y" "procs s y"] by (auto simp: m s1)
    fix r' v2 assume v2: "v2 \<in> set (wqs s' r')" "wproc (waits s' v) = wproc (waits s' v2)"
    show "v = v2" using wq_okD(5)[OF wq, of v r v2 r'] v' mem[OF v2(1)] v2(2) by (auto simp: m s1)
  qed
  then show ?thesis using e s' m s1 by (auto simp: sync_ok_def sched_frame_def)
qed

lemma schedule_any:
  assumes "sched_ok s"
  shows "\<exists>s' p. schedule s = Some s' \<and> sched_ok s' \<and> switched s p s' \<and> p \<in> insert (idleproc s) (runnable s)"
proof -
  obtain t where t: "sched_at t s" using assms by (auto simp: sched_ok_def)
  obtain s' p t' where "schedule s = Some s'" "sched_at t' s'" "switched s p s'"
    "if runnable s = {} then p = idleproc s else p \<in> runnable s \<and> 0 < time_slice (procs s' p)"
    using schedule_step[OF t] by blast
  then show ?thesis unfolding sched_ok_def by (intro exI[of _ s'] exI[of _ p]) (auto split: if_splits)
qed

lemma wakeup_del_loop_ok:
  assumes "sync_ok ty s"
  shows "\<exists>s'. wakeup_del_loop q fl s = Some s' \<and> sync_ok ty s' \<and> wqs s' = (wqs s)(q := []) \<and> sem_value s' = sem_value s \<and>
    current s' = current s \<and> idleproc s' = idleproc s \<and>
    (\<forall>v. waits s' v = (if v \<in> set (wqs s q) then (waits s v)\<lparr>wait_linked := False, wakeup_flags := fl\<rparr> else waits s v)) \<and>
    (\<forall>x. core (procs s' x) = core (if Some x \<in> (\<lambda>w. wproc (waits s w)) ` set (wqs s q) then woken (procs s x) else procs s x))"
  using assms
proof (induction "wqs s q" arbitrary: s)
  case Nil
  then show ?case by (intro exI[of _ s]) (subst wakeup_del_loop.simps, simp add: wait_queue_first_def fun_eq_iff)
next
  case step: (Cons w ws)
  note q = step.hyps(2)[symmetric]
  have wq: "wq_ok ty s" using step.prems by (simp add: sync_ok_def)
  obtain p where p: "wproc (waits s w) = Some p" using wq_okD(4)[OF wq, of w q] q by auto
  from wakeup_wait_ok[OF step.prems q p, of fl] obtain s1 where s1: "wakeup_wait q w fl True s = Some s1" "sync_ok ty s1"
    "wqs s1 = (wqs s)(q := ws)" "sem_value s1 = sem_value s"
    "waits s1 = (waits s)(w := (waits s w)\<lparr>wait_linked := False, wakeup_flags := fl\<rparr>)" "current s1 = current s"
    "\<forall>x. core (procs s1 x) = core (if x = p then woken (procs s p) else procs s x)" "idleproc s1 = idleproc s" by blast
  have d: "w \<notin> set ws" using wq_okD(1)[OF wq, of q] q by simp
  have pd: "Some p \<notin> (\<lambda>v. wproc (waits s v)) ` set ws" using wq_okD(5)[OF wq, of w q _ q] q p d by (auto simp: image_iff)
  have im: "(\<lambda>v. wproc (waits s1 v)) ` set ws = (\<lambda>v. wproc (waits s v)) ` set ws" using d by (auto simp: s1(5) image_iff)
  from step.hyps(1)[of s1, OF _ s1(2)] obtain s' where s': "wakeup_del_loop q fl s1 = Some s'" "sync_ok ty s'" "wqs s' = (wqs s1)(q := [])"
    "sem_value s' = sem_value s1" "current s' = current s1" "idleproc s' = idleproc s1"
    "\<forall>v. waits s' v = (if v \<in> set (wqs s1 q) then (waits s1 v)\<lparr>wait_linked := False, wakeup_flags := fl\<rparr> else waits s1 v)"
    "\<forall>x. core (procs s' x) = core (if Some x \<in> (\<lambda>w. wproc (waits s1 w)) ` set (wqs s1 q) then woken (procs s1 x) else procs s1 x)"
    using s1(3) by auto
  have qs: "wqs s1 q = ws" using s1(3) by simp
  have "wakeup_del_loop q fl s = Some s'"
    using s1(1) s'(1) q by (subst wakeup_del_loop.simps) (simp add: wait_queue_first_def)
  moreover have "waits s' v = (if v \<in> set (wqs s q) then (waits s v)\<lparr>wait_linked := False, wakeup_flags := fl\<rparr> else waits s v)" for v
    using s'(7) d unfolding qs q by (simp add: s1(5))
  moreover have "core (procs s' x) = core (if Some x \<in> (\<lambda>w. wproc (waits s w)) ` set (wqs s q) then woken (procs s x) else procs s x)" for x
  proof (cases "x = p")
    case True
    then show ?thesis using s'(8) s1(7) pd p q unfolding qs im by simp
  next
    case False
    then have "Some x \<in> (\<lambda>w. wproc (waits s w)) ` set (wqs s q) \<longleftrightarrow> Some x \<in> (\<lambda>v. wproc (waits s v)) ` set ws"
      using q p by simp
    then show ?thesis using s'(8) s1(7) False woken_core[of "procs s1 x" "procs s x"] unfolding qs im by simp
  qed
  ultimately show ?case using s' s1(3,4,6,8) by simp
qed

subsection \<open>The abstract semaphore\<close>

text \<open>A counter and the processes waiting for it, in order of arrival.\<close>

type_synonym asem = "int \<times> pptr list"

definition sem_down :: "pptr \<Rightarrow> asem \<Rightarrow> bool \<times> asem" where
  "sem_down p a = (if fst a > 0 then (True, fst a - 1, snd a) else (False, fst a, snd a @ [p]))"

definition sem_up :: "asem \<Rightarrow> pptr option \<times> asem" where
  "sem_up a = (case snd a of [] \<Rightarrow> (None, fst a + 1, []) | p # ps \<Rightarrow> (Some p, fst a, ps))"

definition sem_abs :: "nat \<Rightarrow> 'a sync_scheme \<Rightarrow> asem" where
  "sem_abs q s = (sem_value s q, map (\<lambda>w. the (wproc (waits s w))) (wqs s q))"

lemma up_refines:
  assumes ok: "sync_ok ty s" and ks: "ty q = WT_KSEM"
  shows "\<exists>s'. up q s = Some s' \<and> sync_ok ty s' \<and> sem_abs q s' = snd (sem_up (sem_abs q s)) \<and>
    (\<forall>r. r \<noteq> q \<longrightarrow> sem_abs r s' = sem_abs r s) \<and> current s' = current s \<and> idleproc s' = idleproc s \<and>
    (\<forall>x. core (procs s' x) = core (if Some x = fst (sem_up (sem_abs q s)) then woken (procs s x) else procs s x)) \<and>
    (\<forall>w ws. wqs s q = w # ws \<longrightarrow> down_return q w s' = Some s')"
proof (cases "wqs s q")
  case Nil
  let ?s = "s\<lparr>sem_value := (sem_value s)(q := sem_value s q + 1)\<rparr>"
  have "up q s = Some ?s" using Nil by (simp add: up_def up_ws_def wait_queue_first_def)
  moreover have "sync_ok ty ?s" using ok sched_ok_cong(1)[of ?s s] by (simp add: sync_ok_def wq_ok_def)
  ultimately show ?thesis using Nil by (intro exI[of _ ?s]) (simp add: sem_abs_def sem_up_def)
next
  case (Cons w ws)
  have wq: "wq_ok ty s" using ok by (simp add: sync_ok_def)
  obtain p where p: "wproc (waits s w) = Some p" "wait_state (procs s p) = WT_KSEM"
    using wq_okD(4)[OF wq, of w q] Cons ks by auto
  from wakeup_wait_ok[OF ok Cons p(1), of WT_KSEM] obtain s' where s': "wakeup_wait q w WT_KSEM True s = Some s'" "sync_ok ty s'"
    "wqs s' = (wqs s)(q := ws)" "sem_value s' = sem_value s"
    "waits s' = (waits s)(w := (waits s w)\<lparr>wait_linked := False, wakeup_flags := WT_KSEM\<rparr>)" "current s' = current s"
    "\<forall>x. core (procs s' x) = core (if x = p then woken (procs s p) else procs s x)" "idleproc s' = idleproc s" by blast
  have m: "map (\<lambda>w. the (wproc (waits s' w))) xs = map (\<lambda>w. the (wproc (waits s w))) xs" for xs by (simp add: s'(5))
  have "up q s = Some s'" using Cons p s'(1) by (simp add: up_def up_ws_def wait_queue_first_def)
  moreover have "sem_up (sem_abs q s) = (Some p, sem_value s q, map (\<lambda>w. the (wproc (waits s w))) ws)"
    using Cons p by (simp add: sem_up_def sem_abs_def)
  moreover have "sem_abs q s' = (sem_value s q, map (\<lambda>w. the (wproc (waits s w))) ws)" "\<forall>r. r \<noteq> q \<longrightarrow> sem_abs r s' = sem_abs r s"
    unfolding sem_abs_def m by (simp_all add: s'(3,4))
  moreover have "down_return q w s' = Some s'"
    by (simp add: down_return_def down_resume_def wait_current_del_def wait_in_queue_def s'(5))
  ultimately show ?thesis using s' Cons by (intro exI[of _ s']) auto
qed

text \<open>Queueing the running process keeps the state consistent.\<close>

lemma wait_current_set_ok:
  assumes ok: "sync_ok ty s" and ks: "ty q = ws" and cur: "pstate (procs s (current s)) = PROC_RUNNABLE" and w: "\<forall>r. w \<notin> set (wqs s r)"
  shows "\<exists>s1. wait_current_set q w ws s = Some s1 \<and> sync_ok ty s1 \<and>
    procs s1 = (procs s)(current s := (procs s (current s))\<lparr>pstate := PROC_SLEEPING, wait_state := ws\<rparr>) \<and>
    current s1 = current s \<and> idleproc s1 = idleproc s \<and> wqs s1 = (wqs s)(q := wqs s q @ [w]) \<and> sem_value s1 = sem_value s \<and>
    waits s1 = (waits s)(w := (waits s w)\<lparr>wproc := Some (current s), wakeup_flags := WT_INTERRUPTED, wait_queue := q, wait_linked := True\<rparr>)"
proof -
  have wq: "wq_ok ty s" and sc: "sched_ok s" using ok by (auto simp: sync_ok_def)
  define p where "p = current s"
  define s0 where "s0 = upd p (\<lambda>x. x\<lparr>pstate := PROC_SLEEPING, wait_state := ws\<rparr>) s"
  define s1 where "s1 = (upd_wait w (\<lambda>x. x\<lparr>wproc := Some p, wakeup_flags := WT_INTERRUPTED, wait_queue := q, wait_linked := True\<rparr>) s0)
    \<lparr>wqs := (wqs s)(q := wqs s q @ [w])\<rparr>"
  have s1: "procs s1 = procs s0" "nodes s1 = nodes s0" "rq s1 = rq s0" "current s1 = current s0" "idleproc s1 = idleproc s0"
    "wqs s1 = (wqs s)(q := wqs s q @ [w])" "sem_value s1 = sem_value s"
    "\<And>v. waits s1 v = (if v = w then (waits s w)\<lparr>wproc := Some p, wakeup_flags := WT_INTERRUPTED, wait_queue := q, wait_linked := True\<rparr> else waits s v)"
    by (simp_all add: s1_def s0_def)
  have set: "wait_current_set q w ws s = Some s1"
    by (simp add: wait_current_set_def wait_init_def wait_queue_add_def s1_def s0_def p_def upd_def upd_wait_def)
  have "sched_ok s0" unfolding s0_def p_def by (rule sched_ok_current[OF sc]) simp
  then have sc1: "sched_ok s1" using sched_ok_cong(1)[OF s1(1-5)] by simp
  have np: "wproc (waits s v) \<noteq> Some p" if "v \<in> set (wqs s r)" for v r
    using wq_okD(4)[OF wq that] cur by (auto simp: p_def)
  have wq1: "wq_ok ty s1" unfolding wq_ok_def
  proof (intro conjI allI ballI impI)
    show "distinct (wqs s1 r)" for r using wq_okD(1)[OF wq] w by (simp add: s1)
    have mem: "v \<in> set (wqs s1 r) \<longleftrightarrow> v \<in> set (wqs s r) \<or> v = w \<and> r = q" for v r by (auto simp: s1)
    fix r v assume v: "v \<in> set (wqs s1 r)"
    have c: "v \<noteq> w \<and> v \<in> set (wqs s r) \<or> v = w \<and> r = q" using v w mem by blast
    show "wait_linked (waits s1 v)" "wait_queue (waits s1 v) = r" using c wq_okD(2,3)[OF wq, of v r] by (auto simp: s1)
    show "\<exists>p. wproc (waits s1 v) = Some p \<and> pstate (procs s1 p) = PROC_SLEEPING \<and> wait_state (procs s1 p) = ty r"
      using c wq_okD(4)[OF wq, of v r] np[of v r] ks by (auto simp: s1 s0_def)
    fix r' v' assume v': "v' \<in> set (wqs s1 r')" "wproc (waits s1 v) = wproc (waits s1 v')"
    then have c': "v' \<noteq> w \<and> v' \<in> set (wqs s r') \<or> v' = w \<and> r' = q" using w mem by blast
    show "v = v'" using c c' v'(2) np[of v r] np[of v' r'] wq_okD(5)[OF wq, of v r v' r'] by (auto simp: s1)
  qed
  have "procs s1 = (procs s)(p := (procs s p)\<lparr>pstate := PROC_SLEEPING, wait_state := ws\<rparr>)" by (simp add: s1 s0_def fun_eq_iff)
  then show ?thesis using set wq1 sc1 s1 by (auto simp: sync_ok_def p_def s0_def fun_eq_iff)
qed

lemma down_refines:
  assumes ok: "sync_ok ty s" and ks: "ty q = WT_KSEM" and cur: "pstate (procs s (current s)) = PROC_RUNNABLE" and w: "\<forall>r. w \<notin> set (wqs s r)"
  shows "\<exists>b s'. down q w s = Some (b, s') \<and> sync_ok ty s' \<and> (b, sem_abs q s') = sem_down (current s) (sem_abs q s) \<and>
    (\<forall>r. r \<noteq> q \<longrightarrow> sem_abs r s' = sem_abs r s) \<and> idleproc s' = idleproc s \<and>
    (\<forall>x. core (procs s' x) = core (if \<not> b \<and> x = current s then (procs s x)\<lparr>pstate := PROC_SLEEPING, wait_state := WT_KSEM\<rparr> else procs s x)) \<and>
    (if b then current s' = current s else current s' \<in> insert (idleproc s) (runnable s'))"
proof (cases "sem_value s q > 0")
  case True
  let ?s = "s\<lparr>sem_value := (sem_value s)(q := sem_value s q - 1)\<rparr>"
  have "down q w s = Some (True, ?s)" using True by (simp add: down_def down_enter_def)
  moreover have "sync_ok ty ?s" using ok sched_ok_cong(1)[of ?s s] by (simp add: sync_ok_def wq_ok_def)
  ultimately show ?thesis using True by (intro exI[of _ True] exI[of _ ?s]) (simp add: sem_abs_def sem_down_def)
next
  case False
  obtain s1 where s1: "wait_current_set q w WT_KSEM s = Some s1" "sync_ok ty s1"
    "procs s1 = (procs s)(current s := (procs s (current s))\<lparr>pstate := PROC_SLEEPING, wait_state := WT_KSEM\<rparr>)"
    "current s1 = current s" "idleproc s1 = idleproc s" "wqs s1 = (wqs s)(q := wqs s q @ [w])" "sem_value s1 = sem_value s"
    "waits s1 = (waits s)(w := (waits s w)\<lparr>wproc := Some (current s), wakeup_flags := WT_INTERRUPTED, wait_queue := q, wait_linked := True\<rparr>)"
    using wait_current_set_ok[OF ok ks cur w] by auto
  have sc1: "sched_ok s1" and wq1: "wq_ok ty s1" using s1(2) by (auto simp: sync_ok_def)
  obtain s' n where s': "schedule s1 = Some s'" "sched_ok s'" "switched s1 n s'" "n \<in> insert (idleproc s1) (runnable s1)"
    using schedule_any[OF sc1] by blast
  have fr: "sched_frame s1 s'" "\<forall>x. core (procs s' x) = core (procs s1 x)" "current s' = n" using s'(3) by (auto simp: switched_def)
  have more: "kstate.more s' = kstate.more s1" "idleproc s' = idleproc s1" using fr(1) by (auto simp: sched_frame_def)
  note m = sync_more(8-10)[OF more(1)]
  have "down q w s = Some (False, s')" using False s1(1) s'(1) by (simp add: down_def down_enter_def)
  moreover have "sync_ok ty s'" using wq_ok_core[OF wq1, of s'] m fr(2) s'(2) by (simp add: sync_ok_def)
  moreover have "sem_abs q s' = (sem_value s q, map (\<lambda>w. the (wproc (waits s w))) (wqs s q) @ [current s])"
    using w by (auto simp: sem_abs_def m s1)
  moreover have "sem_abs r s' = sem_abs r s" if "r \<noteq> q" for r using w that by (auto simp: sem_abs_def m s1)
  moreover have "core (procs s' x) = core (if x = current s then (procs s x)\<lparr>pstate := PROC_SLEEPING, wait_state := WT_KSEM\<rparr> else procs s x)" for x
    using fr(2) by (simp add: s1)
  moreover have "current s' \<in> insert (idleproc s) (runnable s')"
    using s'(4) fr(3) switched_runnable[OF s'(3)] by (simp add: s1)
  moreover have "sem_down (current s) (sem_abs q s) = (False, sem_value s q, map (\<lambda>w. the (wproc (waits s w))) (wqs s q) @ [current s])"
    using False by (simp add: sem_down_def sem_abs_def)
  ultimately show ?thesis using more(2) by (intro exI[of _ False] exI[of _ s']) (simp add: s1)
qed

text \<open>C26: \<^verbatim>\<open>up\<close> and \<^verbatim>\<open>down\<close> implement the abstract semaphore, a counter with a first-in first-out queue of
  processes. Neither panics in a consistent state. \<^verbatim>\<open>up\<close> hands the unit to the first waiter without touching the
  counter, makes exactly this process runnable, and the second half of its \<^verbatim>\<open>down\<close> then returns normally; with
  no waiter the counter grows. \<^verbatim>\<open>down\<close> takes a unit when there is one and otherwise queues the caller behind all
  others, puts it to sleep and switches to another process. Other semaphores and processes are not affected.\<close>

theorem semaphore_refines:
  assumes "sync_ok ty s" "ty q = WT_KSEM"
  shows "(\<exists>s'. up q s = Some s' \<and> sync_ok ty s' \<and> sem_abs q s' = snd (sem_up (sem_abs q s)) \<and>
      (\<forall>r. r \<noteq> q \<longrightarrow> sem_abs r s' = sem_abs r s) \<and> current s' = current s \<and> idleproc s' = idleproc s \<and>
      (\<forall>x. core (procs s' x) = core (if Some x = fst (sem_up (sem_abs q s)) then woken (procs s x) else procs s x)) \<and>
      (\<forall>w ws. wqs s q = w # ws \<longrightarrow> down_return q w s' = Some s')) \<and>
    (\<forall>w. pstate (procs s (current s)) = PROC_RUNNABLE \<longrightarrow> (\<forall>r. w \<notin> set (wqs s r)) \<longrightarrow>
     (\<exists>b s'. down q w s = Some (b, s') \<and> sync_ok ty s' \<and> (b, sem_abs q s') = sem_down (current s) (sem_abs q s) \<and>
      (\<forall>r. r \<noteq> q \<longrightarrow> sem_abs r s' = sem_abs r s) \<and> idleproc s' = idleproc s \<and>
      (\<forall>x. core (procs s' x) = core (if \<not> b \<and> x = current s then (procs s x)\<lparr>pstate := PROC_SLEEPING, wait_state := WT_KSEM\<rparr> else procs s x)) \<and>
      (if b then current s' = current s else current s' \<in> insert (idleproc s) (runnable s'))))"
  using up_refines[OF assms] down_refines[OF assms] by blast

text \<open>A state in which process 3 waits for semaphore 0.\<close>

definition sample_sync :: sync where
  "sample_sync = kernel.extend (sample_kernel\<lparr>procs := sample_kprocs(3 := (sample_kprocs 3)\<lparr>wait_state := WT_KSEM\<rparr>)\<rparr>)
     (sync.fields (\<lambda>_. \<lparr>wproc = Some 3, wakeup_flags = 0, wait_queue = 0, wait_linked = True\<rparr>) (\<lambda>q. if q = 0 then [7] else []) (\<lambda>_. 0))"

lemma sample_sync_simps [simp]:
  "procs sample_sync = sample_kprocs(3 := (sample_kprocs 3)\<lparr>wait_state := WT_KSEM\<rparr>)" "nodes sample_sync = nodes sample_k"
  "rq sample_sync = rq sample_k" "current sample_sync = 1" "idleproc sample_sync = 0"
  "waits sample_sync = (\<lambda>_. \<lparr>wproc = Some 3, wakeup_flags = 0, wait_queue = 0, wait_linked = True\<rparr>)"
  "wqs sample_sync = (\<lambda>q. if q = 0 then [7] else [])" "sem_value sample_sync = (\<lambda>_. 0)"
  by (simp_all add: sample_sync_def sample_kernel_def sample_t_def sample_k_def kstate.defs tstate.defs kernel.defs sync.defs)

lemma sample_sync_ok: "sync_ok (\<lambda>_. WT_KSEM) sample_sync"
proof -
  have "runnable sample_sync = {1, 2}"
    by (auto simp: runnable_def sample_kprocs_def sample_procs_def blank_proc_def)
  then have "sched_at (Node Leaf 2 Leaf) sample_sync" using sample_k_at
    by (auto simp: sched_at_def rq_ok_def sample_k_def sample_kprocs_def sample_procs_def blank_proc_def)
  moreover have "wq_ok (\<lambda>_. WT_KSEM) sample_sync"
    by (simp add: wq_ok_def sample_kprocs_def sample_procs_def blank_proc_def)
  ultimately show ?thesis unfolding sync_ok_def sched_ok_def by blast
qed

theorem semaphore_refines_witness:
  "(\<exists>s'. up 0 sample_sync = Some s' \<and> sem_abs 0 s' = (0, [])) \<and>
   (\<exists>s'. down 0 8 sample_sync = Some (False, s') \<and> sem_abs 0 s' = (0, [3, 1]))"
proof -
  have a: "sem_abs 0 sample_sync = (0, [3])" by (simp add: sem_abs_def)
  have c: "pstate (procs sample_sync (current sample_sync)) = PROC_RUNNABLE" "\<forall>r. 8 \<notin> set (wqs sample_sync r)"
    by (simp_all add: sample_kprocs_def sample_procs_def)
  note r = semaphore_refines[OF sample_sync_ok refl, of 0]
  obtain b s' where "down 0 8 sample_sync = Some (b, s')" "(b, sem_abs 0 s') = sem_down 1 (0, [3])"
    using r[THEN conjunct2, rule_format, OF c(1), of 8] c(2) unfolding a by auto
  then have "\<exists>s'. down 0 8 sample_sync = Some (False, s') \<and> sem_abs 0 s' = (0, [3, 1])" by (simp add: sem_down_def)
  moreover have "\<exists>s'. up 0 sample_sync = Some s' \<and> sem_abs 0 s' = (0, [])"
    using r[THEN conjunct1] unfolding a by (auto simp: sem_up_def)
  ultimately show ?thesis by blast
qed

end
