(* ===== verification/Philosophers.thy ===== *)
theory Philosophers
  imports Sync
begin

text \<open>
  The semaphore half of \<^verbatim>\<open>src/kern/sync/check_sync.c\<close>: five kernel threads, the dining philosophers, over the
  abstract semaphores that theory \<open>Sync\<close> shows \<^verbatim>\<open>up\<close> and \<^verbatim>\<open>down\<close> to implement. A state has the arrays
  \<^verbatim>\<open>state_sema\<close> and \<^verbatim>\<open>s\<close>, the semaphore \<^verbatim>\<open>mutex\<close>, and for every thread its place in the program and
  its loop counter. Each statement of the program is a step, and any thread that is not waiting may take the next
  one, which includes every order the scheduler can choose. \<^verbatim>\<open>do_sleep\<close> and printing are steps without effect.
\<close>

definition N :: nat where "N = 5"
definition TIMES :: nat where "TIMES = 4"
definition LEFT :: "nat \<Rightarrow> nat" where "LEFT i = (i + N - 1) mod N"
definition RIGHT :: "nat \<Rightarrow> nat" where "RIGHT i = (i + 1) mod N"

datatype pstat = THINKING | HUNGRY | EATING

text \<open>The statement a thread executes next: the loop test, those of \<^verbatim>\<open>phi_take_forks_sema\<close>, eating, those of
  \<^verbatim>\<open>phi_put_forks_sema\<close>, and the end of the thread.\<close>

datatype loc = Loop | T_down | T_hungry | T_test | T_up | T_down_s | Eat | P_down | P_think | P_left | P_right | P_up | Quit

fun nxt :: "loc \<Rightarrow> loc" where
  "nxt Loop = T_down" | "nxt T_down = T_hungry" | "nxt T_hungry = T_test" | "nxt T_test = T_up" | "nxt T_up = T_down_s"
| "nxt T_down_s = Eat" | "nxt Eat = P_down" | "nxt P_down = P_think" | "nxt P_think = P_left" | "nxt P_left = P_right"
| "nxt P_right = P_up" | "nxt P_up = Loop" | "nxt Quit = Quit"

record phil =
  state_sema :: "nat \<Rightarrow> pstat"
  mutex :: asem
  sem_s :: "nat \<Rightarrow> asem"
  pc :: "nat \<Rightarrow> loc"
  iter :: "nat \<Rightarrow> nat"

definition advance :: "nat \<Rightarrow> phil \<Rightarrow> phil" where
  "advance i c = c\<lparr>pc := (pc c)(i := nxt (pc c i))\<rparr>"

definition set_state :: "nat \<Rightarrow> pstat \<Rightarrow> phil \<Rightarrow> phil" where
  "set_state i v c = c\<lparr>state_sema := (state_sema c)(i := v)\<rparr>"

text \<open>A thread that \<^verbatim>\<open>down\<close> lets pass goes on at once, one that it queued when \<^verbatim>\<open>up\<close> wakes it.\<close>

definition down_mutex :: "nat \<Rightarrow> phil \<Rightarrow> phil" where
  "down_mutex i c = (case sem_down i (mutex c) of (b, a) \<Rightarrow> let c = c\<lparr>mutex := a\<rparr> in if b then advance i c else c)"

definition wake :: "nat option \<Rightarrow> phil \<Rightarrow> phil" where
  "wake w c = (case w of None \<Rightarrow> c | Some j \<Rightarrow> advance j c)"

definition up_mutex :: "phil \<Rightarrow> phil" where
  "up_mutex c = (case sem_up (mutex c) of (w, a) \<Rightarrow> wake w (c\<lparr>mutex := a\<rparr>))"

definition down_s :: "nat \<Rightarrow> phil \<Rightarrow> phil" where
  "down_s i c = (case sem_down i (sem_s c i) of (b, a) \<Rightarrow> let c = c\<lparr>sem_s := (sem_s c)(i := a)\<rparr> in if b then advance i c else c)"

definition up_s :: "nat \<Rightarrow> phil \<Rightarrow> phil" where
  "up_s k c = (case sem_up (sem_s c k) of (w, a) \<Rightarrow> wake w (c\<lparr>sem_s := (sem_s c)(k := a)\<rparr>))"

definition phi_test_sema :: "nat \<Rightarrow> phil \<Rightarrow> phil" where
  "phi_test_sema i c =
     (if state_sema c i = HUNGRY \<and> state_sema c (LEFT i) \<noteq> EATING \<and> state_sema c (RIGHT i) \<noteq> EATING
      then up_s i (set_state i EATING c) else c)"

text \<open>One statement of \<^verbatim>\<open>philosopher_using_semaphore\<close> and the functions it calls.\<close>

definition phil_step :: "nat \<Rightarrow> phil \<Rightarrow> phil" where
  "phil_step i c = (case pc c i of
       Loop \<Rightarrow> if iter c i < TIMES then advance i (c\<lparr>iter := (iter c)(i := iter c i + 1)\<rparr>) else c\<lparr>pc := (pc c)(i := Quit)\<rparr>
     | T_down \<Rightarrow> down_mutex i c
     | T_hungry \<Rightarrow> advance i (set_state i HUNGRY c)
     | T_test \<Rightarrow> advance i (phi_test_sema i c)
     | T_up \<Rightarrow> advance i (up_mutex c)
     | T_down_s \<Rightarrow> down_s i c
     | Eat \<Rightarrow> advance i c
     | P_down \<Rightarrow> down_mutex i c
     | P_think \<Rightarrow> advance i (set_state i THINKING c)
     | P_left \<Rightarrow> advance i (phi_test_sema (LEFT i) c)
     | P_right \<Rightarrow> advance i (phi_test_sema (RIGHT i) c)
     | P_up \<Rightarrow> advance i (up_mutex c)
     | Quit \<Rightarrow> c)"

definition waiting :: "phil \<Rightarrow> nat \<Rightarrow> bool" where
  "waiting c i \<longleftrightarrow> i \<in> set (snd (mutex c)) \<or> i \<in> set (snd (sem_s c i))"

inductive pstep :: "phil \<Rightarrow> phil \<Rightarrow> bool" where
  run: "i < N \<Longrightarrow> \<not> waiting c i \<Longrightarrow> pc c i \<noteq> Quit \<Longrightarrow> pstep c (phil_step i c)"

inductive_cases pstepE: "pstep c c'"

definition phil_init :: phil where
  "phil_init = \<lparr>state_sema = \<lambda>_. THINKING, mutex = (1, []), sem_s = \<lambda>_. (0, []), pc = \<lambda>_. Loop, iter = \<lambda>_. 0\<rparr>"

inductive phil_reach :: "phil \<Rightarrow> bool" where
  start: "phil_reach phil_init"
| step: "phil_reach c \<Longrightarrow> pstep c c' \<Longrightarrow> phil_reach c'"

subsection \<open>The invariant\<close>

definition crit :: "loc \<Rightarrow> bool" where
  "crit l \<longleftrightarrow> l \<in> {T_hungry, T_test, T_up, P_think, P_left, P_right, P_up}"

definition local_ok :: "nat \<Rightarrow> pstat \<Rightarrow> loc \<Rightarrow> asem \<Rightarrow> bool" where
  "local_ok i st l a \<longleftrightarrow>
     (if l \<in> {Eat, P_down, P_think} then st = EATING \<and> a = (0, [])
      else if l = T_test then st = HUNGRY \<and> a = (0, [])
      else if l = T_up then st = HUNGRY \<and> a = (0, []) \<or> st = EATING \<and> a = (1, [])
      else if l = T_down_s then st = HUNGRY \<and> (a = (0, []) \<or> a = (0, [i])) \<or> st = EATING \<and> a = (1, [])
      else st = THINKING \<and> a = (0, []))"

definition mutex_ok :: "asem \<Rightarrow> (nat \<Rightarrow> loc) \<Rightarrow> bool" where
  "mutex_ok m l \<longleftrightarrow> (if fst m = 1 then snd m = [] \<and> (\<forall>i < N. \<not> crit (l i))
       else fst m = 0 \<and> (\<exists>h < N. crit (l h) \<and> (\<forall>i < N. crit (l i) \<longrightarrow> i = h))) \<and>
     distinct (snd m) \<and> (\<forall>i \<in> set (snd m). i < N \<and> l i \<in> {T_down, P_down})"

text \<open>A philosopher who was tested and is hungry has an eating neighbour, or a neighbour is about to test him.\<close>

definition served :: "phil \<Rightarrow> nat \<Rightarrow> bool" where
  "served c i \<longleftrightarrow> state_sema c (LEFT i) = EATING \<or> state_sema c (RIGHT i) = EATING \<or>
     pc c (LEFT i) = P_left \<or> pc c (LEFT i) = P_right \<or> pc c (RIGHT i) = P_left"

definition phil_ok :: "phil \<Rightarrow> bool" where
  "phil_ok c \<longleftrightarrow> mutex_ok (mutex c) (pc c) \<and> (\<forall>i < N. local_ok i (state_sema c i) (pc c i) (sem_s c i)) \<and>
     (\<forall>i < N. state_sema c i = EATING \<longrightarrow> state_sema c (RIGHT i) \<noteq> EATING) \<and>
     (\<forall>i < N. state_sema c i = HUNGRY \<longrightarrow> pc c i \<in> {T_up, T_down_s} \<longrightarrow> served c i)"

lemma phil_init_ok: "phil_ok phil_init"
  by (simp add: phil_ok_def phil_init_def mutex_ok_def local_ok_def crit_def)

lemma neighbours:
  assumes "i < N"
  shows "LEFT i < N" "RIGHT i < N" "LEFT (RIGHT i) = i" "RIGHT (LEFT i) = i" "LEFT i \<noteq> i" "RIGHT i \<noteq> i" "LEFT i \<noteq> RIGHT i"
proof -
  have "i \<in> {0, 1, 2, 3, 4}" using assms by (auto simp: N_def)
  then show "LEFT i < N" "RIGHT i < N" "LEFT (RIGHT i) = i" "RIGHT (LEFT i) = i" "LEFT i \<noteq> i" "RIGHT i \<noteq> i" "LEFT i \<noteq> RIGHT i"
    by (auto simp: LEFT_def RIGHT_def N_def)
qed


lemma advance_simps [simp]:
  "state_sema (advance i c) = state_sema c" "mutex (advance i c) = mutex c" "sem_s (advance i c) = sem_s c"
  "pc (advance i c) = (pc c)(i := nxt (pc c i))" "iter (advance i c) = iter c"
  by (simp_all add: advance_def)

lemma mutex_move:
  assumes "mutex_ok m l" "i \<notin> set (snd m)" "crit x = crit (l i)" shows "mutex_ok m (l(i := x))"
proof -
  have "crit ((l(i := x)) k) = crit (l k)" for k using assms(3) by simp
  moreover have "\<forall>k \<in> set (snd m). (l(i := x)) k = l k" using assms(2) by auto
  ultimately show ?thesis using assms(1) unfolding mutex_ok_def by simp
qed

lemma mutex_down_pass:
  assumes "mutex_ok m l" "fst m > 0" "l i \<in> {T_down, P_down}" "i < N"
  shows "mutex_ok (fst m - 1, snd m) (l(i := nxt (l i)))"
  using assms unfolding mutex_ok_def by (auto simp: crit_def split: if_splits)

lemma mutex_down_block:
  assumes "mutex_ok m l" "\<not> fst m > 0" "l i \<in> {T_down, P_down}" "i < N" "i \<notin> set (snd m)"
  shows "mutex_ok (fst m, snd m @ [i]) l"
  using assms unfolding mutex_ok_def by (auto split: if_splits)

lemma mutex_up_none:
  assumes "mutex_ok m l" "crit (l i)" "i < N" "snd m = []" "\<not> crit x"
  shows "mutex_ok (fst m + 1, []) (l(i := x))"
  using assms unfolding mutex_ok_def by (auto split: if_splits)

lemma mutex_up_wake:
  assumes m: "mutex_ok m l" and i: "crit (l i)" "i < N" "\<not> crit x" and q: "snd m = j # js"
  shows "mutex_ok (fst m, js) (l(j := nxt (l j), i := x))" "i \<noteq> j" "j < N" "l j \<in> {T_down, P_down}"
proof -
  show j: "j < N" "l j \<in> {T_down, P_down}" using m q unfolding mutex_ok_def by auto
  then show ij: "i \<noteq> j" using i by (auto simp: crit_def)
  have n: "\<not> crit (l j)" "crit (nxt (l j))" using j(2) by (auto simp: crit_def)
  have f: "fst m = 0" "\<forall>k < N. crit (l k) \<longrightarrow> k = i" using m q i unfolding mutex_ok_def by (auto split: if_splits)
  have d: "j \<notin> set js" "distinct js" "\<forall>k \<in> set js. k < N \<and> l k \<in> {T_down, P_down}" using m q unfolding mutex_ok_def by auto
  have e: "\<forall>k < N. crit ((l(j := nxt (l j), i := x)) k) \<longrightarrow> k = j" using f(2) i(3) by auto
  have "\<exists>h < N. crit ((l(j := nxt (l j), i := x)) h) \<and> (\<forall>k < N. crit ((l(j := nxt (l j), i := x)) k) \<longrightarrow> k = h)"
    using j(1) ij n(2) e by (intro exI[of _ j]) simp
  moreover have "\<forall>k \<in> set js. k < N \<and> (l(j := nxt (l j), i := x)) k \<in> {T_down, P_down}"
    using d i(1) by (auto simp: crit_def)
  ultimately show "mutex_ok (fst m, js) (l(j := nxt (l j), i := x))" using f(1) d(2) by (simp add: mutex_ok_def)
qed


lemma phil_okD:
  assumes "phil_ok c"
  shows "mutex_ok (mutex c) (pc c)" "i < N \<Longrightarrow> local_ok i (state_sema c i) (pc c i) (sem_s c i)"
    "i < N \<Longrightarrow> state_sema c i = EATING \<Longrightarrow> state_sema c (RIGHT i) \<noteq> EATING"
    "i < N \<Longrightarrow> state_sema c i = HUNGRY \<Longrightarrow> pc c i \<in> {T_up, T_down_s} \<Longrightarrow> served c i"
  using assms unfolding phil_ok_def by blast+

text \<open>Steps that change nothing but the place of one thread and the mutex.\<close>

lemma phil_ok_move:
  assumes ok: "phil_ok c" and st: "state_sema c' = state_sema c" "sem_s c' = sem_s c"
    and m: "mutex_ok (mutex c') (pc c')" and l: "\<And>k. k < N \<Longrightarrow> local_ok k (state_sema c k) (pc c' k) (sem_s c k)"
    and pl: "\<And>k. pc c k \<in> {P_left, P_right} \<Longrightarrow> pc c' k = pc c k"
    and th: "\<And>k. k < N \<Longrightarrow> pc c' k \<in> {T_up, T_down_s} \<Longrightarrow> pc c k \<in> {T_up, T_down_s}"
  shows "phil_ok c'"
  unfolding phil_ok_def
proof (intro conjI allI impI)
  show "mutex_ok (mutex c') (pc c')" by fact
  show "local_ok i (state_sema c' i) (pc c' i) (sem_s c' i)" if "i < N" for i using l[OF that] st by simp
  show "state_sema c' (RIGHT i) \<noteq> EATING" if "i < N" "state_sema c' i = EATING" for i
    using phil_okD(3)[OF ok that(1)] that(2) st by simp
  show "served c' i" if i: "i < N" "state_sema c' i = HUNGRY" "pc c' i \<in> {T_up, T_down_s}" for i
  proof -
    have "served c i" using phil_okD(4)[OF ok i(1)] i(2) th[OF i(1,3)] st by simp
    then show ?thesis using pl unfolding served_def st by fastforce
  qed
qed

lemma local_next:
  assumes "local_ok k st l a" "l \<in> {Loop, T_down, T_up, Eat, P_down, P_up}" shows "local_ok k st (nxt l) a"
  using assms by (auto simp: local_ok_def)

lemma step_mutex_down:
  assumes ok: "phil_ok c" and i: "i < N" "i \<notin> set (snd (mutex c))" "pc c i \<in> {T_down, P_down}"
  shows "phil_ok (down_mutex i c)"
proof (cases "fst (mutex c) > 0")
  case True
  then have e: "down_mutex i c = advance i (c\<lparr>mutex := (fst (mutex c) - 1, snd (mutex c))\<rparr>)"
    by (simp add: down_mutex_def sem_down_def)
  show ?thesis unfolding e
  proof (rule phil_ok_move[OF ok])
    show "mutex_ok (mutex (advance i (c\<lparr>mutex := (fst (mutex c) - 1, snd (mutex c))\<rparr>))) (pc (advance i (c\<lparr>mutex := (fst (mutex c) - 1, snd (mutex c))\<rparr>)))"
      using mutex_down_pass[OF phil_okD(1)[OF ok] True i(3,1)] by simp
  qed (use i phil_okD(2)[OF ok] local_next[OF phil_okD(2)[OF ok i(1)]] in \<open>auto split: if_splits\<close>)
next
  case False
  then have e: "down_mutex i c = c\<lparr>mutex := (fst (mutex c), snd (mutex c) @ [i])\<rparr>"
    by (simp add: down_mutex_def sem_down_def)
  show ?thesis unfolding e
    by (rule phil_ok_move[OF ok]) (use mutex_down_block[OF phil_okD(1)[OF ok] False i(3,1,2)] phil_okD(2)[OF ok] in auto)
qed

lemma step_mutex_up:
  assumes ok: "phil_ok c" and i: "i < N" "pc c i \<in> {T_up, P_up}"
  shows "phil_ok (advance i (up_mutex c))"
proof -
  have cr: "crit (pc c i)" "\<not> crit (nxt (pc c i))" using i(2) by (auto simp: crit_def)
  show ?thesis
  proof (cases "snd (mutex c)")
    case Nil
    then have e: "up_mutex c = c\<lparr>mutex := (fst (mutex c) + 1, [])\<rparr>" by (simp add: up_mutex_def sem_up_def wake_def)
    show ?thesis unfolding e
      by (rule phil_ok_move[OF ok])
        (use mutex_up_none[OF phil_okD(1)[OF ok] cr(1) i(1) Nil cr(2)] i phil_okD(2)[OF ok] local_next[OF phil_okD(2)[OF ok i(1)]] in \<open>auto split: if_splits\<close>)
  next
    case (Cons j js)
    note w = mutex_up_wake[OF phil_okD(1)[OF ok] cr(1) i(1) cr(2) Cons]
    have e: "up_mutex c = advance j (c\<lparr>mutex := (fst (mutex c), js)\<rparr>)" using Cons by (simp add: up_mutex_def sem_up_def wake_def)
    show ?thesis unfolding e
      by (rule phil_ok_move[OF ok])
        (use w local_next[OF phil_okD(2)[OF ok w(3)]] i phil_okD(2)[OF ok] local_next[OF phil_okD(2)[OF ok i(1)]] in \<open>auto split: if_splits\<close>)
  qed
qed

lemma phil_okI:
  assumes "mutex_ok (mutex c) (pc c)" "\<And>i. i < N \<Longrightarrow> local_ok i (state_sema c i) (pc c i) (sem_s c i)"
    "\<And>i. i < N \<Longrightarrow> state_sema c i = EATING \<Longrightarrow> state_sema c (RIGHT i) \<noteq> EATING"
    "\<And>i. i < N \<Longrightarrow> state_sema c i = HUNGRY \<Longrightarrow> pc c i \<in> {T_up, T_down_s} \<Longrightarrow> served c i"
  shows "phil_ok c"
  using assms unfolding phil_ok_def by blast

lemma nb_eq: "i < N \<Longrightarrow> k < N \<Longrightarrow> LEFT k = i \<longleftrightarrow> k = RIGHT i" "i < N \<Longrightarrow> k < N \<Longrightarrow> RIGHT k = i \<longleftrightarrow> k = LEFT i"
  using neighbours[of i] neighbours[of k] by metis+

lemma step_take_state:
  assumes ok: "phil_ok c" and i: "i < N" "i \<notin> set (snd (mutex c))" and l: "pc c i = T_hungry"
  shows "phil_ok (advance i (set_state i HUNGRY c))"
proof (rule phil_okI)
  let ?c = "advance i (set_state i HUNGRY c)"
  have lo: "state_sema c i = THINKING" "sem_s c i = (0, [])" using phil_okD(2)[OF ok i(1)] l by (simp_all add: local_ok_def)
  show "mutex_ok (mutex ?c) (pc ?c)"
    using mutex_move[OF phil_okD(1)[OF ok] i(2), of T_test] l by (simp add: set_state_def crit_def)
  show "local_ok k (state_sema ?c k) (pc ?c k) (sem_s ?c k)" if "k < N" for k
    using phil_okD(2)[OF ok that] lo l by (simp add: set_state_def local_ok_def)
  show "state_sema ?c (RIGHT k) \<noteq> EATING" if "k < N" "state_sema ?c k = EATING" for k
    using phil_okD(3)[OF ok that(1)] that(2) by (auto simp: set_state_def split: if_splits)
  show "served ?c k" if k: "k < N" "state_sema ?c k = HUNGRY" "pc ?c k \<in> {T_up, T_down_s}" for k
  proof -
    have "k \<noteq> i" using k(3) l by (auto simp: set_state_def)
    then have "served c k" using phil_okD(4)[OF ok k(1)] k(2,3) by (simp add: set_state_def)
    then show ?thesis using l lo unfolding served_def by (auto simp: set_state_def)
  qed
qed

lemma step_put_state:
  assumes ok: "phil_ok c" and i: "i < N" "i \<notin> set (snd (mutex c))" and l: "pc c i = P_think"
  shows "phil_ok (advance i (set_state i THINKING c))"
proof (rule phil_okI)
  let ?c = "advance i (set_state i THINKING c)"
  have lo: "sem_s c i = (0, [])" using phil_okD(2)[OF ok i(1)] l by (simp_all add: local_ok_def)
  show "mutex_ok (mutex ?c) (pc ?c)"
    using mutex_move[OF phil_okD(1)[OF ok] i(2), of P_left] l by (simp add: set_state_def crit_def)
  show "local_ok k (state_sema ?c k) (pc ?c k) (sem_s ?c k)" if "k < N" for k
    using phil_okD(2)[OF ok that] lo l by (simp add: set_state_def local_ok_def)
  show "state_sema ?c (RIGHT k) \<noteq> EATING" if "k < N" "state_sema ?c k = EATING" for k
    using phil_okD(3)[OF ok that(1)] that(2) by (auto simp: set_state_def split: if_splits)
  show "served ?c k" if k: "k < N" "state_sema ?c k = HUNGRY" "pc ?c k \<in> {T_up, T_down_s}" for k
  proof -
    have "k \<noteq> i" using k(2) by (auto simp: set_state_def)
    then have "served c k" using phil_okD(4)[OF ok k(1)] k(2,3) by (simp add: set_state_def)
    then show ?thesis using l unfolding served_def by (auto simp: set_state_def)
  qed
qed

lemma step_down_s:
  assumes ok: "phil_ok c" and i: "i < N" "i \<notin> set (snd (mutex c))" "i \<notin> set (snd (sem_s c i))" and l: "pc c i = T_down_s"
  shows "phil_ok (down_s i c)"
proof -
  have "state_sema c i = HUNGRY \<and> sem_s c i = (0, []) \<or> state_sema c i = EATING \<and> sem_s c i = (1, [])"
    using phil_okD(2)[OF ok i(1)] l i(3) by (auto simp: local_ok_def)
  then show ?thesis
  proof
    assume a: "state_sema c i = HUNGRY \<and> sem_s c i = (0, [])"
    then have e: "down_s i c = c\<lparr>sem_s := (sem_s c)(i := (0, [i]))\<rparr>" by (simp add: down_s_def sem_down_def)
    show ?thesis unfolding e
      by (rule phil_okI) (use phil_okD[OF ok] a l in \<open>auto simp: local_ok_def served_def\<close>)
  next
    assume a: "state_sema c i = EATING \<and> sem_s c i = (1, [])"
    then have e: "down_s i c = advance i (c\<lparr>sem_s := (sem_s c)(i := (0, []))\<rparr>)" by (simp add: down_s_def sem_down_def)
    show ?thesis unfolding e
    proof (rule phil_okI)
      show "mutex_ok (mutex (advance i (c\<lparr>sem_s := (sem_s c)(i := (0, []))\<rparr>))) (pc (advance i (c\<lparr>sem_s := (sem_s c)(i := (0, []))\<rparr>)))"
        using mutex_move[OF phil_okD(1)[OF ok] i(2), of Eat] l by (simp add: crit_def)
    qed (use phil_okD(2-4)[OF ok] a l in \<open>auto simp: local_ok_def served_def split: if_splits\<close>)
  qed
qed

text \<open>What \<^verbatim>\<open>phi_test_sema(k)\<close> does when the caller is the only thread in the critical section.\<close>

lemma test_cases:
  assumes ok: "phil_ok c" and k: "k < N" "pc c k = T_test \<or> \<not> crit (pc c k)"
  obtains (eat) "state_sema c k = HUNGRY" "state_sema c (LEFT k) \<noteq> EATING" "state_sema c (RIGHT k) \<noteq> EATING"
      "pc c k = T_down_s \<or> pc c k = T_test" "sem_s c k = (0, [])" "phi_test_sema k c = set_state k EATING (c\<lparr>sem_s := (sem_s c)(k := (1, []))\<rparr>)"
    | (wake) "state_sema c k = HUNGRY" "state_sema c (LEFT k) \<noteq> EATING" "state_sema c (RIGHT k) \<noteq> EATING"
      "pc c k = T_down_s" "sem_s c k = (0, [k])" "phi_test_sema k c = advance k (set_state k EATING (c\<lparr>sem_s := (sem_s c)(k := (0, []))\<rparr>))"
    | (skip) "phi_test_sema k c = c" "state_sema c k = HUNGRY \<longrightarrow> state_sema c (LEFT k) = EATING \<or> state_sema c (RIGHT k) = EATING"
proof (cases "state_sema c k = HUNGRY \<and> state_sema c (LEFT k) \<noteq> EATING \<and> state_sema c (RIGHT k) \<noteq> EATING")
  case False
  then show ?thesis using skip by (auto simp: phi_test_sema_def)
next
  case True
  have "pc c k = T_test \<and> sem_s c k = (0, []) \<or> pc c k = T_down_s \<and> (sem_s c k = (0, []) \<or> sem_s c k = (0, [k]))"
    using phil_okD(2)[OF ok k(1)] True k(2) by (auto simp: local_ok_def crit_def split: if_splits)
  then show ?thesis
  proof (elim disjE conjE)
    assume "pc c k = T_down_s" "sem_s c k = (0, [k])"
    then show ?thesis using True wake by (simp add: phi_test_sema_def up_s_def sem_up_def wake_def set_state_def advance_def)
  qed (use True eat in \<open>simp_all add: phi_test_sema_def up_s_def sem_up_def wake_def set_state_def advance_def\<close>)
qed

lemma crit_unique: "phil_ok c \<Longrightarrow> i < N \<Longrightarrow> k < N \<Longrightarrow> crit (pc c i) \<Longrightarrow> crit (pc c k) \<Longrightarrow> k = i"
  using phil_okD(1)[of c] unfolding mutex_ok_def by (metis (full_types))

lemma served_after:
  assumes "state_sema c (LEFT j) = EATING \<or> state_sema c (RIGHT j) = EATING \<or> (j = RIGHT i \<and> pc c i = P_left)" "i < N"
    "\<And>x. state_sema c x = EATING \<Longrightarrow> state_sema c' x = EATING" "pc c i = P_left \<Longrightarrow> pc c' i = P_right"
  shows "served c' j"
  using assms neighbours(3)[OF assms(2)] unfolding served_def by metis

text \<open>The common part of the three calls of \<^verbatim>\<open>phi_test_sema\<close>: thread \<open>i\<close> tests \<open>k\<close> and goes on.\<close>

lemma step_test:
  assumes ok: "phil_ok c" and i: "i < N" "i \<notin> set (snd (mutex c))" and k: "k < N"
    and t: "pc c i = T_test \<and> k = i \<or> pc c i = P_left \<and> k = LEFT i \<or> pc c i = P_right \<and> k = RIGHT i"
  shows "phil_ok (advance i (phi_test_sema k c))"
proof -
  have cr: "crit (pc c i)" "crit (nxt (pc c i))" using t by (auto simp: crit_def)
  have kc: "pc c k = T_test \<or> \<not> crit (pc c k)" using crit_unique[OF ok i(1) k cr(1)] t neighbours[OF i(1)] by metis
  have kt: "pc c k \<noteq> T_test" if "k \<noteq> i" using crit_unique[OF ok i(1) k cr(1)] that by (auto simp: crit_def)
  have q: "k \<notin> set (snd (mutex c))" if "pc c k = T_down_s"
    using phil_okD(1)[OF ok] that unfolding mutex_ok_def by auto
  have pend: "served c j \<Longrightarrow> j < N \<Longrightarrow> j \<noteq> k \<Longrightarrow> state_sema c (LEFT j) = EATING \<or> state_sema c (RIGHT j) = EATING \<or> (j = RIGHT i \<and> pc c i = P_left)" for j
  proof -
    assume s: "served c j" and j: "j < N" "j \<noteq> k"
    have "LEFT j = i" if "pc c (LEFT j) \<in> {P_left, P_right}"
      using crit_unique[OF ok i(1) neighbours(1)[OF j(1)] cr(1)] that by (auto simp: crit_def)
    moreover have "RIGHT j = i" if "pc c (RIGHT j) = P_left"
      using crit_unique[OF ok i(1) neighbours(2)[OF j(1)] cr(1)] that by (auto simp: crit_def)
    ultimately show ?thesis using s j t nb_eq[OF i(1) j(1)] unfolding served_def by auto
  qed
  have m: "mutex_ok (mutex c) ((pc c)(i := nxt (pc c i)))"
    using mutex_move[OF phil_okD(1)[OF ok] i(2), of "nxt (pc c i)"] cr by simp
  show ?thesis
  proof (cases rule: test_cases[OF ok k kc, case_names eat wake skip])
    case eat
    let ?c = "advance i (set_state k EATING (c\<lparr>sem_s := (sem_s c)(k := (1, []))\<rparr>))"
    have "phil_ok ?c"
    proof (rule phil_okI)
      show "mutex_ok (mutex ?c) (pc ?c)" using m by (simp add: set_state_def)
      show "local_ok j (state_sema ?c j) (pc ?c j) (sem_s ?c j)" if "j < N" for j
      proof -
        have "local_ok k EATING (pc ?c k) (1, [])" using eat(4) t kt by (cases "k = i") (auto simp: set_state_def local_ok_def)
        moreover have "local_ok i (state_sema c i) (nxt (pc c i)) (sem_s c i)" if "i \<noteq> k"
          using phil_okD(2)[OF ok i(1)] t that by (auto simp: local_ok_def)
        ultimately show ?thesis using phil_okD(2)[OF ok that] by (cases "j = k"; cases "j = i") (simp_all add: set_state_def)
      qed
      show "state_sema ?c (RIGHT j) \<noteq> EATING" if "j < N" "state_sema ?c j = EATING" for j
        using phil_okD(3)[OF ok that(1)] that(2) eat(2,3) nb_eq(2)[OF k that(1)] neighbours(6)[OF k]
        by (cases "j = k"; cases "RIGHT j = k") (simp_all add: set_state_def)
      show "served ?c j" if j: "j < N" "state_sema ?c j = HUNGRY" "pc ?c j \<in> {T_up, T_down_s}" for j
      proof -
        have jk: "j \<noteq> k" "state_sema c j = HUNGRY" using j(2) by (auto simp: set_state_def split: if_splits)
        then have "pc c j \<in> {T_up, T_down_s}" using j(3) t by (auto simp: set_state_def split: if_splits)
        then have "served c j" using phil_okD(4)[OF ok j(1) jk(2)] by simp
        then show ?thesis by (rule served_after[OF pend[OF _ j(1) jk(1)] i(1)]) (auto simp: set_state_def)
      qed
    qed
    then show ?thesis using eat by simp
  next
    case wake
    let ?c = "advance i (advance k (set_state k EATING (c\<lparr>sem_s := (sem_s c)(k := (0, []))\<rparr>)))"
    have ik: "i \<noteq> k" using cr(1) wake(4) by (auto simp: crit_def)
    have "phil_ok ?c"
    proof (rule phil_okI)
      have "mutex_ok (mutex c) (((pc c)(i := nxt (pc c i)))(k := Eat))"
        using mutex_move[OF m q[OF wake(4)], of Eat] wake(4) ik by (simp add: crit_def)
      then show "mutex_ok (mutex ?c) (pc ?c)" using ik wake(4) by (simp add: set_state_def fun_upd_twist)
      show "local_ok j (state_sema ?c j) (pc ?c j) (sem_s ?c j)" if "j < N" for j
      proof -
        have "local_ok k EATING Eat (0, [])" by (simp add: local_ok_def)
        moreover have "local_ok i (state_sema c i) (nxt (pc c i)) (sem_s c i)"
          using phil_okD(2)[OF ok i(1)] t ik by (auto simp: local_ok_def)
        ultimately show ?thesis using phil_okD(2)[OF ok that] wake(4) ik by (cases "j = k"; cases "j = i") (simp_all add: set_state_def)
      qed
      show "state_sema ?c (RIGHT j) \<noteq> EATING" if "j < N" "state_sema ?c j = EATING" for j
        using phil_okD(3)[OF ok that(1)] that(2) wake(2,3) nb_eq(2)[OF k that(1)] neighbours(6)[OF k]
        by (cases "j = k"; cases "RIGHT j = k") (simp_all add: set_state_def)
      show "served ?c j" if j: "j < N" "state_sema ?c j = HUNGRY" "pc ?c j \<in> {T_up, T_down_s}" for j
      proof -
        have jk: "j \<noteq> k" "state_sema c j = HUNGRY" using j(2) by (auto simp: set_state_def split: if_splits)
        then have "pc c j \<in> {T_up, T_down_s}" using j(3) t ik by (auto simp: set_state_def split: if_splits)
        then have "served c j" using phil_okD(4)[OF ok j(1) jk(2)] by simp
        then show ?thesis by (rule served_after[OF pend[OF _ j(1) jk(1)] i(1)]) (use ik in \<open>auto simp: set_state_def\<close>)
      qed
    qed
    then show ?thesis using wake by simp
  next
    case skip
    have "phil_ok (advance i c)"
    proof (rule phil_okI)
      show "mutex_ok (mutex (advance i c)) (pc (advance i c))" using m by simp
      show "local_ok j (state_sema (advance i c) j) (pc (advance i c) j) (sem_s (advance i c) j)" if "j < N" for j
        using phil_okD(2)[OF ok that] t by (auto simp: local_ok_def split: if_splits)
      show "state_sema (advance i c) (RIGHT j) \<noteq> EATING" if "j < N" "state_sema (advance i c) j = EATING" for j
        using phil_okD(3)[OF ok that(1)] that by simp
      show "served (advance i c) j" if j: "j < N" "state_sema (advance i c) j = HUNGRY" "pc (advance i c) j \<in> {T_up, T_down_s}" for j
      proof (cases "j = k")
        case True
        then show ?thesis using skip(2) j(2) by (auto simp: served_def)
      next
        case False
        then have "pc c j \<in> {T_up, T_down_s}" using j(3) t by (auto split: if_splits)
        then have "served c j" using phil_okD(4)[OF ok j(1)] j(2) by simp
        from this show ?thesis by (rule served_after[OF pend[OF _ j(1) False] i(1)]) auto
      qed
    qed
    then show ?thesis using skip by simp
  qed
qed

lemma phil_step_ok:
  assumes ok: "phil_ok c" and i: "i < N" "\<not> waiting c i" shows "phil_ok (phil_step i c)"
proof -
  have q: "i \<notin> set (snd (mutex c))" "i \<notin> set (snd (sem_s c i))" using i(2) by (auto simp: waiting_def)
  have mv: "phil_ok c'" if "state_sema c' = state_sema c" "sem_s c' = sem_s c" "mutex c' = mutex c" "pc c' = (pc c)(i := x)"
      "(pc c i, x) \<in> {(Loop, T_down), (Loop, Quit), (Eat, P_down)}" for c' x
  proof (rule phil_ok_move[OF ok that(1,2)])
    show "mutex_ok (mutex c') (pc c')" using mutex_move[OF phil_okD(1)[OF ok] q(1), of x] that(3-5) by (auto simp: crit_def)
    have lx: "local_ok i (state_sema c i) x (sem_s c i)" using phil_okD(2)[OF ok i(1)] that(5) by (auto simp: local_ok_def)
    show "local_ok k (state_sema c k) (pc c' k) (sem_s c k)" if "k < N" for k
      using phil_okD(2)[OF ok that] lx \<open>pc c' = _\<close> by simp
  qed (use that(4,5) in \<open>auto split: if_splits\<close>)
  show ?thesis
  proof (cases "pc c i")
    case Loop
    then show ?thesis
      using mv[of "advance i (c\<lparr>iter := (iter c)(i := iter c i + 1)\<rparr>)" T_down] mv[of "c\<lparr>pc := (pc c)(i := Quit)\<rparr>" Quit]
      by (simp add: phil_step_def)
  next
    case Eat
    then show ?thesis using mv[of "advance i c" P_down] by (simp add: phil_step_def)
  qed (use ok i(1) q step_mutex_down step_mutex_up step_take_state step_put_state step_down_s
      step_test[OF ok i(1) q(1)] neighbours[OF i(1)] in \<open>simp_all add: phil_step_def\<close>)
qed

lemma phil_reach_ok: "phil_reach c \<Longrightarrow> phil_ok c"
  by (induction rule: phil_reach.induct) (auto simp: phil_init_ok phil_step_ok elim!: pstepE)

subsection \<open>Progress\<close>

fun rank :: "loc \<Rightarrow> nat" where
  "rank Quit = 0" | "rank Loop = 1" | "rank P_up = 2" | "rank P_right = 3" | "rank P_left = 4" | "rank P_think = 5" | "rank P_down = 6"
| "rank Eat = 7" | "rank T_down_s = 8" | "rank T_up = 9" | "rank T_test = 10" | "rank T_hungry = 11" | "rank T_down = 12"

lemma rank_nxt: "l \<notin> {Loop, Quit} \<Longrightarrow> rank (nxt l) < rank l" by (cases l) auto

definition work :: "phil \<Rightarrow> nat \<Rightarrow> nat" where
  "work c i = 2 * ((TIMES - iter c i) * 13 + rank (pc c i)) + (if waiting c i then 0 else 1)"

definition moved :: "phil \<Rightarrow> phil \<Rightarrow> nat \<Rightarrow> bool" where
  "moved c c' k \<longleftrightarrow> iter c' k = iter c k \<and>
     (rank (pc c' k) < rank (pc c k) \<or> pc c' k = pc c k \<and> (waiting c k \<longrightarrow> waiting c' k))"

lemma moved_work: "moved c c' k \<Longrightarrow> work c' k \<le> work c k"
  by (auto simp: moved_def work_def)

lemma up_mutex_moved:
  assumes "phil_ok c" shows "moved c (up_mutex c) k" "pc c k \<notin> {T_down, P_down} \<Longrightarrow> pc (up_mutex c) k = pc c k"
proof -
  have m: "j \<in> set (snd (mutex c)) \<Longrightarrow> pc c j \<in> {T_down, P_down}" for j using phil_okD(1)[OF assms] by (auto simp: mutex_ok_def)
  show "moved c (up_mutex c) k"
    using m[of k] by (cases "snd (mutex c)") (auto simp: up_mutex_def sem_up_def wake_def moved_def waiting_def)
  show "pc c k \<notin> {T_down, P_down} \<Longrightarrow> pc (up_mutex c) k = pc c k"
    using m[of k] by (cases "snd (mutex c)") (auto simp: up_mutex_def sem_up_def wake_def)
qed

lemma test_moved:
  assumes ok: "phil_ok c" and k: "k < N" "pc c k = T_test \<or> \<not> crit (pc c k)"
  shows "moved c (phi_test_sema k c) j" "j = k \<longrightarrow> pc c k \<noteq> T_down_s \<Longrightarrow> pc (phi_test_sema k c) j = pc c j"
  by (cases rule: test_cases[OF ok k, case_names eat wake skip]; auto simp: moved_def waiting_def set_state_def)+

lemma advance_moved:
  assumes "\<And>k. moved c c' k" "pc c' i = pc c i" "pc c i \<notin> {Loop, Quit}"
  shows "moved c (advance i c') k" "work (advance i c') i < work c i"
proof -
  show "moved c (advance i c') k"
    using assms(1)[of k] assms(2) rank_nxt[OF assms(3)] by (auto simp: moved_def waiting_def)
  show "work (advance i c') i < work c i"
    using assms(1)[of i] assms(2) rank_nxt[OF assms(3)] by (auto simp: moved_def work_def)
qed

lemma step_work:
  assumes ok: "phil_ok c" and i: "i < N" "\<not> waiting c i" "pc c i \<noteq> Quit"
  shows "work (phil_step i c) i < work c i \<and> (\<forall>k. k \<noteq> i \<longrightarrow> moved c (phil_step i c) k)"
proof -
  have self: "moved c c' k" if "state_sema c' = st" "mutex c' = mutex c" "sem_s c' = sem_s c" "pc c' = pc c" "iter c' = iter c" for c' st k
    using that by (simp add: moved_def waiting_def)
  have down: "work (down_mutex i c) i < work c i \<and> (\<forall>k. k \<noteq> i \<longrightarrow> moved c (down_mutex i c) k)" if "pc c i \<in> {T_down, P_down}"
    using that i(2) by (auto simp: down_mutex_def sem_down_def work_def moved_def waiting_def)
  have downs: "work (down_s i c) i < work c i \<and> (\<forall>k. k \<noteq> i \<longrightarrow> moved c (down_s i c) k)" if "pc c i = T_down_s"
    using that i(2) by (auto simp: down_s_def sem_down_def work_def moved_def waiting_def)
  have test: "work (advance i (phi_test_sema k c)) i < work c i \<and> (\<forall>j. j \<noteq> i \<longrightarrow> moved c (advance i (phi_test_sema k c)) j)"
    if t: "k < N" "pc c i = T_test \<and> k = i \<or> pc c i \<in> {P_left, P_right} \<and> k \<noteq> i" for k
  proof -
    have "crit (pc c i)" "pc c i \<notin> {Loop, Quit}" using t(2) by (auto simp: crit_def)
    then have "pc c k = T_test \<or> \<not> crit (pc c k)" using crit_unique[OF ok i(1) t(1)] t(2) by metis
    note tm = test_moved[OF ok t(1) this]
    have "pc (phi_test_sema k c) i = pc c i" using tm(2)[of i] t(2) by auto
    then show ?thesis using advance_moved[of c "phi_test_sema k c" i, OF tm(1)] \<open>pc c i \<notin> _\<close> by blast
  qed
  have up: "work (advance i (up_mutex c)) i < work c i \<and> (\<forall>j. j \<noteq> i \<longrightarrow> moved c (advance i (up_mutex c)) j)" if "pc c i \<in> {T_up, P_up}"
    using advance_moved[of c "up_mutex c" i, OF up_mutex_moved(1)[OF ok]] up_mutex_moved(2)[OF ok, of i] that by auto
  have adv: "work (advance i (set_state i v c)) i < work c i \<and> (\<forall>j. j \<noteq> i \<longrightarrow> moved c (advance i (set_state i v c)) j)"
    if "pc c i \<notin> {Loop, Quit}" for v
    using advance_moved[of c "set_state i v c" i] that by (simp add: moved_def waiting_def set_state_def)
  show ?thesis
  proof (cases "pc c i")
    case Loop
    then show ?thesis using i(2) by (auto simp: phil_step_def work_def moved_def waiting_def)
  next
    case Eat
    then show ?thesis using advance_moved[of c c i] by (simp add: phil_step_def moved_def waiting_def)
  qed (use i down downs test up adv neighbours[OF i(1)] in \<open>simp_all add: phil_step_def\<close>)
qed

definition total :: "phil \<Rightarrow> nat" where "total c = (\<Sum>i < N. work c i)"

lemma pstep_total: "phil_ok c \<Longrightarrow> pstep c c' \<Longrightarrow> total c' < total c"
proof (elim pstepE)
  fix i assume ok: "phil_ok c" and i: "c' = phil_step i c" "i < N" "\<not> waiting c i" "pc c i \<noteq> Quit"
  note w = step_work[OF ok i(2-4)]
  have "work (phil_step i c) k \<le> work c k" for k using w moved_work[of c "phil_step i c" k] by (cases "k = i") auto
  then show "total c' < total c" unfolding total_def i(1) using i(2) w by (intro sum_strict_mono_ex1) auto
qed

lemma phil_no_deadlock:
  assumes ok: "phil_ok c" and st: "\<And>i. i < N \<Longrightarrow> waiting c i \<or> pc c i = Quit" and i: "i < N" shows "pc c i = Quit"
proof (rule ccontr)
  assume nq: "pc c i \<noteq> Quit"
  note m = phil_okD(1)[OF ok]
  have sw: "k \<in> set (snd (sem_s c k)) \<Longrightarrow> k < N \<Longrightarrow> pc c k = T_down_s \<and> state_sema c k = HUNGRY" for k
    using phil_okD(2)[OF ok, of k] by (auto simp: local_ok_def split: if_splits)
  have mw: "k \<in> set (snd (mutex c)) \<Longrightarrow> pc c k \<in> {T_down, P_down}" for k using m by (auto simp: mutex_ok_def)
  have nc: "\<not> crit (pc c k)" if "k < N" for k using st[OF that] sw[of k] mw[of k] that by (auto simp: waiting_def crit_def)
  then have "snd (mutex c) = []" using m unfolding mutex_ok_def by (auto split: if_splits)
  then have "pc c i = T_down_s" "state_sema c i = HUNGRY" using st[OF i] nq sw[of i] i by (auto simp: waiting_def)
  then have "served c i" using phil_okD(4)[OF ok i] by simp
  then obtain k where k: "k < N" "state_sema c k = EATING"
    using neighbours[OF i] nc[of "LEFT i"] nc[of "RIGHT i"] unfolding served_def crit_def by auto
  have "k \<notin> set (snd (sem_s c k))" using sw[of k] k by auto
  moreover have "pc c k \<noteq> Quit" using phil_okD(2)[OF ok k(1)] k(2) by (auto simp: local_ok_def)
  ultimately show False using st[OF k(1)] \<open>snd (mutex c) = []\<close> by (auto simp: waiting_def)
qed

definition iter_ok :: "phil \<Rightarrow> bool" where
  "iter_ok c \<longleftrightarrow> (\<forall>i. iter c i \<le> TIMES \<and> (pc c i = Quit \<longrightarrow> iter c i = TIMES))"


lemma iter_ok_cong: "iter_ok c \<Longrightarrow> iter c' = iter c \<Longrightarrow> (\<And>k. pc c' k = Quit \<Longrightarrow> pc c k = Quit) \<Longrightarrow> iter_ok c'"
  by (auto simp: iter_ok_def)

lemma nxt_Quit: "nxt l = Quit \<Longrightarrow> l = Quit" by (cases l) auto

lemma phil_step_iter:
  assumes "iter_ok c" "pc c i \<noteq> Quit" shows "iter_ok (phil_step i c)"
proof (cases "pc c i")
  case Loop
  then show ?thesis using assms(1) by (auto simp: iter_ok_def phil_step_def split: if_splits) (metis le_antisym not_less)
qed (use assms in \<open>auto intro!: iter_ok_cong[OF assms(1)] dest!: nxt_Quit
      simp: phil_step_def down_mutex_def up_mutex_def down_s_def up_s_def phi_test_sema_def wake_def set_state_def Let_def
      split: prod.splits option.splits if_splits\<close>)

lemma phil_reach_iter: "phil_reach c \<Longrightarrow> iter_ok c"
  by (induction rule: phil_reach.induct) (auto simp: phil_step_iter elim!: pstepE, simp add: iter_ok_def phil_init_def)

text \<open>The places between taking and putting back the forks.\<close>

definition holds_forks :: "loc \<Rightarrow> bool" where
  "holds_forks l \<longleftrightarrow> l \<in> {Eat, P_down, P_think}"

text \<open>C27: whatever the order in which the threads run, two neighbours never hold their forks at the same time,
  and at most one thread is between \<^verbatim>\<open>down(&mutex)\<close> and \<^verbatim>\<open>up(&mutex)\<close>.\<close>

theorem philosophers_safe:
  assumes "phil_reach c"
  shows "(\<forall>i < N. holds_forks (pc c i) \<longrightarrow> \<not> holds_forks (pc c (LEFT i)) \<and> \<not> holds_forks (pc c (RIGHT i))) \<and>
    (\<forall>i < N. \<forall>k < N. crit (pc c i) \<longrightarrow> crit (pc c k) \<longrightarrow> i = k)"
proof -
  note ok = phil_reach_ok[OF assms]
  have e: "state_sema c i = EATING" if "i < N" "holds_forks (pc c i)" for i
    using phil_okD(2)[OF ok that(1)] that(2) by (auto simp: local_ok_def holds_forks_def)
  have "\<not> holds_forks (pc c (RIGHT i))" if "i < N" "holds_forks (pc c i)" for i
    using phil_okD(3)[OF ok that(1) e[OF that]] e[OF neighbours(2)[OF that(1)]] by blast
  moreover have "\<not> holds_forks (pc c (LEFT i))" if i: "i < N" "holds_forks (pc c i)" for i
    using phil_okD(3)[OF ok neighbours(1)[OF i(1)]] e[OF neighbours(1)[OF i(1)]] e[OF i] neighbours(4)[OF i(1)] by auto
  ultimately show ?thesis using crit_unique[OF ok] by metis
qed

text \<open>C28: there is no deadlock and every run ends: no infinite sequence of steps starts in the initial state, and
  a reachable state in which no thread can go on is one in which all five have quit after eating
  \<^verbatim>\<open>TIMES\<close> times.\<close>

theorem philosophers_finish:
  assumes "phil_reach c"
  shows "((\<exists>c'. pstep c c') \<or> (\<forall>i < N. pc c i = Quit \<and> iter c i = TIMES)) \<and>
    \<not> (\<exists>f. f 0 = c \<and> (\<forall>n. pstep (f n) (f (Suc n))))"
proof (intro conjI)
  note ok = phil_reach_ok[OF assms]
  show "(\<exists>c'. pstep c c') \<or> (\<forall>i < N. pc c i = Quit \<and> iter c i = TIMES)"
  proof (cases "\<exists>i < N. \<not> waiting c i \<and> pc c i \<noteq> Quit")
    case True
    then show ?thesis using pstep.run by blast
  next
    case False
    then have "pc c i = Quit" if "i < N" for i using phil_no_deadlock[OF ok _ that] by blast
    then show ?thesis using phil_reach_iter[OF assms] by (auto simp: iter_ok_def)
  qed
  show "\<not> (\<exists>f. f 0 = c \<and> (\<forall>n. pstep (f n) (f (Suc n))))"
  proof
    assume "\<exists>f. f 0 = c \<and> (\<forall>n. pstep (f n) (f (Suc n)))"
    then obtain f where f: "f 0 = c" "\<And>n. pstep (f n) (f (Suc n))" by blast
    have r: "phil_reach (f n)" for n
      using assms f by (induction n) (auto intro: phil_reach.step)
    have "total (f (Suc n)) < total (f n)" for n using pstep_total[OF phil_reach_ok[OF r] f(2)] .
    then show False using wf_no_infinite_down_chainE[OF wf_measure[of total], of f] by auto
  qed
qed

text \<open>Thread 0 after its first six statements.\<close>

lemmas phil_eval = phil_step_def down_mutex_def up_mutex_def down_s_def up_s_def phi_test_sema_def wake_def set_state_def
  advance_def sem_down_def sem_up_def waiting_def phil_init_def N_def TIMES_def LEFT_def RIGHT_def

lemma phil_run: "phil_reach c \<Longrightarrow> i < N \<Longrightarrow> \<not> waiting c i \<and> pc c i \<noteq> Quit \<Longrightarrow> phil_reach (phil_step i c)"
  by (auto intro: phil_reach.step pstep.run)

definition phil_eat :: phil where
  "phil_eat = phil_step 0 (phil_step 0 (phil_step 0 (phil_step 0 (phil_step 0 (phil_step 0 phil_init)))))"

lemma phil_eat_reach: "phil_reach phil_eat"
  unfolding phil_eat_def by (intro phil_run phil_reach.start) (simp_all add: phil_eval)

theorem philosophers_safe_witness: "holds_forks (pc phil_eat 0) \<and> \<not> holds_forks (pc phil_eat 4) \<and> \<not> holds_forks (pc phil_eat 1)"
proof -
  have "holds_forks (pc phil_eat 0)" by (simp add: phil_eat_def holds_forks_def phil_eval)
  moreover have "LEFT 0 = 4" "RIGHT 0 = 1" "0 < N" by (simp_all add: LEFT_def RIGHT_def N_def)
  ultimately show ?thesis using philosophers_safe[OF phil_eat_reach] by metis
qed

theorem philosophers_finish_witness: "\<not> (\<exists>f. f 0 = phil_init \<and> (\<forall>n. pstep (f n) (f (Suc n))))"
  using philosophers_finish[OF phil_reach.start] by blast

end
