(* ===== verification/Printfmt.thy ===== *)
theory Printfmt
  imports Libc_String
begin

text \<open>
  Formatted output, \<^verbatim>\<open>src/libs/printfmt.c\<close>. The output function \<^verbatim>\<open>putch\<close> is a parameter that maps a
  character and an output state to a new output state, as in the source, where it comes with the pointer
  \<^verbatim>\<open>putdat\<close>. A format is the list of its characters, without the final NUL; reading at its end gives the
  NUL. The argument list is the sequence of its 64-bit slots, \<open>k\<close> is the next one, and \<open>deref\<close> gives the
  string a \<^verbatim>\<open>%s\<close> argument points to. The control flow of \<^verbatim>\<open>vprintfmt\<close>, with its \<^verbatim>\<open>goto reswitch\<close>, is the
  mode: between conversions (\<open>Scan\<close>) or inside one (\<open>Spec\<close>, with the flags read so far).
\<close>

abbreviation chr :: "char \<Rightarrow> int" where "chr c \<equiv> of_char c"

definition chars :: "string \<Rightarrow> int list" where "chars s = map of_char s"

subsection \<open>Numbers\<close>

function pad_loop :: "(int \<Rightarrow> 's \<Rightarrow> 's) \<Rightarrow> int \<Rightarrow> int \<Rightarrow> 's \<Rightarrow> 's" where
  "pad_loop putch padc width st =
     (let width = width - 1 in if width > 0 then pad_loop putch padc width (putch padc st) else st)"
  by pat_completeness auto
termination by (relation "measure (\<lambda>(_, _, width, _). nat width)") auto

declare pad_loop.simps [simp del]

partial_function (option) printnum :: "(int \<Rightarrow> 's \<Rightarrow> 's) \<Rightarrow> nat \<Rightarrow> nat \<Rightarrow> int \<Rightarrow> int \<Rightarrow> 's \<Rightarrow> 's option" where
  "printnum putch num base width padc st = do {
     let result = num div base;
     let md = num mod base;
     st \<leftarrow> (if num \<ge> base then printnum putch result base (width - 1) padc st
            else Some (pad_loop putch padc width st));
     Some (putch (chars ''0123456789abcdef'' ! md) st)
   }"

definition getuint :: "64 word \<Rightarrow> int \<Rightarrow> nat" where
  "getuint a lflag = (if lflag \<ge> 2 then unat a else if lflag \<noteq> 0 then unat a else unat (ucast a :: 32 word))"

definition getint :: "64 word \<Rightarrow> int \<Rightarrow> int" where
  "getint a lflag = (if lflag \<ge> 2 then sint a else if lflag \<noteq> 0 then sint a else sint (ucast a :: 32 word))"

subsection \<open>Error messages\<close>

definition MAXERROR :: int where "MAXERROR = 24"

definition error_string :: "int \<Rightarrow> int list option" where
  "error_string e = map_option chars (map_of [
     (1, ''unspecified error''), (2, ''bad process''), (3, ''invalid parameter''), (4, ''out of memory''),
     (5, ''out of processes''), (6, ''segmentation fault''), (8, ''invalid elf file''), (9, ''process is killed''),
     (10, ''panic failure''), (13, ''no such device''), (14, ''device not available''), (15, ''device/file is busy''),
     (16, ''no such file or directory''), (17, ''is a directory''), (18, ''not a directory''), (19, ''cross device link''),
     (20, ''unimplemented feature''), (21, ''illegal seek''), (22, ''too many files are open''),
     (23, ''file or directory already exists''), (24, ''directory is not empty'')] e)"

subsection \<open>Strings\<close>

function repeat_loop :: "(int \<Rightarrow> 's \<Rightarrow> 's) \<Rightarrow> int \<Rightarrow> int \<Rightarrow> 's \<Rightarrow> 's" where
  "repeat_loop putch c width st = (if width > 0 then repeat_loop putch c (width - 1) (putch c st) else st)"
  by pat_completeness auto
termination by (relation "measure (\<lambda>(_, _, width, _). nat width)") auto

declare repeat_loop.simps [simp del]

primrec str_chars :: "(int \<Rightarrow> 's \<Rightarrow> 's) \<Rightarrow> bool \<Rightarrow> int list \<Rightarrow> int \<Rightarrow> int \<Rightarrow> 's \<Rightarrow> int \<times> 's" where
  "str_chars putch altflag [] precision width st = (width, st)"
| "str_chars putch altflag (ch # p) precision width st =
     (if precision < 0 \<or> precision - 1 \<ge> 0 then
        str_chars putch altflag p (if precision < 0 then precision else precision - 1) (width - 1)
          (putch (if altflag \<and> (ch < chr CHR '' '' \<or> ch > chr CHR ''~'') then chr CHR ''?'' else ch) st)
      else (width, st))"

definition print_str :: "(int \<Rightarrow> 's \<Rightarrow> 's) \<Rightarrow> int list \<Rightarrow> int \<Rightarrow> int \<Rightarrow> int \<Rightarrow> bool \<Rightarrow> 's \<Rightarrow> 's" where
  "print_str putch p padc width precision altflag st =
     (let len = (if precision < 0 then int (length p) else min precision (int (length p)));
          (w, st) = (if width > 0 \<and> padc \<noteq> chr CHR ''-''
            then (min (width - len) 0, repeat_loop putch padc (width - len) st) else (width, st));
          (w, st) = str_chars putch altflag p precision w st in
      repeat_loop putch (chr CHR '' '') w st)"

subsection \<open>The format loop\<close>

record spec =
  padc :: int
  width :: int
  precision :: int
  lflag :: int
  altflag :: bool

datatype fmode = Scan | Spec spec

definition spec0 :: spec where
  "spec0 = \<lparr>padc = chr CHR '' '', width = -1, precision = -1, lflag = 0, altflag = False\<rparr>"

definition fch :: "int list \<Rightarrow> nat \<Rightarrow> int" where
  "fch fmt i = (if i < length fmt then fmt ! i else 0)"

function width_loop :: "int list \<Rightarrow> nat \<Rightarrow> int \<Rightarrow> int \<Rightarrow> int \<times> nat" where
  "width_loop fmt i ch prec =
     (let prec = prec * 10 + ch - chr CHR ''0''; c = fch fmt i in
      if c < chr CHR ''0'' \<or> c > chr CHR ''9'' then (prec, i) else width_loop fmt (i + 1) c prec)"
  by pat_completeness auto
termination by (relation "measure (\<lambda>(fmt, i, _). length fmt - i)") (auto simp: fch_def split: if_splits)

declare width_loop.simps [simp del]

definition process_precision :: "spec \<Rightarrow> spec" where
  "process_precision sp = (if width sp < 0 then sp\<lparr>width := precision sp, precision := -1\<rparr> else sp)"

text \<open>An unknown conversion: go back to the position after the last percent sign.\<close>

fun rewind :: "int list \<Rightarrow> nat \<Rightarrow> nat" where
  "rewind fmt 0 = 0"
| "rewind fmt (Suc j) = (if fch fmt j \<noteq> chr CHR ''%'' then rewind fmt j else Suc j)"

text \<open>The arguments that stay the same: the strings of the caller, the format and the argument slots;
  and those of the call for an error code without a message.\<close>

type_synonym fenv = "(64 word \<Rightarrow> int list) \<times> int list \<times> (nat \<Rightarrow> 64 word)"

definition error_d :: "int \<Rightarrow> fenv" where
  "error_d ec = (\<lambda>_. [], chars ''error %d'', \<lambda>_. word_of_int ec)"

text \<open>What happens at one character: return, go on at a position in a mode, or print the message of an
  error code first (the \<^verbatim>\<open>%e\<close> conversion calls \<^verbatim>\<open>printfmt\<close> for it).\<close>

datatype 's fnext = Ret 's | Go nat fmode nat 's | Err int nat nat 's

definition fmt_step ::
  "(int \<Rightarrow> 's \<Rightarrow> 's) \<Rightarrow> fenv \<Rightarrow> nat \<times> fmode \<times> nat \<Rightarrow> 's \<Rightarrow> 's fnext option" where
  "fmt_step putch env pos st = (let (deref, fmt, ap) = env; (i, md, k) = pos; ch = fch fmt i; j = i + 1 in
     case md of
       Scan \<Rightarrow>
         if ch \<noteq> chr CHR ''%'' then
           (if ch = 0 then Some (Ret st) else Some (Go j Scan k (putch ch st)))
         else Some (Go j (Spec spec0) k st)
     | Spec sp \<Rightarrow>
         if ch = chr CHR ''-'' then Some (Go j (Spec (sp\<lparr>padc := chr CHR ''-''\<rparr>)) k st)
         else if ch = chr CHR ''0'' then Some (Go j (Spec (sp\<lparr>padc := chr CHR ''0''\<rparr>)) k st)
         else if chr CHR ''1'' \<le> ch \<and> ch \<le> chr CHR ''9'' then
           (let (prec, j) = width_loop fmt j ch 0 in
            Some (Go j (Spec (process_precision (sp\<lparr>precision := prec\<rparr>))) k st))
         else if ch = chr CHR ''*'' then
           Some (Go j (Spec (process_precision (sp\<lparr>precision := sint (ucast (ap k) :: 32 word)\<rparr>))) (k + 1) st)
         else if ch = chr CHR ''.'' then Some (Go j (Spec (if width sp < 0 then sp\<lparr>width := 0\<rparr> else sp)) k st)
         else if ch = chr CHR ''#'' then Some (Go j (Spec (sp\<lparr>altflag := True\<rparr>)) k st)
         else if ch = chr CHR ''l'' then Some (Go j (Spec (sp\<lparr>lflag := lflag sp + 1\<rparr>)) k st)
         else if ch = chr CHR ''c'' then Some (Go j Scan (k + 1) (putch (sint (ucast (ap k) :: 32 word)) st))
         else if ch = chr CHR ''e'' then
           (let w = (ucast (ap k) :: 32 word) in
            Some (Err (if sint w < 0 then sint (- w) else sint w) j (k + 1) st))
         else if ch = chr CHR ''s'' then
           (let p = (if ap k = 0 then chars ''(null)'' else deref (ap k)) in
            Some (Go j Scan (k + 1) (print_str putch p (padc sp) (width sp) (precision sp) (altflag sp) st)))
         else if ch = chr CHR ''d'' then do {
           let num = getint (ap k) (lflag sp);
           let st = (if num < 0 then putch (chr CHR ''-'') st else st);
           st \<leftarrow> printnum putch (nat \<bar>num\<bar>) 10 (width sp) (padc sp) st;
           Some (Go j Scan (k + 1) st) }
         else if ch = chr CHR ''u'' then do {
           st \<leftarrow> printnum putch (getuint (ap k) (lflag sp)) 10 (width sp) (padc sp) st;
           Some (Go j Scan (k + 1) st) }
         else if ch = chr CHR ''o'' then do {
           st \<leftarrow> printnum putch (getuint (ap k) (lflag sp)) 8 (width sp) (padc sp) st;
           Some (Go j Scan (k + 1) st) }
         else if ch = chr CHR ''p'' then do {
           let st = putch (chr CHR ''x'') (putch (chr CHR ''0'') st);
           st \<leftarrow> printnum putch (unat (ap k)) 16 (width sp) (padc sp) st;
           Some (Go j Scan (k + 1) st) }
         else if ch = chr CHR ''x'' then do {
           st \<leftarrow> printnum putch (getuint (ap k) (lflag sp)) 16 (width sp) (padc sp) st;
           Some (Go j Scan (k + 1) st) }
         else if ch = chr CHR ''%'' then Some (Go j Scan k (putch ch st))
         else Some (Go (rewind fmt i) Scan k (putch (chr CHR ''%'') st)))"

partial_function (option) vprintfmt ::
  "(int \<Rightarrow> 's \<Rightarrow> 's) \<Rightarrow> fenv \<Rightarrow> nat \<times> fmode \<times> nat \<Rightarrow> 's \<Rightarrow> 's option" where
  "vprintfmt putch env pos st = do {
     r \<leftarrow> fmt_step putch env pos st;
     case r of
       Ret st \<Rightarrow> Some st
     | Go j md k st \<Rightarrow> vprintfmt putch env (j, md, k) st
     | Err ec j k st \<Rightarrow> do {
         st \<leftarrow> (if ec > MAXERROR then vprintfmt putch (error_d ec) (0, Scan, 0) st
           else if ec < 0 then None
           else case error_string ec of
               None \<Rightarrow> vprintfmt putch (error_d ec) (0, Scan, 0) st
             | Some p \<Rightarrow> vprintfmt putch (\<lambda>_. p, chars ''%s'', \<lambda>_. 1) (0, Scan, 0) st);
         vprintfmt putch env (j, Scan, k) st }
   }"

lemmas [code] = printnum.simps vprintfmt.simps

definition printfmt :: "(int \<Rightarrow> 's \<Rightarrow> 's) \<Rightarrow> (64 word \<Rightarrow> int list) \<Rightarrow> int list \<Rightarrow> (nat \<Rightarrow> 64 word) \<Rightarrow> 's \<Rightarrow> 's option" where
  "printfmt putch deref fmt ap st = vprintfmt putch (deref, fmt, ap) (0, Scan, 0) st"

subsection \<open>Printing into a buffer\<close>

record sprintbuf =
  buf :: nat
  ebuf :: nat
  cnt :: int
  bytes :: bmem

definition sprintputch :: "int \<Rightarrow> sprintbuf \<Rightarrow> sprintbuf" where
  "sprintputch ch b = (let b = b\<lparr>cnt := cnt b + 1\<rparr> in
     if buf b < ebuf b then b\<lparr>bytes := (bytes b)(buf b := word_of_int ch), buf := buf b + 1\<rparr> else b)"

text \<open>\<open>str = 0\<close> is the null pointer. The source compares \<^verbatim>\<open>str > str + size - 1\<close>.\<close>

definition vsnprintf ::
  "nat \<Rightarrow> nat \<Rightarrow> (64 word \<Rightarrow> int list) \<Rightarrow> int list \<Rightarrow> (nat \<Rightarrow> 64 word) \<Rightarrow> bmem \<Rightarrow> (int \<times> bmem) option" where
  "vsnprintf str sz deref fmt ap m =
     (let b = \<lparr>buf = str, ebuf = str + sz - 1, cnt = 0, bytes = m\<rparr> in
      if str = 0 \<or> buf b > ebuf b then Some (- errno_code E_INVAL, m)
      else do {
        b \<leftarrow> vprintfmt sprintputch (deref, fmt, ap) (0, Scan, 0) b;
        Some (cnt b, (bytes b)(buf b := 0)) })"

definition snprintf ::
  "nat \<Rightarrow> nat \<Rightarrow> (64 word \<Rightarrow> int list) \<Rightarrow> int list \<Rightarrow> (nat \<Rightarrow> 64 word) \<Rightarrow> bmem \<Rightarrow> (int \<times> bmem) option" where
  "snprintf str sz deref fmt ap m = vsnprintf str sz deref fmt ap m"

subsection \<open>Console output\<close>

text \<open>\<^verbatim>\<open>cputch\<close> of \<^verbatim>\<open>src/kern/libs/stdio.c\<close>: the characters written to the console and their number.\<close>

definition cputch :: "int \<Rightarrow> int list \<times> int \<Rightarrow> int list \<times> int" where
  "cputch c s = (fst s @ [c], snd s + 1)"

definition vcprintf :: "(64 word \<Rightarrow> int list) \<Rightarrow> int list \<Rightarrow> (nat \<Rightarrow> 64 word) \<Rightarrow> int list \<Rightarrow> (int \<times> int list) option" where
  "vcprintf deref fmt ap out = map_option (\<lambda>(out, n). (n, out)) (vprintfmt cputch (deref, fmt, ap) (0, Scan, 0) (out, 0))"

definition cputs :: "int list \<Rightarrow> int list \<Rightarrow> int \<times> int list" where
  "cputs str out = (let (out, n) = cputch 10 (fold cputch str (out, 0)) in (n, out))"

subsection \<open>The characters written\<close>

function digs :: "nat \<Rightarrow> nat \<Rightarrow> nat list" where
  "digs base n = (if n < base \<or> base < 2 then [n] else digs base (n div base) @ [n mod base])"
  by pat_completeness auto
termination by (relation "measure snd") auto

declare digs.simps [simp del]

definition hexd :: "nat \<Rightarrow> int" where "hexd d = chars ''0123456789abcdef'' ! d"

definition num_out :: "nat \<Rightarrow> nat \<Rightarrow> int \<Rightarrow> int \<Rightarrow> int list" where
  "num_out base n w c = replicate (nat (w - int (length (digs base n)))) c @ map hexd (digs base n)"

lemma fold_snoc: "putch c (fold putch xs st) = fold putch (xs @ [c]) st" by simp

lemma pad_loop_out: "pad_loop putch c w st = fold putch (replicate (nat (w - 1)) c) st"
proof (induction putch c w st rule: pad_loop.induct)
  case (1 putch c w st)
  show ?case
  proof (cases "w - 1 > 0")
    case True
    then have "nat (w - 1) = Suc (nat (w - 1 - 1))" by simp
    then show ?thesis using 1[OF refl True] True by (subst pad_loop.simps) simp
  qed (subst pad_loop.simps, simp)
qed

lemma repeat_loop_out: "repeat_loop putch c w st = fold putch (replicate (nat w) c) st"
proof (induction putch c w st rule: repeat_loop.induct)
  case (1 putch c w st)
  show ?case
  proof (cases "w > 0")
    case True
    then have "nat w = Suc (nat (w - 1))" by simp
    then show ?thesis using 1[OF True] True by (subst repeat_loop.simps) simp
  qed (subst repeat_loop.simps, simp)
qed

primrec str_out :: "bool \<Rightarrow> int list \<Rightarrow> int \<Rightarrow> int list" where
  "str_out alt [] prec = []"
| "str_out alt (c # p) prec = (if prec < 0 \<or> prec - 1 \<ge> 0 then
     (if alt \<and> (c < chr CHR '' '' \<or> c > chr CHR ''~'') then chr CHR ''?'' else c) #
       str_out alt p (if prec < 0 then prec else prec - 1) else [])"

lemma str_chars_out:
  "str_chars putch alt p prec w st = (w - int (length (str_out alt p prec)), fold putch (str_out alt p prec) st)"
  by (induction p arbitrary: prec w st) (auto simp del: of_char_eq_iff)

definition str_field :: "int list \<Rightarrow> int \<Rightarrow> int \<Rightarrow> int \<Rightarrow> bool \<Rightarrow> int list" where
  "str_field p pc w prec alt =
     (let len = (if prec < 0 then int (length p) else min prec (int (length p)));
          left = w > 0 \<and> pc \<noteq> chr CHR ''-'';
          w' = (if left then min (w - len) 0 else w) - int (length (str_out alt p prec)) in
      (if left then replicate (nat (w - len)) pc else []) @ str_out alt p prec @ replicate (nat w') (chr CHR '' ''))"

lemma print_str_out: "print_str putch p pc w prec alt st = fold putch (str_field p pc w prec alt) st"
  by (simp add: print_str_def str_field_def Let_def repeat_loop_out str_chars_out del: of_char_eq_iff)

lemma printnum_out:
  "2 \<le> base \<Longrightarrow> printnum putch n base w c st = Some (fold putch (num_out base n w c) st)"
proof (induction base n arbitrary: w rule: digs.induct)
  case (1 base n)
  show ?case
  proof (cases "n < base")
    case True
    then show ?thesis using 1
      by (subst printnum.simps) (simp add: num_out_def digs.simps pad_loop_out hexd_def)
  next
    case False
    then have "printnum putch (n div base) base (w - 1) c st = Some (fold putch (num_out base (n div base) (w - 1) c) st)"
      using 1 by simp
    moreover have "num_out base n w c = num_out base (n div base) (w - 1) c @ [hexd (n mod base)]"
      using False 1 by (simp add: num_out_def digs.simps[of base n] algebra_simps)
    ultimately show ?thesis using False
      by (subst printnum.simps) (simp add: hexd_def)
  qed
qed

text \<open>The output of a run is the output of the run that collects the characters in a list.\<close>

abbreviation snoc :: "int \<Rightarrow> int list \<Rightarrow> int list" where "snoc c xs \<equiv> xs @ [c]"

lemma fold_snoc_nil: "fold snoc out xs = xs @ out"
  by (induction out arbitrary: xs) auto

definition lift_out :: "(int \<Rightarrow> 's \<Rightarrow> 's) \<Rightarrow> 's \<Rightarrow> int list fnext \<Rightarrow> 's fnext" where
  "lift_out putch st r = (case r of Ret out \<Rightarrow> Ret (fold putch out st) | Go j md k out \<Rightarrow> Go j md k (fold putch out st)
     | Err e j k out \<Rightarrow> Err e j k (fold putch out st))"

lemma fmt_step_out:
  "fmt_step putch env pos st = map_option (lift_out putch st) (fmt_step snoc env pos [])"
proof -
  obtain deref fmt ap i md k where e: "env = (deref, fmt, ap)" "pos = (i, md, k)" by (metis prod.exhaust)
  show ?thesis
  proof (cases md)
    case Scan
    then show ?thesis by (simp add: fmt_step_def e Let_def lift_out_def)
  next
    case (Spec sp)
    show ?thesis
      by (simp add: e Spec fmt_step_def Let_def printnum_out print_str_out fold_snoc_nil lift_out_def case_prod_beta)
  qed
qed

subsection \<open>Termination\<close>

text \<open>Every step either moves on or, at an unknown conversion, goes back behind the percent sign it
  started at, which is then printed literally: the number of percent signs still ahead decreases.\<close>

definition pcts :: "int list \<Rightarrow> nat \<Rightarrow> nat" where
  "pcts fmt i = length (filter ((=) (chr CHR ''%'')) (drop i fmt))"

definition fmeasure :: "int list \<Rightarrow> nat \<Rightarrow> fmode \<Rightarrow> nat \<times> nat \<times> nat" where
  "fmeasure fmt i md = (case md of Scan \<Rightarrow> (pcts fmt i, 0, length fmt - i)
     | Spec sp \<Rightarrow> (pcts fmt (rewind fmt i), 1, length fmt - i))"

abbreviation flex :: "((nat \<times> nat \<times> nat) \<times> (nat \<times> nat \<times> nat)) set" where
  "flex \<equiv> less_than <*lex*> less_than <*lex*> less_than"

lemma rewind_le: "rewind fmt i \<le> i"
  by (induction i) (auto simp: le_SucI)

lemma pcts_mono: "i \<le> j \<Longrightarrow> pcts fmt j \<le> pcts fmt i"
proof -
  assume "i \<le> j"
  then have "drop j fmt = drop (j - i) (drop i fmt)" by simp
  then show ?thesis unfolding pcts_def by (metis append_take_drop_id filter_append le_add2 length_append)
qed

lemma pcts_step: "fch fmt i = chr CHR ''%'' \<Longrightarrow> pcts fmt (Suc i) < pcts fmt i"
  by (auto simp: pcts_def fch_def Cons_nth_drop_Suc[symmetric] split: if_splits)

lemma width_loop_pos: "width_loop fmt i ch p = (q, j) \<Longrightarrow> i \<le> j \<and> rewind fmt j = rewind fmt i"
proof (induction fmt i ch p rule: width_loop.induct)
  case (1 fmt i ch p)
  show ?case
  proof (cases "fch fmt i < chr CHR ''0'' \<or> fch fmt i > chr CHR ''9''")
    case True
    then show ?thesis using 1(2) by (subst (asm) width_loop.simps) (auto simp: Let_def)
  next
    case False
    then have "width_loop fmt (i + 1) (fch fmt i) (p * 10 + ch - chr CHR ''0'') = (q, j)"
      using 1(2) by (subst (asm) width_loop.simps) (auto simp: Let_def)
    then show ?thesis using 1(1)[OF refl refl False] False by auto
  qed
qed

lemma sint_neg_neg:
  fixes w :: "32 word"
  assumes "sint w < 0" "sint (- w) < 0" shows "w = 0x80000000"
proof -
  have "sint w = - (2 ^ 31)"
  proof (rule ccontr)
    assume n: "sint w \<noteq> - (2 ^ 31)"
    have r: "- (2 ^ 31) \<le> sint w" "sint w < 2 ^ 31" using sint_ge[of w] sint_lt[of w] by simp_all
    have "sint (- w) = signed_take_bit 31 (- sint w)" by (simp add: sint_word_ariths)
    also have "\<dots> = - sint w" using n r by (intro signed_take_bit_int_eq_self) auto
    finally show False using assms by simp
  qed
  then have "word_of_int (sint w) = (word_of_int (- (2 ^ 31)) :: 32 word)" by simp
  then show ?thesis by simp
qed

lemma fmt_step_decreases:
  assumes "fmt_step snoc (deref, fmt, ap) (i, md, k) [] = Some r"
  shows "case r of Ret out \<Rightarrow> out = [] | Go j md' k' out \<Rightarrow> (fmeasure fmt j md', fmeasure fmt i md) \<in> flex
    | Err e j k' out \<Rightarrow> (fmeasure fmt j Scan, fmeasure fmt i md) \<in> flex \<and> out = [] \<and>
        (e < 0 \<longrightarrow> ucast (ap k) = (0x80000000 :: 32 word))"
proof (cases md)
  case Scan
  have "i < length fmt" if "fch fmt i \<noteq> 0" using that by (auto simp: fch_def split: if_splits)
  then show ?thesis
    using assms Scan pcts_step[of fmt i] pcts_mono[of i "Suc i" fmt]
    by (auto simp: fmt_step_def Let_def fmeasure_def split: if_splits)
next
  case (Spec sp)
  have "pcts fmt (Suc i) \<le> pcts fmt (rewind fmt i)" "pcts fmt i \<le> pcts fmt (rewind fmt i)"
    using pcts_mono[of "rewind fmt i" "Suc i" fmt] pcts_mono[of "rewind fmt i" i fmt] rewind_le[of fmt i] by auto
  moreover have "i < length fmt" if "fch fmt i \<noteq> 0" using that by (auto simp: fch_def split: if_splits)
  moreover have "Suc i \<le> j \<and> rewind fmt j = rewind fmt (Suc i)" if "width_loop fmt (Suc i) (fch fmt i) 0 = (q, j)" for q j
    using width_loop_pos[OF that] .
  ultimately show ?thesis
    using assms Spec sint_neg_neg[of "ucast (ap k) :: 32 word"]
    by (simp add: fmt_step_def Let_def case_prod_beta printnum_out print_str_out split: if_splits)
      (auto simp: fmeasure_def prod_eq_iff)
qed

lemma error_d_total:
  "\<exists>out. \<forall>(putch :: int \<Rightarrow> 's \<Rightarrow> 's) st. vprintfmt putch (error_d ec) (0, Scan, 0) st = Some (fold putch out st)"
proof -
  have "vprintfmt putch (error_d ec) (0, Scan, 0) st = Some (fold putch (chars ''error '' @
      (if getint (word_of_int ec) 0 < 0 then [chr CHR ''-''] else []) @
      num_out 10 (nat \<bar>getint (word_of_int ec) 0\<bar>) (-1) (chr CHR '' '')) st)" for putch :: "int \<Rightarrow> 's \<Rightarrow> 's" and st
    by (simp add: vprintfmt.simps error_d_def chars_def fmt_step_def fch_def spec0_def printnum_out)
  then show ?thesis by blast
qed

lemma message_total:
  "\<exists>out. \<forall>(putch :: int \<Rightarrow> 's \<Rightarrow> 's) st. vprintfmt putch (\<lambda>_. p, chars ''%s'', \<lambda>_. 1) (0, Scan, 0) st = Some (fold putch out st)"
proof -
  have "vprintfmt putch (\<lambda>_. p, chars ''%s'', \<lambda>_. 1) (0, Scan, 0) st = Some (fold putch (str_field p (chr CHR '' '') (-1) (-1) False) st)"
    for putch :: "int \<Rightarrow> 's \<Rightarrow> 's" and st
    by (simp add: vprintfmt.simps chars_def fmt_step_def fch_def spec0_def print_str_out)
  then show ?thesis by blast
qed

lemma err_msg_total:
  assumes "0 \<le> e"
  shows "\<exists>msg. \<forall>(putch :: int \<Rightarrow> 's \<Rightarrow> 's) st. (if e > MAXERROR then vprintfmt putch (error_d e) (0, Scan, 0) st
           else if e < 0 then None
           else case error_string e of
               None \<Rightarrow> vprintfmt putch (error_d e) (0, Scan, 0) st
             | Some p \<Rightarrow> vprintfmt putch (\<lambda>_. p, chars ''%s'', \<lambda>_. 1) (0, Scan, 0) st) = Some (fold putch msg st)"
proof -
  obtain o1 where o1: "\<forall>(putch :: int \<Rightarrow> 's \<Rightarrow> 's) st. vprintfmt putch (error_d e) (0, Scan, 0) st = Some (fold putch o1 st)"
    using error_d_total by blast
  obtain o2 where o2: "\<forall>(putch :: int \<Rightarrow> 's \<Rightarrow> 's) st. vprintfmt putch (\<lambda>_. the (error_string e), chars ''%s'', \<lambda>_. 1) (0, Scan, 0) st = Some (fold putch o2 st)"
    using message_total by blast
  show ?thesis
  proof (cases "e > MAXERROR \<or> error_string e = None")
    case True
    then show ?thesis using o1 assms by (intro exI[of _ o1]) auto
  next
    case False
    then show ?thesis using o2 assms by (intro exI[of _ o2]) auto
  qed
qed

lemma wf_flex: "wf flex" by (intro wf_lex_prod) simp_all

lemma fmt_step_some: "\<exists>r. fmt_step putch env pos st = Some r"
  by (simp add: fmt_step_def Let_def printnum_out split: prod.split fmode.split)

lemma vprintfmt_total:
  assumes ap: "\<forall>k. ucast (ap k) \<noteq> (0x80000000 :: 32 word)"
  shows "\<exists>out. \<forall>(putch :: int \<Rightarrow> 's \<Rightarrow> 's) st. vprintfmt putch (deref, fmt, ap) (i, md, k) st = Some (fold putch out st)"
proof (induction "fmeasure fmt i md" arbitrary: i md k rule: wf_induct_rule[OF wf_flex])
  case (1 i md k)
  let ?env = "(deref, fmt, ap)"
  obtain r where r: "fmt_step snoc ?env (i, md, k) [] = Some r"
    using fmt_step_some[of snoc ?env "(i, md, k)" "[]"] by blast
  note d = fmt_step_decreases[OF r]
  have step: "fmt_step putch ?env (i, md, k) st = Some (lift_out putch st r)" for putch :: "int \<Rightarrow> 's \<Rightarrow> 's" and st
    using fmt_step_out[of putch ?env "(i, md, k)" st] r by simp
  show ?case
  proof (cases r)
    case (Ret out)
    then show ?thesis using step by (subst vprintfmt.simps) (auto simp: lift_out_def)
  next
    case (Go j md' k' out)
    then have lt: "(fmeasure fmt j md', fmeasure fmt i md) \<in> flex" using d by simp
    obtain out' where "\<forall>(putch :: int \<Rightarrow> 's \<Rightarrow> 's) st. vprintfmt putch ?env (j, md', k') st = Some (fold putch out' st)"
      using 1[OF lt] by blast
    then have "vprintfmt putch ?env (i, md, k) st = Some (fold putch (out @ out') st)" for putch :: "int \<Rightarrow> 's \<Rightarrow> 's" and st
      using step Go by (subst vprintfmt.simps) (simp add: lift_out_def)
    then show ?thesis by blast
  next
    case (Err e j k' out)
    then have lt: "(fmeasure fmt j Scan, fmeasure fmt i md) \<in> flex" using d by simp
    obtain out' where o: "\<forall>(putch :: int \<Rightarrow> 's \<Rightarrow> 's) st. vprintfmt putch ?env (j, Scan, k') st = Some (fold putch out' st)"
      using 1[OF lt] by blast
    have e: "0 \<le> e" "out = []" using d Err ap by auto
    obtain msg where m: "\<forall>(putch :: int \<Rightarrow> 's \<Rightarrow> 's) st. (if e > MAXERROR then vprintfmt putch (error_d e) (0, Scan, 0) st
           else if e < 0 then None
           else case error_string e of
               None \<Rightarrow> vprintfmt putch (error_d e) (0, Scan, 0) st
             | Some p \<Rightarrow> vprintfmt putch (\<lambda>_. p, chars ''%s'', \<lambda>_. 1) (0, Scan, 0) st) = Some (fold putch msg st)"
      using err_msg_total[OF e(1)] by blast
    then have "vprintfmt putch ?env (i, md, k) st = Some (fold putch (msg @ out') st)" for putch :: "int \<Rightarrow> 's \<Rightarrow> 's" and st
      using step Err o e(2) by (subst vprintfmt.simps) (simp add: lift_out_def)
    then show ?thesis by blast
  qed
qed

subsection \<open>Buffers\<close>

lemma sprintputch_fold:
  "buf b \<le> ebuf b \<Longrightarrow> cnt (fold sprintputch out b) = cnt b + int (length out) \<and>
    buf (fold sprintputch out b) = buf b + min (length out) (ebuf b - buf b) \<and>
    bytes (fold sprintputch out b) = (\<lambda>a. if buf b \<le> a \<and> a < buf b + min (length out) (ebuf b - buf b)
      then word_of_int (out ! (a - buf b)) else bytes b a)"
proof (induction out arbitrary: b)
  case (Cons c out)
  let ?b = "sprintputch c b"
  show ?case
  proof (cases "buf b < ebuf b")
    case True
    then have b: "buf ?b = buf b + 1" "ebuf ?b = ebuf b" "cnt ?b = cnt b + 1" "bytes ?b = (bytes b)(buf b := word_of_int c)"
      by (simp_all add: sprintputch_def)
    have IH: "cnt (fold sprintputch out ?b) = cnt ?b + int (length out)"
      "buf (fold sprintputch out ?b) = buf ?b + min (length out) (ebuf ?b - buf ?b)"
      "bytes (fold sprintputch out ?b) = (\<lambda>a. if buf ?b \<le> a \<and> a < buf ?b + min (length out) (ebuf ?b - buf ?b)
        then word_of_int (out ! (a - buf ?b)) else bytes ?b a)"
      using Cons.IH[of ?b] True b by auto
    have "bytes (fold sprintputch out ?b) a = (if buf b \<le> a \<and> a < buf b + min (length (c # out)) (ebuf b - buf b)
        then word_of_int ((c # out) ! (a - buf b)) else bytes b a)" for a
      using True by (auto simp: IH(3) b nth_Cons' min_def)
    then show ?thesis using IH(1,2) b True by (auto simp: min_def)
  next
    case False
    then have b: "?b = b\<lparr>cnt := cnt b + 1\<rparr>" by (simp add: sprintputch_def)
    show ?thesis using Cons.IH[of ?b] Cons.prems False unfolding fold_Cons o_apply b by (auto simp: fun_eq_iff)
  qed
qed (auto simp: fun_eq_iff)



text \<open>Left justification of numbers is broken: the padding character of \<^verbatim>\<open>%-5d\<close> is a minus sign, printed
  before the digits, so the number 42 appears as three minus signs and 42.\<close>

theorem left_justified_number:
  "vcprintf (\<lambda>_. []) (chars ''%-5d'') (\<lambda>_. 42) [] = Some (5, chars ''---42'')"
  by code_simp

subsection \<open>Numbers can be read back\<close>

lemma digs_bound: "2 \<le> base \<Longrightarrow> d \<in> set (digs base n) \<Longrightarrow> d < base"
proof (induction base n rule: digs.induct)
  case (1 base n)
  then show ?case by (auto simp: digs.simps[of base n] split: if_splits)
qed

lemma digs_value: "2 \<le> base \<Longrightarrow> foldl (\<lambda>a d. a * base + d) 0 (digs base n) = n"
proof (induction base n rule: digs.induct)
  case (1 base n)
  show ?case
  proof (cases "n < base")
    case False
    then show ?thesis using 1 by (subst digs.simps) simp
  qed (subst digs.simps, simp)
qed

lemma digs_nonempty: "digs base n \<noteq> []" by (subst digs.simps) auto

definition hexb :: "nat \<Rightarrow> byte" where "hexb d = word_of_int (hexd d)"

lemma hexb_cases:
  assumes "d < 16"
  shows "digit_of (hexb d) = Some (int d)" "hexb d \<noteq> 0" "hexb d \<noteq> 32" "hexb d \<noteq> 9" "hexb d \<noteq> 43" "hexb d \<noteq> 45" "hexb d \<noteq> 120"
proof -
  have "d \<in> set [0 ..< 16]" using assms by simp
  moreover have "\<forall>d \<in> set [0 ..< 16]. digit_of (hexb d) = Some (int d) \<and> hexb d \<noteq> 0 \<and> hexb d \<noteq> 32 \<and> hexb d \<noteq> 9 \<and>
      hexb d \<noteq> 43 \<and> hexb d \<noteq> 45 \<and> hexb d \<noteq> 120"
    by code_simp
  ultimately show "digit_of (hexb d) = Some (int d)" "hexb d \<noteq> 0" "hexb d \<noteq> 32" "hexb d \<noteq> 9" "hexb d \<noteq> 43" "hexb d \<noteq> 45" "hexb d \<noteq> 120"
    by blast+
qed

lemma strtol_digits_read:
  assumes "\<forall>d \<in> set ds. d < base" "base \<le> 16" "cstr m s (map hexb ds)"
  shows "strtol_digits m s (int base) (of_nat v) = Some (of_nat (foldl (\<lambda>a d. a * base + d) v ds), s + length ds)"
  using assms
proof (induction ds arbitrary: s v)
  case Nil
  have "digit_of (0 :: byte) = None" by code_simp
  then show ?case using Nil by (subst strtol_digits.simps) simp
next
  case (Cons d ds)
  have "digit_of (m s) = Some (int d)" using Cons.prems hexb_cases(1)[of d] by auto
  moreover have "of_nat v * of_int (int base) + of_int (int d) = (of_nat (v * base + d) :: 64 word)" by simp
  ultimately show ?case using Cons.prems Cons.IH[of "s + 1" "v * base + d"]
    by (subst strtol_digits.simps) simp
qed

text \<open>C22: numbers survive printing and reading: if memory holds the characters \<^verbatim>\<open>printnum\<close> writes for a number
  in base 2 to 16, \<^verbatim>\<open>strtol\<close> with that base returns the number (modulo \<open>2 ^ 64\<close>) and stops at the end of
  the string.\<close>

theorem printnum_strtol_round_trip:
  assumes "2 \<le> base" "base \<le> 16" "printnum (\<lambda>c out. out @ [c]) num base (-1) pc [] = Some out"
    "cstr m s (map word_of_int out)"
  shows "strtol m s (int base) = Some (of_nat num, s + length out)"
proof -
  let ?ds = "digs base num"
  have out: "out = map hexd ?ds" using assms(1,3) printnum_out[of base snoc num "-1" pc "[]"]
    by (simp add: num_out_def fold_snoc_nil)
  then have c: "cstr m s (map hexb ?ds)" using assms(4) by (simp add: hexb_def[abs_def] comp_def)
  have ds: "\<forall>d \<in> set ?ds. d < base" using digs_bound[OF assms(1)] by blast
  obtain d ds' where dd: "?ds = d # ds'" using digs_nonempty[of base num] by (cases ?ds) auto
  then have m0: "m s = hexb d" "d < 16" using c ds assms(2) by auto
  have m1: "m (Suc s) \<noteq> 120"
    using c ds assms(2) dd hexb_cases(7) by (cases ds') auto
  have "skip_blank m s = Some s" using m0 hexb_cases(3,4)[of d] by (subst skip_blank.simps) (simp add: cchar_def)
  moreover have "strtol_digits m s (int base) 0 = Some (of_nat num, s + length out)"
    using strtol_digits_read[OF ds assms(2) c, of 0] digs_value[OF assms(1), of num] out by simp
  ultimately show ?thesis
    using m0 m1 hexb_cases(5,6)[of d] assms(1) by (simp add: strtol_def cchar_def)
qed

theorem printnum_strtol_round_trip_witness:
  "printnum (\<lambda>c out. out @ [c]) 97 10 (-1) 32 [] = Some (chars ''97'') \<and>
   cstr (\<lambda>a. if a = 5 then 57 else if a = 6 then 55 else 0) 5 (map word_of_int (chars ''97'')) \<and>
   strtol (\<lambda>a. if a = 5 then 57 else if a = 6 then 55 else 0) 5 10 = Some (97, 7)"
proof -
  have p: "printnum (\<lambda>c out. out @ [c]) 97 10 (-1) 32 [] = Some (chars ''97'')" by code_simp
  have c: "cstr (\<lambda>a. if a = 5 then 57 else if a = 6 then 55 else 0) 5 (map word_of_int (chars ''97''))"
    by (simp add: chars_def)
  show ?thesis using printnum_strtol_round_trip[OF _ _ p c] p c by (simp add: chars_def)
qed

end
