(* ===== verification/Ring.thy ===== *)
theory Ring
  imports Kern_Prelude
begin

text \<open>
  The intrusive doubly linked list of \<^verbatim>\<open>src/libs/list.h\<close>. A \<^verbatim>\<open>list_entry_t\<close> is a record of two
  addresses and memory is a store from addresses to entries, so every assignment of the C
  code is one store update, in the source's order. The predicate \<open>ring h l xs\<close> says that the
  entry \<open>l\<close> heads a well-formed ring whose other entries are \<open>xs\<close>, in \<^verbatim>\<open>next\<close> order; the lemmas
  show what each operation does to the list \<open>xs\<close>.
\<close>

subsection \<open>Entries and the store\<close>

record 'a list_entry =
  le_prev :: 'a
  le_next :: 'a

type_synonym 'a lstore = "'a \<Rightarrow> 'a list_entry"

definition set_next :: "'a \<Rightarrow> 'a \<Rightarrow> 'a lstore \<Rightarrow> 'a lstore" where
  "set_next a v h = h(a := (h a)\<lparr>le_next := v\<rparr>)"

definition set_prev :: "'a \<Rightarrow> 'a \<Rightarrow> 'a lstore \<Rightarrow> 'a lstore" where
  "set_prev a v h = h(a := (h a)\<lparr>le_prev := v\<rparr>)"

subsection \<open>The operations\<close>

definition list_init :: "'a \<Rightarrow> 'a lstore \<Rightarrow> 'a lstore" where
  "list_init elm h = set_prev elm elm (set_next elm elm h)"

definition list_next :: "'a \<Rightarrow> 'a lstore \<Rightarrow> 'a" where
  "list_next le h = le_next (h le)"

definition list_prev :: "'a \<Rightarrow> 'a lstore \<Rightarrow> 'a" where
  "list_prev le h = le_prev (h le)"

definition list_empty :: "'a \<Rightarrow> 'a lstore \<Rightarrow> bool" where
  "list_empty l h \<longleftrightarrow> le_next (h l) = l"

definition list_add_link :: "'a \<Rightarrow> 'a \<Rightarrow> 'a \<Rightarrow> 'a lstore \<Rightarrow> 'a lstore" where
  "list_add_link elm p n h =
     (let h1 = set_prev n elm h;
          h2 = set_next p elm h1;
          h3 = set_next elm n h2
      in set_prev elm p h3)"

definition list_del_link :: "'a \<Rightarrow> 'a \<Rightarrow> 'a lstore \<Rightarrow> 'a lstore" where
  "list_del_link p n h = set_prev n p (set_next p n h)"

definition list_add_before :: "'a \<Rightarrow> 'a \<Rightarrow> 'a lstore \<Rightarrow> 'a lstore" where
  "list_add_before listelm elm h = list_add_link elm (le_prev (h listelm)) listelm h"

definition list_add_after :: "'a \<Rightarrow> 'a \<Rightarrow> 'a lstore \<Rightarrow> 'a lstore" where
  "list_add_after listelm elm h = list_add_link elm listelm (le_next (h listelm)) h"

definition list_add :: "'a \<Rightarrow> 'a \<Rightarrow> 'a lstore \<Rightarrow> 'a lstore" where
  "list_add listelm elm h = list_add_after listelm elm h"

definition list_del :: "'a \<Rightarrow> 'a lstore \<Rightarrow> 'a lstore" where
  "list_del listelm h = list_del_link (le_prev (h listelm)) (le_next (h listelm)) h"

definition list_del_init :: "'a \<Rightarrow> 'a lstore \<Rightarrow> 'a lstore" where
  "list_del_init listelm h = list_init listelm (list_del listelm h)"

lemmas list_op_defs = list_init_def list_next_def list_prev_def list_empty_def
  list_add_link_def list_del_link_def list_add_before_def list_add_after_def
  list_add_def list_del_def list_del_init_def set_next_def set_prev_def Let_def

subsection \<open>Well-formed rings\<close>

fun linked :: "'a lstore \<Rightarrow> 'a list \<Rightarrow> bool" where
  "linked h (x # y # zs) \<longleftrightarrow> le_next (h x) = y \<and> le_prev (h y) = x \<and> linked h (y # zs)"
| "linked h zs \<longleftrightarrow> True"

definition ring :: "'a lstore \<Rightarrow> 'a \<Rightarrow> 'a list \<Rightarrow> bool" where
  "ring h l xs \<longleftrightarrow> distinct (l # xs) \<and> linked h (l # xs @ [l])"

lemma linked_append:
  "linked h (xs @ y # ys) \<longleftrightarrow> linked h (xs @ [y]) \<and> linked h (y # ys)"
proof (induction xs)
  case Nil
  then show ?case by simp
next
  case (Cons x xs)
  then show ?case by (cases xs) auto
qed

lemma linked_snoc2: "linked h (xs @ [y, z]) \<longleftrightarrow>
  linked h (xs @ [y]) \<and> le_next (h y) = z \<and> le_prev (h z) = y"
  using linked_append[of h xs y "[z]"] by auto

text \<open>A store that agrees on the fields a chain reads keeps the chain.\<close>

lemma linked_cong:
  assumes "\<And>x. x \<in> set (butlast xs) \<Longrightarrow> le_next (h' x) = le_next (h x)"
    and "\<And>x. x \<in> set (tl xs) \<Longrightarrow> le_prev (h' x) = le_prev (h x)"
  shows "linked h' xs = linked h xs"
  using assms
proof (induction xs rule: linked.induct)
  case (1 h x y zs)
  have "linked h' (y # zs) = linked h (y # zs)"
  proof (rule 1)
    fix z assume "z \<in> set (butlast (y # zs))"
    then show "le_next (h' z) = le_next (h z)" using 1 by auto
  next
    fix z assume "z \<in> set (tl (y # zs))"
    then show "le_prev (h' z) = le_prev (h z)" using 1 by auto
  qed
  then show ?case using 1 by auto
qed auto

lemma ring_distinct: "ring h l xs \<Longrightarrow> distinct (l # xs)"
  by (simp add: ring_def)

lemma ring_split:
  "ring h l (xs @ ys) \<longleftrightarrow> distinct (l # xs @ ys) \<and>
     linked h (l # xs) \<and> linked h (ys @ [l]) \<and>
     le_next (h (last (l # xs))) = hd (ys @ [l]) \<and>
     le_prev (h (hd (ys @ [l]))) = last (l # xs)"
proof -
  obtain p q where p: "l # xs = q @ [p]"
    by (metis rev_exhaust list.distinct(1))
  obtain n ns where n: "ys @ [l] = n # ns"
    by (cases "ys @ [l]") auto
  have eq: "l # (xs @ ys) @ [l] = q @ p # n # ns"
    using p n by (metis append.assoc append_Cons append_Nil)
  have lp: "last (l # xs) = p" and hn: "hd (ys @ [l]) = n"
    unfolding p n by simp_all
  show ?thesis
    unfolding ring_def eq lp hn p n linked_append[of h q p "n # ns"] by auto
qed

lemma ring_nth_next:
  assumes "ring h l (xs @ ys)"
  shows "list_next (last (l # xs)) h = hd (ys @ [l])"
  using assms by (simp add: ring_split list_next_def)

lemma ring_nth_prev:
  assumes "ring h l (xs @ ys)"
  shows "list_prev (hd (ys @ [l])) h = last (l # xs)"
  using assms by (simp add: ring_split list_prev_def)

lemma ring_empty_iff: "ring h l xs \<Longrightarrow> list_empty l h \<longleftrightarrow> xs = []"
  by (cases xs) (auto simp: ring_def list_empty_def)

lemma ring_next_head: "ring h l (x # xs) \<Longrightarrow> list_next l h = x"
  using ring_nth_next[of h l "[]" "x # xs"] by simp

lemma ring_next_nil: "ring h l [] \<Longrightarrow> list_next l h = l"
  by (simp add: ring_def list_next_def)

lemma ring_next_elem: "ring h l (xs @ x # ys) \<Longrightarrow> list_next x h = hd (ys @ [l])"
  using ring_nth_next[of h l "xs @ [x]" ys] by simp

lemma ring_prev_elem: "ring h l (xs @ x # ys) \<Longrightarrow> list_prev x h = last (l # xs)"
  using ring_nth_prev[of h l xs "x # ys"] by simp

lemma ring_prev_head: "ring h l xs \<Longrightarrow> list_prev l h = last (l # xs)"
  using ring_nth_prev[of h l xs "[]"] by simp

lemmas ring_steps [ring_simps] = ring_next_head ring_next_nil ring_next_elem ring_prev_elem
  ring_prev_head ring_empty_iff

subsection \<open>What the operations do to a ring\<close>

lemma ring_list_init: "ring (list_init e h) e []"
  by (simp add: ring_def list_op_defs)

lemma ring_add_link:
  assumes r: "ring h l (xs @ ys)" and new: "e \<notin> set (l # xs @ ys)"
    and pd: "last (l # xs) = p" and nd: "hd (ys @ [l]) = n"
  shows "ring (list_add_link e p n h) l (xs @ e # ys)"
    (is "ring ?h l _")
proof -
  have d: "distinct (l # xs @ ys)" and l1: "linked h (l # xs)" and l2: "linked h (ys @ [l])"
    using r by (auto simp: ring_split)
  have pin: "p \<in> set (l # xs)" unfolding pd[symmetric] by (rule last_in_set) simp
  have nin: "n \<in> set (ys @ [l])" unfolding nd[symmetric] by (rule hd_in_set) simp
  have ep: "e \<noteq> p" "e \<noteq> n" using new pin nin by auto
  have nx: "le_next (?h x) = (if x = e then n else if x = p then e else le_next (h x))" for x
    using ep by (auto simp: list_op_defs)
  have pv: "le_prev (?h x) = (if x = e then p else if x = n then e else le_prev (h x))" for x
    using ep by (auto simp: list_op_defs)
  obtain q where q: "l # xs = q @ [p]" using pd by (metis append_butlast_last_id list.distinct(1))
  obtain ns where ns: "ys @ [l] = n # ns" using nd by (cases "ys @ [l]") auto
  have xs: "set xs = set (tl (q @ [p]))" by (simp add: q[symmetric])
  have ys: "set ys = set (butlast (n # ns))" by (simp add: ns[symmetric])
  have "linked ?h (q @ [p]) = linked h (q @ [p])"
  proof (rule linked_cong)
    fix x assume "x \<in> set (butlast (q @ [p]))"
    moreover have "distinct (q @ [p])" "e \<notin> set (q @ [p])" using d new q by (metis distinct.simps(2) distinct_append Un_iff set_append set_ConsD append_Cons)+
    ultimately show "le_next (?h x) = le_next (h x)" by (auto simp: nx)
  next
    fix x assume "x \<in> set (tl (q @ [p]))"
    then have "x \<in> set xs" by (simp add: xs)
    then show "le_prev (?h x) = le_prev (h x)" using d nin new by (auto simp: pv)
  qed
  moreover have "linked ?h (n # ns) = linked h (n # ns)"
  proof (rule linked_cong)
    fix x assume "x \<in> set (butlast (n # ns))"
    then have "x \<in> set ys" by (simp add: ys)
    then show "le_next (?h x) = le_next (h x)" using d pin new by (auto simp: nx)
  next
    fix x assume x: "x \<in> set (tl (n # ns))"
    have "distinct (n # ns)" using d by (simp add: ns[symmetric])
    moreover have "x \<in> set (l # ys)" using x ns by (metis Un_iff list.sel(3) list.set_intros(2) set_ConsD set_append empty_iff empty_set list.set_intros(1))
    ultimately show "le_prev (?h x) = le_prev (h x)" using x new by (auto simp: pv)
  qed
  moreover have eq: "l # (xs @ [e]) @ ys @ [l] = q @ p # e # n # ns"
    using q ns by (metis append.assoc append_Cons append_Nil)
  ultimately have "linked ?h (l # (xs @ [e]) @ ys @ [l])"
    unfolding eq linked_append[of ?h q p "e # n # ns"] using l1 l2 ep by (simp add: nx pv q ns)
  then show ?thesis unfolding ring_def using d new by auto
qed

lemma ring_add_after:
  assumes "ring h l (xs @ ys)" and "e \<notin> set (l # xs @ ys)" and "p = last (l # xs)"
  shows "ring (list_add_after p e h) l (xs @ e # ys)"
  using ring_add_link[OF assms(1,2) refl refl] ring_nth_next[OF assms(1)] assms(3)
  by (simp add: list_add_after_def list_next_def)

lemma ring_add:
  assumes "ring h l (xs @ ys)" and "e \<notin> set (l # xs @ ys)" and "p = last (l # xs)"
  shows "ring (list_add p e h) l (xs @ e # ys)"
  using ring_add_after[OF assms] by (simp add: list_add_def)

lemma ring_add_before:
  assumes "ring h l (xs @ ys)" and "e \<notin> set (l # xs @ ys)" and "n = hd (ys @ [l])"
  shows "ring (list_add_before n e h) l (xs @ e # ys)"
  using ring_add_link[OF assms(1,2) refl refl] ring_nth_prev[OF assms(1)] assms(3)
  by (simp add: list_add_before_def list_prev_def)

lemma ring_del:
  assumes r: "ring h l (xs @ e # ys)"
  shows "ring (list_del e h) l (xs @ ys)"
proof -
  let ?p = "last (l # xs)" and ?n = "hd (ys @ [l])"
  let ?h = "list_del e h"
  have d: "distinct (l # xs @ e # ys)" and l1: "linked h (l # xs)"
    using r by (auto simp: ring_split)
  have l2: "linked h (ys @ [l])"
    using r by (simp add: ring_split[of h l xs]) (metis linked_append append_Cons append_Nil list.exhaust
        linked.simps(1) append_is_Nil_conv)
  have pin: "?p \<in> set (l # xs)" by (rule last_in_set) simp
  have nin: "?n \<in> set (ys @ [l])" by (rule hd_in_set) simp
  have pe: "le_prev (h e) = ?p" and ne: "le_next (h e) = ?n"
    using ring_prev_elem[OF r] ring_next_elem[OF r] by (simp_all add: list_prev_def list_next_def)
  have nx: "le_next (?h x) = (if x = ?p then ?n else le_next (h x))" for x
    by (auto simp: list_del_def list_del_link_def set_next_def set_prev_def pe ne)
  have pv: "le_prev (?h x) = (if x = ?n then ?p else le_prev (h x))" for x
    by (auto simp: list_del_def list_del_link_def set_next_def set_prev_def pe ne)
  have c1: "linked ?h (l # xs) = linked h (l # xs)"
  proof (rule linked_cong)
    fix x assume x: "x \<in> set (butlast (l # xs))"
    have "distinct (butlast (l # xs) @ [?p])" using d by (subst append_butlast_last_id) auto
    then show "le_next (?h x) = le_next (h x)" using x by (auto simp: nx)
  next
    fix x assume "x \<in> set (tl (l # xs))"
    then show "le_prev (?h x) = le_prev (h x)" using d nin by (auto simp: pv)
  qed
  have c2: "linked ?h (ys @ [l]) = linked h (ys @ [l])"
  proof (rule linked_cong)
    fix x assume "x \<in> set (butlast (ys @ [l]))"
    then show "le_next (?h x) = le_next (h x)" using d pin by (auto simp: nx)
  next
    fix x assume x: "x \<in> set (tl (ys @ [l]))"
    have "distinct (ys @ [l])" using d by auto
    then show "le_prev (?h x) = le_prev (h x)" using x by (cases "ys @ [l]") (auto simp: pv)
  qed
  show ?thesis
    unfolding ring_split using d l1 l2 c1 c2 nx pv by auto
qed

text \<open>Entries outside a ring, and the entry itself, may change without touching the ring.\<close>

lemma ring_frame:
  assumes "ring h l xs" and "\<And>x. x \<in> set (l # xs) \<Longrightarrow> h' x = h x"
  shows "ring h' l xs"
proof -
  have "linked h' (l # xs @ [l]) = linked h (l # xs @ [l])"
    by (rule linked_cong) (use assms(2) in \<open>auto dest: in_set_butlastD simp: butlast_append\<close>)
  then show ?thesis using assms(1) by (simp add: ring_def)
qed

lemma ring_del_init:
  assumes r: "ring h l (xs @ e # ys)"
  shows "ring (list_del_init e h) l (xs @ ys) \<and> list_empty e (list_del_init e h)"
proof -
  have "e \<notin> set (l # xs @ ys)" using ring_distinct[OF r] by auto
  then have "ring (list_init e (list_del e h)) l (xs @ ys)"
    by (intro ring_frame[OF ring_del[OF r]]) (auto simp: list_init_def set_next_def set_prev_def)
  then show ?thesis
    by (simp add: list_del_init_def) (simp add: list_init_def list_empty_def set_next_def set_prev_def)
qed

lemma ring_unique: "ring h l xs \<Longrightarrow> ring h l ys \<Longrightarrow> xs = ys"
proof -
  have aux: "linked h (p # xs @ [l]) \<Longrightarrow> linked h (p # ys @ [l]) \<Longrightarrow>
    l \<notin> set xs \<Longrightarrow> l \<notin> set ys \<Longrightarrow> xs = ys" for p
  proof (induction xs arbitrary: p ys)
    case Nil
    then show ?case by (cases ys) auto
  next
    case (Cons x xs)
    then show ?case by (cases ys) auto
  qed
  assume "ring h l xs" "ring h l ys"
  then show ?thesis using aux[of l] by (auto simp: ring_def)
qed

end
