(* ===== verification/Default_Pmm.thy ===== *)
theory Default_Pmm
  imports Ring
begin

text \<open>
  The first-fit physical page allocator of \<^verbatim>\<open>src/kern/mm/default_pmm.c\<close> over the page
  descriptors of \<^verbatim>\<open>src/kern/mm/memlayout.h\<close>. A \<^verbatim>\<open>struct Page *\<close> is its index in \<^verbatim>\<open>pages[]\<close>; the
  embedded \<^verbatim>\<open>page_link\<close> entries and the list header \<^verbatim>\<open>free_list\<close> live in a link store of
  theory \<open>Ring\<close>, so the list surgery is the source's, entry by entry. The loops that walk the
  free list are partial functions: a walk over a damaged ring may not end.

  The predicate \<open>fl_wf s xs\<close> is the allocator's invariant; \<open>xs\<close> lists the heads of the free
  blocks. The lemmas show that allocation is first fit and exact, that a release below the
  last free block keeps the invariant, coalesces, and undoes an allocation, and what a
  release above the last free block does to the list.
\<close>

subsection \<open>Page descriptors\<close>

record Page =
  ref :: int
  flags :: "64 word"
  property :: nat
  pra_vaddr :: "64 word"
  visited :: "64 word"

definition PG_reserved :: nat where "PG_reserved = 0"
definition PG_property :: nat where "PG_property = 1"

definition SetPageReserved :: "Page \<Rightarrow> Page" where
  "SetPageReserved p = p\<lparr>flags := set_bit PG_reserved (flags p)\<rparr>"
definition ClearPageReserved :: "Page \<Rightarrow> Page" where
  "ClearPageReserved p = p\<lparr>flags := unset_bit PG_reserved (flags p)\<rparr>"
definition PageReserved :: "Page \<Rightarrow> bool" where
  "PageReserved p \<longleftrightarrow> bit (flags p) PG_reserved"
definition SetPageProperty :: "Page \<Rightarrow> Page" where
  "SetPageProperty p = p\<lparr>flags := set_bit PG_property (flags p)\<rparr>"
definition ClearPageProperty :: "Page \<Rightarrow> Page" where
  "ClearPageProperty p = p\<lparr>flags := unset_bit PG_property (flags p)\<rparr>"
definition PageProperty :: "Page \<Rightarrow> bool" where
  "PageProperty p \<longleftrightarrow> bit (flags p) PG_property"

lemmas page_flag_defs = PG_reserved_def PG_property_def SetPageReserved_def
  ClearPageReserved_def PageReserved_def SetPageProperty_def ClearPageProperty_def
  PageProperty_def

lemma page_flag_simps [simp]:
  "PageProperty (SetPageProperty p)" "\<not> PageProperty (ClearPageProperty p)"
  "PageReserved (SetPageProperty p) = PageReserved p"
  "PageReserved (ClearPageProperty p) = PageReserved p"
  "PageReserved (SetPageReserved p)" "\<not> PageReserved (ClearPageReserved p)"
  "PageProperty (SetPageReserved p) = PageProperty p"
  "property (SetPageProperty p) = property p" "property (ClearPageProperty p) = property p"
  "ref (SetPageProperty p) = ref p" "ref (ClearPageProperty p) = ref p"
  "property (SetPageReserved p) = property p"
  "\<not> PageProperty (p\<lparr>flags := 0\<rparr>)" "\<not> PageReserved (p\<lparr>flags := 0\<rparr>)"
  "PageProperty (p\<lparr>property := n\<rparr>) = PageProperty p"
  "PageReserved (p\<lparr>property := n\<rparr>) = PageReserved p"
  "PageProperty (p\<lparr>ref := r\<rparr>) = PageProperty p"
  "PageReserved (p\<lparr>ref := r\<rparr>) = PageReserved p"
  by (simp_all add: page_flag_defs bit_simps)

subsection \<open>The allocator's state\<close>

datatype plink = FreeHead | PageLink nat

record pmm =
  pg :: "nat \<Rightarrow> Page"
  links :: "plink lstore"
  nr_free :: nat

abbreviation psize :: "pmm \<Rightarrow> nat \<Rightarrow> nat" where
  "psize s i \<equiv> property (pg s i)"

definition upd_page :: "nat \<Rightarrow> (Page \<Rightarrow> Page) \<Rightarrow> pmm \<Rightarrow> pmm" where
  "upd_page i f s = s\<lparr>pg := (pg s)(i := f (pg s i))\<rparr>"

lemma upd_page_simps [simp]:
  "pg (upd_page i f s) j = (if j = i then f (pg s i) else pg s j)"
  "links (upd_page i f s) = links s" "nr_free (upd_page i f s) = nr_free s"
  by (simp_all add: upd_page_def)

subsection \<open>Operations\<close>

definition default_init :: "pmm \<Rightarrow> pmm" where
  "default_init s = s\<lparr>links := list_init FreeHead (links s), nr_free := 0\<rparr>"

text \<open>The loops that reset the descriptors of a block.\<close>

fun init_pages :: "nat \<Rightarrow> nat \<Rightarrow> pmm \<Rightarrow> pmm option" where
  "init_pages p 0 s = Some s"
| "init_pages p (Suc n) s = do {
     kassert (PageReserved (pg s p));
     init_pages (Suc p) n (upd_page p (\<lambda>d. d\<lparr>flags := 0, property := 0, ref := 0\<rparr>) s)
   }"

fun clear_pages :: "nat \<Rightarrow> nat \<Rightarrow> pmm \<Rightarrow> pmm option" where
  "clear_pages p 0 s = Some s"
| "clear_pages p (Suc n) s = do {
     kassert (\<not> PageReserved (pg s p) \<and> \<not> PageProperty (pg s p));
     clear_pages (Suc p) n (upd_page p (\<lambda>d. d\<lparr>flags := 0, ref := 0\<rparr>) s)
   }"

text \<open>The search for the insertion point. After \<^verbatim>\<open>list_add\<close> at the tail the loop goes on.\<close>

partial_function (option) insert_walk ::
  "plink \<Rightarrow> nat \<Rightarrow> plink lstore \<Rightarrow> plink lstore option" where
  "insert_walk le base h =
     (let le' = list_next le h in
      case le' of
        FreeHead \<Rightarrow> Some h
      | PageLink page \<Rightarrow>
          if base < page then Some (list_add_before le' (PageLink base) h)
          else if list_next le' h = FreeHead
               then insert_walk le' base (list_add le' (PageLink base) h)
          else insert_walk le' base h)"

declare insert_walk.simps [code]

definition insert_free :: "nat \<Rightarrow> plink lstore \<Rightarrow> plink lstore option" where
  "insert_free base h =
     (if list_empty FreeHead h then Some (list_add FreeHead (PageLink base) h)
      else insert_walk FreeHead base h)"

definition default_init_memmap :: "nat \<Rightarrow> nat \<Rightarrow> pmm \<Rightarrow> pmm option" where
  "default_init_memmap base n s = do {
     kassert (0 < n);
     s1 \<leftarrow> init_pages base n s;
     let s2 = upd_page base (\<lambda>d. SetPageProperty (d\<lparr>property := n\<rparr>)) s1;
     let s3 = s2\<lparr>nr_free := nr_free s2 + n\<rparr>;
     h \<leftarrow> insert_free base (links s3);
     Some (s3\<lparr>links := h\<rparr>)
   }"

partial_function (option) alloc_walk :: "plink \<Rightarrow> nat \<Rightarrow> pmm \<Rightarrow> nat option option" where
  "alloc_walk le n s =
     (case list_next le (links s) of
        FreeHead \<Rightarrow> Some None
      | PageLink p \<Rightarrow> if n \<le> psize s p then Some (Some p) else alloc_walk (PageLink p) n s)"

declare alloc_walk.simps [code]

definition take_block :: "nat \<Rightarrow> nat \<Rightarrow> pmm \<Rightarrow> pmm" where
  "take_block page n s =
     (let pv = list_prev (PageLink page) (links s);
          s1 = s\<lparr>links := list_del (PageLink page) (links s)\<rparr>;
          s2 = (if n < psize s1 page then
                  let p = page + n;
                      s' = upd_page p (\<lambda>d. SetPageProperty (d\<lparr>property := psize s1 page - n\<rparr>)) s1
                  in s'\<lparr>links := list_add pv (PageLink p) (links s')\<rparr>
                else s1);
          s3 = s2\<lparr>nr_free := nr_free s2 - n\<rparr>
      in upd_page page ClearPageProperty s3)"

definition default_alloc_pages :: "nat \<Rightarrow> pmm \<Rightarrow> (nat option \<times> pmm) option" where
  "default_alloc_pages n s = do {
     kassert (0 < n);
     if nr_free s < n then Some (None, s)
     else do {
       page \<leftarrow> alloc_walk FreeHead n s;
       case page of
         None \<Rightarrow> Some (None, s)
       | Some p \<Rightarrow> Some (Some p, take_block p n s)
     }
   }"

text \<open>Coalescing: with the block before \<open>base\<close>, then with the block after the result.\<close>

definition merge_low :: "nat \<Rightarrow> pmm \<Rightarrow> nat \<times> pmm" where
  "merge_low base s =
     (case list_prev (PageLink base) (links s) of
        FreeHead \<Rightarrow> (base, s)
      | PageLink p \<Rightarrow>
          if p + psize s p = base then
            let s1 = upd_page p (\<lambda>d. d\<lparr>property := property d + psize s base\<rparr>) s;
                s2 = upd_page base ClearPageProperty s1
            in (p, s2\<lparr>links := list_del (PageLink base) (links s2)\<rparr>)
          else (base, s))"

definition merge_high :: "nat \<Rightarrow> pmm \<Rightarrow> pmm" where
  "merge_high base s =
     (case list_next (PageLink base) (links s) of
        FreeHead \<Rightarrow> s
      | PageLink p \<Rightarrow>
          if base + psize s base = p then
            let s1 = upd_page base (\<lambda>d. d\<lparr>property := property d + psize s p\<rparr>) s;
                s2 = upd_page p ClearPageProperty s1
            in s2\<lparr>links := list_del (PageLink p) (links s2)\<rparr>
          else s)"

definition default_free_pages :: "nat \<Rightarrow> nat \<Rightarrow> pmm \<Rightarrow> pmm option" where
  "default_free_pages base n s = do {
     kassert (0 < n);
     s1 \<leftarrow> clear_pages base n s;
     let s2 = upd_page base (\<lambda>d. SetPageProperty (d\<lparr>property := n\<rparr>)) s1;
     let s3 = s2\<lparr>nr_free := nr_free s2 + n\<rparr>;
     h \<leftarrow> insert_free base (links s3);
     let (b, s4) = merge_low base (s3\<lparr>links := h\<rparr>);
     Some (merge_high b s4)
   }"

definition default_nr_free_pages :: "pmm \<Rightarrow> nat" where
  "default_nr_free_pages s = nr_free s"

subsection \<open>The invariant of the free list\<close>

definition free_set :: "pmm \<Rightarrow> nat list \<Rightarrow> nat set" where
  "free_set s xs = (\<Union>x\<in>set xs. {x ..< x + psize s x})"

definition fl_wf :: "pmm \<Rightarrow> nat list \<Rightarrow> bool" where
  "fl_wf s xs \<longleftrightarrow>
     ring (links s) FreeHead (map PageLink xs) \<and>
     sorted_wrt (\<lambda>x y. x + psize s x \<le> y) xs \<and>
     (\<forall>x\<in>set xs. 0 < psize s x) \<and>
     nr_free s = (\<Sum>x\<leftarrow>xs. psize s x) \<and>
     (\<forall>q\<in>free_set s xs. \<not> PageReserved (pg s q) \<and> (PageProperty (pg s q) \<longleftrightarrow> q \<in> set xs))"

definition coalesced :: "pmm \<Rightarrow> nat list \<Rightarrow> bool" where
  "coalesced s xs \<longleftrightarrow> sorted_wrt (\<lambda>x y. x + psize s x < y) xs"

lemma fl_wfD:
  assumes "fl_wf s xs"
  shows "ring (links s) FreeHead (map PageLink xs)"
    and "sorted_wrt (\<lambda>x y. x + psize s x \<le> y) xs"
    and "\<And>x. x \<in> set xs \<Longrightarrow> 0 < psize s x"
    and "nr_free s = (\<Sum>x\<leftarrow>xs. psize s x)"
    and "\<And>q. q \<in> free_set s xs \<Longrightarrow> \<not> PageReserved (pg s q)"
    and "\<And>q. q \<in> free_set s xs \<Longrightarrow> PageProperty (pg s q) \<longleftrightarrow> q \<in> set xs"
  using assms unfolding fl_wf_def by auto

lemma fl_wfI:
  assumes "ring (links s) FreeHead (map PageLink xs)"
    and "sorted_wrt (\<lambda>x y. x + psize s x \<le> y) xs"
    and "\<And>x. x \<in> set xs \<Longrightarrow> 0 < psize s x"
    and "nr_free s = (\<Sum>x\<leftarrow>xs. psize s x)"
    and "\<And>q. q \<in> free_set s xs \<Longrightarrow> \<not> PageReserved (pg s q) \<and> (PageProperty (pg s q) \<longleftrightarrow> q \<in> set xs)"
  shows "fl_wf s xs"
  using assms unfolding fl_wf_def by blast

lemma fl_wf_distinct: "fl_wf s xs \<Longrightarrow> distinct xs"
  using ring_distinct[OF fl_wfD(1)] by (auto simp: distinct_map)

text \<open>Blocks are identified by their heads: a page of a block is no other block's.\<close>

lemma fl_wf_sep:
  assumes "fl_wf s (as @ x # bs)"
  shows "\<And>a. a \<in> set as \<Longrightarrow> a + psize s a \<le> x"
    and "\<And>b. b \<in> set bs \<Longrightarrow> x + psize s x \<le> b"
  using fl_wfD(2)[OF assms] by (auto simp: sorted_wrt_append)

lemma free_set_simps [simp]:
  "free_set s [] = {}"
  "free_set s (x # xs) = {x ..< x + psize s x} \<union> free_set s xs"
  "free_set s (xs @ ys) = free_set s xs \<union> free_set s ys"
  by (auto simp: free_set_def)

lemma free_set_cong:
  "(\<And>x. x \<in> set xs \<Longrightarrow> psize s' x = psize s x) \<Longrightarrow> free_set s' xs = free_set s xs"
  by (simp add: free_set_def)

lemma head_in_free_set: "fl_wf s xs \<Longrightarrow> x \<in> set xs \<Longrightarrow> x \<in> free_set s xs"
  using fl_wfD(3) by (fastforce simp: free_set_def)

lemma card_free_set:
  assumes "fl_wf s xs" shows "card (free_set s xs) = nr_free s"
proof -
  have "sorted_wrt (\<lambda>x y. x + psize s x \<le> y) xs \<Longrightarrow> card (free_set s xs) = (\<Sum>x\<leftarrow>xs. psize s x)"
  proof (induction xs)
    case (Cons x xs)
    have "{x ..< x + psize s x} \<inter> free_set s xs = {}"
      using Cons.prems by (auto simp: free_set_def)
    moreover have "finite (free_set s xs)" by (simp add: free_set_def)
    ultimately show ?case using Cons by (simp add: card_Un_disjoint)
  qed simp
  then show ?thesis using fl_wfD(2,4)[OF assms] by simp
qed

subsection \<open>First fit\<close>

lemma alloc_walk_ring:
  assumes "ring (links s) FreeHead (map PageLink (as @ bs))"
  shows "alloc_walk (last (FreeHead # map PageLink as)) n s = Some (find (\<lambda>p. n \<le> psize s p) bs)"
  using assms
proof (induction bs arbitrary: as)
  case Nil
  then have "list_next (last (FreeHead # map PageLink as)) (links s) = FreeHead"
    using ring_nth_next[of _ _ "map PageLink as" "[]"] by simp
  then show ?case by (subst alloc_walk.simps) simp
next
  case (Cons b bs)
  have nx: "list_next (last (FreeHead # map PageLink as)) (links s) = PageLink b"
    using ring_nth_next[of _ _ "map PageLink as" "map PageLink (b # bs)"] Cons.prems by simp
  show ?case
  proof (cases "n \<le> psize s b")
    case True
    then show ?thesis using nx by (subst alloc_walk.simps) simp
  next
    case False
    have "alloc_walk (PageLink b) n s = Some (find (\<lambda>p. n \<le> psize s p) bs)"
      using Cons.IH[of "as @ [b]"] Cons.prems by simp
    then show ?thesis using nx False by (subst alloc_walk.simps) simp
  qed
qed

lemma alloc_walk_first_fit:
  "fl_wf s xs \<Longrightarrow> alloc_walk FreeHead n s = Some (find (\<lambda>p. n \<le> psize s p) xs)"
  using alloc_walk_ring[of s "[]" xs] fl_wfD(1) by auto

text \<open>The heads that stand for block \<open>p\<close> once its first \<open>n\<close> pages are gone.\<close>

definition after_take :: "pmm \<Rightarrow> nat \<Rightarrow> nat \<Rightarrow> nat list" where
  "after_take s p n = (if n < psize s p then [p + n] else [])"

lemma take_block_wf:
  assumes wf: "fl_wf s (as @ p # bs)" and n: "0 < n" "n \<le> psize s p"
  shows "fl_wf (take_block p n s) (as @ after_take s p n @ bs)"
    and "free_set (take_block p n s) (as @ after_take s p n @ bs) =
         free_set s (as @ p # bs) - {p ..< p + n}"
proof -
  let ?s' = "take_block p n s" and ?m = "after_take s p n"
  note sep = fl_wf_sep[OF wf] and D = fl_wfD[OF wf]
  have dist: "distinct (as @ p # bs)" using wf by (rule fl_wf_distinct)
  have r0: "ring (links s) FreeHead (map PageLink as @ PageLink p # map PageLink bs)"
    using D(1) by simp
  have pv: "list_prev (PageLink p) (links s) = last (FreeHead # map PageLink as)"
    using ring_prev_elem[OF r0] .
  have r1: "ring (list_del (PageLink p) (links s)) FreeHead (map PageLink as @ map PageLink bs)"
    using ring_del[OF r0] .
  have anp: "a < p" if "a \<in> set as" for a using sep(1)[OF that] D(3)[of a] that by auto
  have bnp: "p + n \<le> b" if "b \<in> set bs" for b using sep(2)[OF that] n by auto
  have new: "p + n \<notin> set as" "n < psize s p \<Longrightarrow> p + n \<notin> set bs"
    using anp sep(2) by fastforce+
  have r2: "ring (list_add (last (FreeHead # map PageLink as)) (PageLink (p + n))
      (list_del (PageLink p) (links s))) FreeHead (map PageLink as @ PageLink (p + n) # map PageLink bs)"
    if "n < psize s p" using new that by (intro ring_add[OF r1 _ refl]) auto
  have lk: "ring (links ?s') FreeHead (map PageLink (as @ ?m @ bs))"
    using r1 r2 pv by (auto simp: take_block_def after_take_def Let_def)
  have ps: "psize ?s' q = (if q = p + n \<and> n < psize s p then psize s p - n else psize s q)" for q
    by (auto simp: take_block_def Let_def)
  have psa: "psize ?s' a = psize s a" if "a \<in> set as" for a using anp[OF that] by (simp add: ps)
  have psb: "psize ?s' b = psize s b" if "b \<in> set bs" for b using new(2) that by (auto simp: ps)
  have fa: "free_set ?s' as = free_set s as" and fb: "free_set ?s' bs = free_set s bs"
    by (rule free_set_cong, simp add: psa) (rule free_set_cong, simp add: psb)
  have below: "q < p" if "q \<in> free_set s as" for q using that sep(1) by (fastforce simp: free_set_def)
  have above: "p + psize s p \<le> q" if "q \<in> free_set s bs" for q
    using that sep(2) by (fastforce simp: free_set_def)
  have fm: "free_set ?s' ?m = {p + n ..< p + psize s p}"
    using n by (auto simp: after_take_def ps)
  show fs: "free_set ?s' (as @ ?m @ bs) = free_set s (as @ p # bs) - {p ..< p + n}"
    using n by (auto simp: fa fb fm dest!: below above)
  have srt: "sorted_wrt (\<lambda>x y. x + psize ?s' x \<le> y) (as @ ?m @ bs)"
  proof -
    have "sorted_wrt (\<lambda>x y. x + psize ?s' x \<le> y) as" "sorted_wrt (\<lambda>x y. x + psize ?s' x \<le> y) bs"
      using D(2) psa psb sorted_wrt_mono_rel[of as "\<lambda>x y. x + psize s x \<le> y"]
        sorted_wrt_mono_rel[of bs "\<lambda>x y. x + psize s x \<le> y"] by (auto simp: sorted_wrt_append)
    moreover have "x + psize s x \<le> y" if "x \<in> set as" "y \<in> set bs" for x y
      using D(2) that by (auto simp: sorted_wrt_append)
    ultimately show ?thesis
      using sep psa n by (auto simp: sorted_wrt_append after_take_def ps[of "p + n"]) (metis le_trans le_add1 sep(1))+
  qed
  have fl: "PageReserved (pg ?s' q) = PageReserved (pg s q)"
    "PageProperty (pg ?s' q) \<longleftrightarrow> (q = p + n \<and> n < psize s p) \<or> (q \<noteq> p \<and> PageProperty (pg s q))" for q
    using n by (auto simp: take_block_def Let_def)
  show "fl_wf ?s' (as @ ?m @ bs)"
  proof (rule fl_wfI[OF lk srt])
    fix x assume "x \<in> set (as @ ?m @ bs)"
    then show "0 < psize ?s' x"
      using D(3) psa psb by (auto simp: after_take_def ps[of "p + n"] split: if_splits)
  next
    have "(\<Sum>x\<leftarrow>as. psize ?s' x) = (\<Sum>x\<leftarrow>as. psize s x)" "(\<Sum>x\<leftarrow>bs. psize ?s' x) = (\<Sum>x\<leftarrow>bs. psize s x)"
      using psa psb by (auto intro!: arg_cong[of _ _ sum_list])
    moreover have "nr_free ?s' = nr_free s - n" by (simp add: take_block_def Let_def)
    ultimately show "nr_free ?s' = (\<Sum>x\<leftarrow>as @ ?m @ bs. psize ?s' x)"
      using D(4) n by (auto simp: after_take_def ps[of "p + n"])
  next
    fix q assume q: "q \<in> free_set ?s' (as @ ?m @ bs)"
    then have q0: "q \<in> free_set s (as @ p # bs)" "q \<notin> {p ..< p + n}" using fs by auto
    then have "q \<noteq> p" using n by auto
    then show "\<not> PageReserved (pg ?s' q) \<and> (PageProperty (pg ?s' q) \<longleftrightarrow> q \<in> set (as @ ?m @ bs))"
      using D(5,6)[OF q0(1)] by (auto simp: fl after_take_def)
  qed
qed

lemma find_psize_bound: "find (\<lambda>p. n \<le> psize s p) xs = Some p \<Longrightarrow> n \<le> (\<Sum>x\<leftarrow>xs. psize s x)"
  by (auto simp: find_Some_iff) (metis elem_le_sum_list length_map nth_map le_trans)

lemma take_block_flags:
  assumes "fl_wf s (as @ p # bs)" and "0 < n" "n \<le> psize s p" and "q \<in> {p ..< p + n}"
  shows "\<not> PageReserved (pg (take_block p n s) q) \<and> \<not> PageProperty (pg (take_block p n s) q)"
proof -
  have q: "q \<in> free_set s (as @ p # bs)" using assms(3,4) by auto
  have "q \<noteq> p \<Longrightarrow> q \<notin> set (as @ p # bs)"
    using fl_wf_sep[OF assms(1)] assms(3,4) by fastforce
  then show ?thesis
    using fl_wfD(5,6)[OF assms(1) q] assms(4) by (auto simp: take_block_def Let_def)
qed

lemma default_alloc_pages_wf:
  assumes wf: "fl_wf s xs" and n: "0 < n"
  shows "default_alloc_pages n s =
    Some (case find (\<lambda>p. n \<le> psize s p) xs of None \<Rightarrow> (None, s) | Some p \<Rightarrow> (Some p, take_block p n s))"
  using alloc_walk_first_fit[OF wf] find_psize_bound[of n s xs] fl_wfD(4)[OF wf] n
  by (auto simp: default_alloc_pages_def split: option.splits)

lemma find_split:
  assumes "find P xs = Some p"
  obtains as bs where "xs = as @ p # bs" "P p" "\<And>a. a \<in> set as \<Longrightarrow> \<not> P a"
proof -
  obtain i where i: "i < length xs" "P (xs ! i)" "p = xs ! i" "\<And>j. j < i \<Longrightarrow> \<not> P (xs ! j)"
    using assms by (auto simp: find_Some_iff)
  then have "xs = take i xs @ p # drop (Suc i) xs" by (simp add: id_take_nth_drop)
  moreover have "\<not> P a" if "a \<in> set (take i xs)" for a
    using that i by (auto simp: in_set_conv_nth)
  ultimately show ?thesis using that i by blast
qed

subsection \<open>Release\<close>

lemma clear_pages_Some:
  assumes "\<And>q. q \<in> {p ..< p + n} \<Longrightarrow> \<not> PageReserved (pg s q) \<and> \<not> PageProperty (pg s q)"
  shows "clear_pages p n s =
    Some (s\<lparr>pg := (\<lambda>q. if q \<in> {p ..< p + n} then (pg s q)\<lparr>flags := 0, ref := 0\<rparr> else pg s q)\<rparr>)"
  using assms
proof (induction n arbitrary: p s)
  case (Suc n)
  let ?s = "upd_page p (\<lambda>d. d\<lparr>flags := 0, ref := 0\<rparr>) s"
  have "clear_pages (Suc p) n ?s =
      Some (?s\<lparr>pg := (\<lambda>q. if q \<in> {Suc p ..< Suc p + n} then (pg ?s q)\<lparr>flags := 0, ref := 0\<rparr> else pg ?s q)\<rparr>)"
    using Suc.prems by (intro Suc.IH) auto
  moreover have "\<not> PageReserved (pg s p) \<and> \<not> PageProperty (pg s p)" using Suc.prems by simp
  ultimately show ?case by (auto simp: upd_page_def fun_eq_iff)
qed simp

lemma insert_walk_mid:
  assumes "ring h FreeHead (map PageLink (as @ bs @ c # cs))"
    and "\<And>b. b \<in> set bs \<Longrightarrow> b \<le> base" and "base < c"
  shows "insert_walk (last (FreeHead # map PageLink as)) base h =
         Some (list_add_before (PageLink c) (PageLink base) h)"
  using assms
proof (induction bs arbitrary: as)
  case Nil
  have "list_next (last (FreeHead # map PageLink as)) h = PageLink c"
    using ring_nth_next[of h FreeHead "map PageLink as" "map PageLink (c # cs)"] Nil.prems by simp
  then show ?case using Nil by (subst insert_walk.simps) (simp add: Let_def)
next
  case (Cons b bs)
  have nx: "list_next (last (FreeHead # map PageLink as)) h = PageLink b"
    using ring_nth_next[of h FreeHead "map PageLink as" "map PageLink (b # bs @ c # cs)"] Cons.prems
    by simp
  have "list_next (PageLink b) h = hd (map PageLink (bs @ c # cs) @ [FreeHead])"
    using ring_next_elem[of h FreeHead "map PageLink as" "PageLink b" "map PageLink (bs @ c # cs)"]
      Cons.prems by simp
  then have "list_next (PageLink b) h \<noteq> FreeHead" by (cases bs) auto
  moreover have "insert_walk (PageLink b) base h = Some (list_add_before (PageLink c) (PageLink base) h)"
    using Cons.IH[of "as @ [b]"] Cons.prems by simp
  ultimately show ?case
    using nx Cons.prems(2)[of b] by (subst insert_walk.simps) (simp add: Let_def)
qed

lemma insert_free_ring:
  assumes r: "ring h FreeHead (map PageLink (as @ bs))"
    and as: "\<And>a. a \<in> set as \<Longrightarrow> a < base" and bs: "\<And>b. b \<in> set bs \<Longrightarrow> base < b"
    and guard: "as = [] \<or> bs \<noteq> []"
  shows "\<exists>h'. insert_free base h = Some h' \<and> ring h' FreeHead (map PageLink (as @ base # bs))"
proof (cases bs)
  case Nil
  then have "as = []" using guard by simp
  then have "ring (list_add FreeHead (PageLink base) h) FreeHead [PageLink base]"
    using r Nil ring_add[of h FreeHead "[]" "[]" "PageLink base"] by simp
  then show ?thesis using r Nil \<open>as = []\<close> by (auto simp: insert_free_def ring_simps)
next
  case (Cons c cs)
  have "insert_walk FreeHead base h = Some (list_add_before (PageLink c) (PageLink base) h)"
    using insert_walk_mid[of h "[]" as c cs base] r as bs Cons by (auto intro: less_imp_le)
  moreover have "ring (list_add_before (PageLink c) (PageLink base) h) FreeHead
      (map PageLink as @ PageLink base # map PageLink bs)"
    using as bs Cons r by (intro ring_add_before) auto
  moreover have "\<not> list_empty FreeHead h" using r Cons by (simp add: ring_simps)
  ultimately show ?thesis by (simp add: insert_free_def)
qed


text \<open>Blocks whose sizes do not change keep their order, their pages and their sum.\<close>

lemma sizes_sorted_cong:
  "(\<And>x. x \<in> set xs \<Longrightarrow> psize s' x = psize s x) \<Longrightarrow>
   sorted_wrt (\<lambda>x y. x + psize s' x \<le> y) xs = sorted_wrt (\<lambda>x y. x + psize s x \<le> y) xs"
  by (induction xs) auto

lemma sizes_sum_cong:
  "(\<And>x. x \<in> set xs \<Longrightarrow> psize s' x = psize s x) \<Longrightarrow> (\<Sum>x\<leftarrow>xs. psize s' x) = (\<Sum>x\<leftarrow>xs. psize s x)"
  by (induction xs) auto

lemma merge_low_none:
  assumes "ring (links s) FreeHead (map PageLink (as @ base # bs))"
    and "as \<noteq> [] \<Longrightarrow> last as + psize s (last as) \<noteq> base"
  shows "merge_low base s = (base, s)"
proof -
  have "list_prev (PageLink base) (links s) = last (FreeHead # map PageLink as)"
    using ring_prev_elem[of "links s" FreeHead "map PageLink as" "PageLink base" "map PageLink bs"] assms(1) by simp
  then show ?thesis using assms(2) by (auto simp: merge_low_def last_map)
qed

lemma merge_high_none:
  assumes "ring (links s) FreeHead (map PageLink (as @ base # bs))"
    and "bs \<noteq> [] \<Longrightarrow> base + psize s base \<noteq> hd bs"
  shows "merge_high base s = s"
proof -
  have "list_next (PageLink base) (links s) = hd (map PageLink bs @ [FreeHead])"
    using ring_next_elem[of "links s" FreeHead "map PageLink as" "PageLink base" "map PageLink bs"] assms(1) by simp
  then show ?thesis using assms(2) by (cases bs) (auto simp: merge_high_def)
qed

text \<open>Two adjacent neighbours \<open>x\<close>, \<open>y\<close> of the list become one block.\<close>

definition join_blocks :: "nat \<Rightarrow> nat \<Rightarrow> pmm \<Rightarrow> pmm" where
  "join_blocks x y s =
     (let s1 = upd_page x (\<lambda>d. d\<lparr>property := property d + psize s y\<rparr>) s;
          s2 = upd_page y ClearPageProperty s1
      in s2\<lparr>links := list_del (PageLink y) (links s2)\<rparr>)"

lemma merge_low_join:
  assumes "ring (links s) FreeHead (map PageLink (as @ x # base # bs))"
    and "x + psize s x = base"
  shows "merge_low base s = (x, join_blocks x base s)"
proof -
  have "list_prev (PageLink base) (links s) = PageLink x"
    using ring_prev_elem[of "links s" FreeHead "map PageLink (as @ [x])" "PageLink base" "map PageLink bs"] assms(1)
    by simp
  then show ?thesis using assms(2) by (simp add: merge_low_def join_blocks_def Let_def)
qed

lemma merge_high_join:
  assumes "ring (links s) FreeHead (map PageLink (as @ base # y # bs))"
    and "base + psize s base = y"
  shows "merge_high base s = join_blocks base y s"
proof -
  have "list_next (PageLink base) (links s) = PageLink y"
    using ring_next_elem[of "links s" FreeHead "map PageLink as" "PageLink base" "map PageLink (y # bs)"] assms(1)
    by simp
  then show ?thesis using assms(2) by (simp add: merge_high_def join_blocks_def Let_def)
qed

lemma join_blocks_psize:
  assumes "fl_wf s (as @ x # y # bs)"
  shows "psize (join_blocks x y s) q = (if q = x then psize s x + psize s y else psize s q)"
  by (simp add: join_blocks_def Let_def)

lemma join_blocks_wf:
  assumes wf: "fl_wf s (as @ x # y # bs)" and adj: "x + psize s x = y"
  shows "fl_wf (join_blocks x y s) (as @ x # bs)"
    and "free_set (join_blocks x y s) (as @ x # bs) = free_set s (as @ x # y # bs)"
proof -
  let ?s = "join_blocks x y s"
  note D = fl_wfD[OF wf] and ps = join_blocks_psize[OF wf]
  have dist: "distinct (as @ x # y # bs)" using wf by (rule fl_wf_distinct)
  have r: "ring (links ?s) FreeHead (map PageLink (as @ x # bs))"
    using ring_del[of "links s" FreeHead "map PageLink (as @ [x])" "PageLink y" "map PageLink bs"] D(1)
    by (simp add: join_blocks_def Let_def)
  have ne: "x \<notin> set as" "x \<notin> set bs" using dist by auto
  have fa: "free_set ?s as = free_set s as" and fb: "free_set ?s bs = free_set s bs"
    using ne by (auto intro!: free_set_cong simp: ps)
  show fs: "free_set ?s (as @ x # bs) = free_set s (as @ x # y # bs)"
    using adj by (auto simp: fa fb ps)
  have psa: "psize ?s q = psize s q" if "q \<in> set as" for q using ne that by (auto simp: ps)
  have psb: "psize ?s q = psize s q" if "q \<in> set bs" for q using ne that by (auto simp: ps)
  have srt: "sorted_wrt (\<lambda>x y. x + psize ?s x \<le> y) (as @ x # bs)"
    using D(2) adj sizes_sorted_cong[OF psa] sizes_sorted_cong[OF psb] ps[of x]
    by (auto simp: sorted_wrt_append psa)
  show "fl_wf ?s (as @ x # bs)"
  proof (rule fl_wfI[OF r srt])
    fix q assume "q \<in> set (as @ x # bs)"
    then show "0 < psize ?s q" using D(3) by (auto simp: ps)
  next
    have "(\<Sum>x\<leftarrow>as. psize ?s x) = (\<Sum>x\<leftarrow>as. psize s x)" "(\<Sum>x\<leftarrow>bs. psize ?s x) = (\<Sum>x\<leftarrow>bs. psize s x)"
      using sizes_sum_cong[OF psa] sizes_sum_cong[OF psb] by auto
    moreover have "nr_free ?s = nr_free s" by (simp add: join_blocks_def Let_def)
    ultimately show "nr_free ?s = (\<Sum>x\<leftarrow>as @ x # bs. psize ?s x)" using D(4) by (simp add: ps)
  next
    fix q assume "q \<in> free_set ?s (as @ x # bs)"
    then have "q \<in> free_set s (as @ x # y # bs)" by (simp only: fs)
    then show "\<not> PageReserved (pg ?s q) \<and> (PageProperty (pg ?s q) \<longleftrightarrow> q \<in> set (as @ x # bs))"
      using D(5,6)[of q] dist by (auto simp: join_blocks_def Let_def)
  qed
qed


definition free_insert :: "nat \<Rightarrow> nat \<Rightarrow> pmm \<Rightarrow> pmm option" where
  "free_insert base n s = do {
     s1 \<leftarrow> clear_pages base n s;
     let s2 = upd_page base (\<lambda>d. SetPageProperty (d\<lparr>property := n\<rparr>)) s1;
     h \<leftarrow> insert_free base (links s2);
     Some (s2\<lparr>nr_free := nr_free s2 + n, links := h\<rparr>)
   }"

lemma default_free_pages_alt:
  "default_free_pages base n s = do {
     kassert (0 < n); s1 \<leftarrow> free_insert base n s;
     let (b, s2) = merge_low base s1; Some (merge_high b s2) }"
  by (simp add: default_free_pages_def free_insert_def kassert_def split: Option.bind_splits)

lemma free_insert_wf:
  assumes wf: "fl_wf s (as @ bs)" and n: "0 < n"
    and idle: "\<And>q. q \<in> {base ..< base + n} \<Longrightarrow>
       q \<notin> free_set s (as @ bs) \<and> \<not> PageReserved (pg s q) \<and> \<not> PageProperty (pg s q)"
    and as: "\<And>a. a \<in> set as \<Longrightarrow> a < base" and bs: "\<And>b. b \<in> set bs \<Longrightarrow> base < b"
    and guard: "as = [] \<or> bs \<noteq> []"
  obtains s' where "free_insert base n s = Some s'" "fl_wf s' (as @ base # bs)"
    "free_set s' (as @ base # bs) = free_set s (as @ bs) \<union> {base ..< base + n}"
    "nr_free s' = nr_free s + n"
    "(\<lambda>q. psize s' q) = (\<lambda>q. psize s q)(base := n)"
    "\<forall>q. q \<notin> {base ..< base + n} \<longrightarrow> pg s' q = pg s q"
proof -
  note D = fl_wfD[OF wf]
  obtain h where h: "insert_free base (links s) = Some h" "ring h FreeHead (map PageLink (as @ base # bs))"
    using insert_free_ring[OF D(1) as bs guard] by blast
  define s' where "s' = (upd_page base (\<lambda>d. SetPageProperty (d\<lparr>property := n\<rparr>))
    (s\<lparr>pg := (\<lambda>q. if q \<in> {base ..< base + n} then (pg s q)\<lparr>flags := 0, ref := 0\<rparr> else pg s q)\<rparr>))
      \<lparr>nr_free := nr_free s + n, links := h\<rparr>"
  have e: "free_insert base n s = Some s'"
    using clear_pages_Some[of base n s] idle h by (simp add: free_insert_def s'_def)
  have ps: "psize s' q = (if q = base then n else psize s q)" for q by (auto simp: s'_def)
  have psa: "psize s' q = psize s q" if "q \<in> set as" for q using as[OF that] by (simp add: ps)
  have psb: "psize s' q = psize s q" if "q \<in> set bs" for q using bs[OF that] by (simp add: ps)
  have fs: "free_set s' (as @ base # bs) = free_set s (as @ bs) \<union> {base ..< base + n}"
    using free_set_cong[of as s' s] free_set_cong[of bs s' s] psa psb by (auto simp: ps)
  have lo: "a + psize s a \<le> base" if "a \<in> set as" for a
    using idle[of base] n as[OF that] that by (force simp: free_set_def)
  have hi: "base + n \<le> b" if "b \<in> set bs" for b
    using idle[of b] bs[OF that] that head_in_free_set[OF wf, of b] by force
  have "fl_wf s' (as @ base # bs)"
  proof (rule fl_wfI)
    show "ring (links s') FreeHead (map PageLink (as @ base # bs))" using h by (simp add: s'_def)
    show "sorted_wrt (\<lambda>x y. x + psize s' x \<le> y) (as @ base # bs)"
      using D(2) lo hi sizes_sorted_cong[OF psa] sizes_sorted_cong[OF psb] ps[of base]
      by (auto simp: sorted_wrt_append psa)
    show "0 < psize s' x" if "x \<in> set (as @ base # bs)" for x using that D(3) n by (auto simp: ps)
    show "nr_free s' = (\<Sum>x\<leftarrow>as @ base # bs. psize s' x)"
      using D(4) sizes_sum_cong[OF psa] sizes_sum_cong[OF psb] ps[of base] by (simp add: s'_def)
    fix q assume "q \<in> free_set s' (as @ base # bs)"
    then have "q \<in> free_set s (as @ bs) \<or> q \<in> {base ..< base + n}" using fs by auto
    then show "\<not> PageReserved (pg s' q) \<and> (PageProperty (pg s' q) \<longleftrightarrow> q \<in> set (as @ base # bs))"
      using D(5,6)[of q] idle[of q] head_in_free_set[OF wf, of q] by (auto simp: s'_def)
  qed
  moreover have "pg s' q = pg s q" if "q \<notin> {base ..< base + n}" for q
    using that n by (auto simp: s'_def)
  ultimately show ?thesis using that e fs ps by (simp add: s'_def fun_eq_iff)
qed

lemma coalesced_successively:
  "coalesced s xs \<longleftrightarrow> successively (\<lambda>x y. x + psize s x < y) xs"
  unfolding coalesced_def
  by (rule sym[OF successively_conv_sorted_wrt]) (force simp: transp_def)

lemma coalesced_short [simp]: "coalesced s []" "coalesced s [x]"
  by (simp_all add: coalesced_def)

lemma coalesced_append:
  "coalesced s (xs @ ys) \<longleftrightarrow> coalesced s xs \<and> coalesced s ys \<and>
     (xs = [] \<or> ys = [] \<or> last xs + psize s (last xs) < hd ys)"
  by (auto simp: coalesced_successively successively_append_iff)

lemma coalesced_cong:
  "(\<And>x. x \<in> set xs \<Longrightarrow> psize s' x = psize s x) \<Longrightarrow> coalesced s' xs = coalesced s xs"
  unfolding coalesced_def by (induction xs) auto


lemma join_blocks_nr_free: "nr_free (join_blocks x y s) = nr_free s"
  by (simp add: join_blocks_def Let_def)

lemma join_blocks_frame:
  assumes "fl_wf s (as @ x # y # bs)" and "q \<notin> free_set s (as @ x # y # bs)"
  shows "pg (join_blocks x y s) q = pg s q"
  using head_in_free_set[OF assms(1), of x] head_in_free_set[OF assms(1), of y] assms(2)
  by (auto simp: join_blocks_def Let_def)

lemma merge_low_wf:
  assumes wf: "fl_wf s (as @ base # bs)"
  obtains b as' s' where "merge_low base s = (b, s')" "fl_wf s' (as' @ b # bs)"
    "free_set s' (as' @ b # bs) = free_set s (as @ base # bs)" "nr_free s' = nr_free s"
    "coalesced s as \<Longrightarrow> coalesced s' (as' @ [b])" "\<And>q. q \<in> set bs \<Longrightarrow> psize s' q = psize s q"
    "\<And>q. q \<notin> free_set s (as @ base # bs) \<Longrightarrow> pg s' q = pg s q"
proof (cases "as \<noteq> [] \<and> last as + psize s (last as) = base")
  case True
  then obtain as' x where as: "as = as' @ [x]" and adj: "x + psize s x = base"
    by (metis append_butlast_last_id)
  have wf': "fl_wf s (as' @ x # base # bs)" using wf as by simp
  have ps: "psize (join_blocks x base s) q = psize s q" if "q \<noteq> x" for q
    using that by (simp add: join_blocks_psize[OF wf'])
  have ne: "x \<notin> set as'" "x \<notin> set bs" using fl_wf_distinct[OF wf'] by auto
  have j: "coalesced (join_blocks x base s) as' = coalesced s as'"
    using ne ps by (intro coalesced_cong) metis
  have "coalesced (join_blocks x base s) (as' @ [x])" if "coalesced s as"
    using that j ne ps[of "last as'"] last_in_set[of as'] unfolding as coalesced_append by auto
  moreover have "merge_low base s = (x, join_blocks x base s)"
    using merge_low_join[OF fl_wfD(1)[OF wf'] adj] .
  moreover have "psize (join_blocks x base s) q = psize s q" if "q \<in> set bs" for q
    using ne ps that by metis
  ultimately show ?thesis
    using that[of x "join_blocks x base s" as'] join_blocks_wf[OF wf' adj] as join_blocks_frame[OF wf']
    by (simp add: join_blocks_nr_free)
next
  case False
  have "coalesced s as \<Longrightarrow> coalesced s (as @ [base])"
    using False fl_wf_sep(1)[OF wf, of "last as"] unfolding coalesced_append by fastforce
  then show ?thesis
    using that[OF merge_low_none[OF fl_wfD(1)[OF wf]] wf refl refl] False by blast
qed

lemma merge_high_wf:
  assumes wf: "fl_wf s (as @ b # bs)"
  obtains bs' where "fl_wf (merge_high b s) (as @ b # bs')"
    "free_set (merge_high b s) (as @ b # bs') = free_set s (as @ b # bs)"
    "nr_free (merge_high b s) = nr_free s"
    "coalesced s (as @ [b]) \<Longrightarrow> coalesced s bs \<Longrightarrow> coalesced (merge_high b s) (as @ b # bs')"
    "\<And>q. q \<notin> free_set s (as @ b # bs) \<Longrightarrow> pg (merge_high b s) q = pg s q"
proof (cases "bs \<noteq> [] \<and> b + psize s b = hd bs")
  case True
  then obtain y bs' where bs: "bs = y # bs'" and adj: "b + psize s b = y" by (cases bs) auto
  have wf': "fl_wf s (as @ b # y # bs')" using wf bs by simp
  have e: "merge_high b s = join_blocks b y s" using merge_high_join[OF fl_wfD(1)[OF wf'] adj] .
  have ne: "b \<notin> set as" "b \<notin> set bs'" using fl_wf_distinct[OF wf'] by auto
  have ps: "psize (join_blocks b y s) q = (if q = b then psize s b + psize s y else psize s q)" for q
    by (rule join_blocks_psize[OF wf'])
  have "coalesced (join_blocks b y s) as = coalesced s as" "coalesced (join_blocks b y s) bs' = coalesced s bs'"
    using ne by (auto intro!: coalesced_cong simp: ps)
  then have "coalesced s (as @ [b]) \<Longrightarrow> coalesced s bs \<Longrightarrow> coalesced (join_blocks b y s) (as @ b # bs')"
    using adj ne last_in_set[of as] unfolding bs
    using coalesced_append[of _ as "b # bs'"] coalesced_append[of _ "[b]" bs'] coalesced_append[of _ "[y]" bs']
      coalesced_append[of s as "[b]"]
    by (auto simp: ps)
  then show ?thesis
    using that[of bs'] join_blocks_wf[OF wf' adj] join_blocks_frame[OF wf']
    by (simp add: e bs join_blocks_nr_free)
next
  case False
  then have e: "merge_high b s = s" by (intro merge_high_none[OF fl_wfD(1)[OF wf]]) auto
  have "bs \<noteq> [] \<Longrightarrow> b + psize s b < hd bs"
    using False fl_wf_sep(2)[OF wf, of "hd bs"] by fastforce
  then have "coalesced s (as @ [b]) \<Longrightarrow> coalesced s bs \<Longrightarrow> coalesced s (as @ b # bs)"
    using coalesced_append[of s "as @ [b]" bs] by auto
  then show ?thesis using that[of bs] wf by (simp add: e)
qed

lemma sorted_split_at:
  assumes "sorted_wrt (<) (xs :: nat list)" and "x \<notin> set xs"
  obtains as bs where "xs = as @ bs" "\<And>a. a \<in> set as \<Longrightarrow> a < x" "\<And>b. b \<in> set bs \<Longrightarrow> x < b"
proof
  show "xs = takeWhile (\<lambda>a. a < x) xs @ dropWhile (\<lambda>a. a < x) xs" by simp
  show "\<And>a. a \<in> set (takeWhile (\<lambda>a. a < x) xs) \<Longrightarrow> a < x" by (auto dest: set_takeWhileD)
  show "x < b" if "b \<in> set (dropWhile (\<lambda>a. a < x) xs)" for b
    using assms that by (induction xs) (auto split: if_splits)
qed

lemma fl_wf_sorted:
  assumes "fl_wf s xs" shows "sorted_wrt (<) xs"
proof (rule sorted_wrt_mono_rel[OF _ fl_wfD(2)[OF assms]])
  fix x y assume "x \<in> set xs" "x + psize s x \<le> y"
  then show "x < y" using fl_wfD(3)[OF assms, of x] by linarith
qed

lemma default_free_pages_wf:
  assumes wf: "fl_wf s xs" and n: "0 < n"
    and idle: "\<And>q. q \<in> {base ..< base + n} \<Longrightarrow>
       q \<notin> free_set s xs \<and> \<not> PageReserved (pg s q) \<and> \<not> PageProperty (pg s q)"
    and guard: "xs = [] \<or> base < last xs"
  obtains s' xs' where "default_free_pages base n s = Some s'" "fl_wf s' xs'"
    "free_set s' xs' = free_set s xs \<union> {base ..< base + n}" "nr_free s' = nr_free s + n"
    "coalesced s xs \<Longrightarrow> coalesced s' xs'" "\<forall>q. q \<notin> free_set s' xs' \<longrightarrow> pg s' q = pg s q"
proof -
  have "base \<notin> set xs" using idle[of base] n head_in_free_set[OF wf, of base] by auto
  then obtain as bs where xs: "xs = as @ bs" and as: "\<And>a. a \<in> set as \<Longrightarrow> a < base"
    and bs: "\<And>b. b \<in> set bs \<Longrightarrow> base < b"
    using sorted_split_at[OF fl_wf_sorted[OF wf], of base] by blast
  have g: "as = [] \<or> bs \<noteq> []"
    using guard as[of "last as"] by (cases "as = []") (auto simp: xs)
  obtain s1 where s1: "free_insert base n s = Some s1" "fl_wf s1 (as @ base # bs)"
    "free_set s1 (as @ base # bs) = free_set s xs \<union> {base ..< base + n}"
    "nr_free s1 = nr_free s + n" and ps: "(\<lambda>q. psize s1 q) = (\<lambda>q. psize s q)(base := n)"
    and fr1: "\<forall>q. q \<notin> {base ..< base + n} \<longrightarrow> pg s1 q = pg s q"
    by (rule free_insert_wf[OF wf[unfolded xs] n idle[unfolded xs] as bs g, folded xs], blast)
  obtain b as' s2 where s2: "merge_low base s1 = (b, s2)" "fl_wf s2 (as' @ b # bs)"
    "free_set s2 (as' @ b # bs) = free_set s1 (as @ base # bs)" "nr_free s2 = nr_free s1"
    "coalesced s1 as \<Longrightarrow> coalesced s2 (as' @ [b])" "\<And>q. q \<in> set bs \<Longrightarrow> psize s2 q = psize s1 q"
    "\<And>q. q \<notin> free_set s1 (as @ base # bs) \<Longrightarrow> pg s2 q = pg s1 q"
    by (rule merge_low_wf[OF s1(2)], blast)
  obtain bs' where s3: "fl_wf (merge_high b s2) (as' @ b # bs')"
    "free_set (merge_high b s2) (as' @ b # bs') = free_set s2 (as' @ b # bs)"
    "nr_free (merge_high b s2) = nr_free s2"
    "coalesced s2 (as' @ [b]) \<Longrightarrow> coalesced s2 bs \<Longrightarrow> coalesced (merge_high b s2) (as' @ b # bs')"
    "\<And>q. q \<notin> free_set s2 (as' @ b # bs) \<Longrightarrow> pg (merge_high b s2) q = pg s2 q"
    by (rule merge_high_wf[OF s2(2)], blast)
  have "psize s1 q = psize s q" if "q \<in> set xs" for q using that as bs fun_cong[OF ps, of q] by (auto simp: xs)
  then have "coalesced s1 as = coalesced s as" "coalesced s2 bs = coalesced s bs"
    using s2(6) by (auto intro!: coalesced_cong simp: xs)
  then have "coalesced s xs \<Longrightarrow> coalesced (merge_high b s2) (as' @ b # bs')"
    using s2(5) s3(4) by (auto simp: xs coalesced_append)
  moreover have "default_free_pages base n s = Some (merge_high b s2)"
    using n s1(1) s2(1) by (simp add: default_free_pages_alt)
  moreover have "pg (merge_high b s2) q = pg s q"
    if "q \<notin> free_set (merge_high b s2) (as' @ b # bs')" for q
    using that s1(3) s2(3,7) s3(2,5) fr1 by auto
  moreover have "free_set (merge_high b s2) (as' @ b # bs') = free_set s xs \<union> {base ..< base + n}"
    "nr_free (merge_high b s2) = nr_free s + n"
    using s1(3,4) s2(3,4) s3(2,3) by simp_all
  ultimately show ?thesis using that[OF _ s3(1)] by blast
qed

lemma init_pages_Some:
  assumes "\<And>q. q \<in> {p ..< p + n} \<Longrightarrow> PageReserved (pg s q)"
  shows "init_pages p n s = Some (s\<lparr>pg := (\<lambda>q. if q \<in> {p ..< p + n}
    then (pg s q)\<lparr>flags := 0, property := 0, ref := 0\<rparr> else pg s q)\<rparr>)"
  using assms
proof (induction n arbitrary: p s)
  case (Suc n)
  let ?s = "upd_page p (\<lambda>d. d\<lparr>flags := 0, property := 0, ref := 0\<rparr>) s"
  have "init_pages (Suc p) n ?s = Some (?s\<lparr>pg := (\<lambda>q. if q \<in> {Suc p ..< Suc p + n}
      then (pg ?s q)\<lparr>flags := 0, property := 0, ref := 0\<rparr> else pg ?s q)\<rparr>)"
    using Suc.prems by (intro Suc.IH) auto
  then show ?case using Suc.prems[of p] by (auto simp: upd_page_def fun_eq_iff)
qed simp

lemma default_init_memmap_empty:
  assumes wf: "fl_wf s []" and n: "0 < n"
    and rsv: "\<And>q. q \<in> {base ..< base + n} \<Longrightarrow> PageReserved (pg s q)"
  obtains s' where "default_init_memmap base n s = Some s'" "fl_wf s' [base]"
    "free_set s' [base] = {base ..< base + n}"
proof -
  obtain h where h: "insert_free base (links s) = Some h" "ring h FreeHead [PageLink base]"
    using insert_free_ring[of "links s" "[]" "[]" base] fl_wfD(1)[OF wf] by auto
  define s' where "s' = (upd_page base (\<lambda>d. SetPageProperty (d\<lparr>property := n\<rparr>))
    (s\<lparr>pg := (\<lambda>q. if q \<in> {base ..< base + n}
       then (pg s q)\<lparr>flags := 0, property := 0, ref := 0\<rparr> else pg s q)\<rparr>))\<lparr>nr_free := n, links := h\<rparr>"
  have "default_init_memmap base n s = Some s'"
    using init_pages_Some[OF rsv] n h fl_wfD(4)[OF wf] by (simp add: default_init_memmap_def s'_def)
  moreover have "free_set s' [base] = {base ..< base + n}" by (simp add: s'_def)
  moreover have "fl_wf s' [base]" using h n by (intro fl_wfI) (auto simp: s'_def)
  ultimately show ?thesis using that by blast
qed

subsection \<open>A release above the last free block\<close>

lemma insert_walk_last:
  assumes "list_next le h = PageLink b" "b < base" "list_next (PageLink b) h = FreeHead"
  shows "insert_walk le base h =
    Some (list_add (PageLink base) (PageLink base) (list_add (PageLink b) (PageLink base) h))"
proof -
  let ?h1 = "list_add (PageLink b) (PageLink base) h"
  let ?h2 = "list_add (PageLink base) (PageLink base) ?h1"
  have n: "list_next (PageLink b) ?h1 = PageLink base" "list_next (PageLink base) ?h1 = FreeHead"
    "list_next (PageLink base) ?h2 = FreeHead"
    using assms by (auto simp: list_op_defs)
  have "insert_walk (PageLink base) base ?h2 = Some ?h2"
    using n by (subst insert_walk.simps) (simp add: Let_def)
  then have "insert_walk (PageLink b) base ?h1 = Some ?h2"
    using n by (subst insert_walk.simps) (simp add: Let_def)
  then show ?thesis using assms by (subst insert_walk.simps) (simp add: Let_def)
qed

lemma insert_walk_tail:
  assumes "ring h FreeHead (map PageLink (as @ bs))" and "bs \<noteq> []"
    and "\<And>b. b \<in> set bs \<Longrightarrow> b < base"
  shows "insert_walk (last (FreeHead # map PageLink as)) base h =
    Some (list_add (PageLink base) (PageLink base) (list_add (PageLink (last bs)) (PageLink base) h))"
  using assms
proof (induction bs arbitrary: as)
  case (Cons b bs)
  have nx: "list_next (last (FreeHead # map PageLink as)) h = PageLink b"
    using ring_nth_next[of h FreeHead "map PageLink as" "map PageLink (b # bs)"] Cons.prems by simp
  have nb: "list_next (PageLink b) h = hd (map PageLink bs @ [FreeHead])"
    using ring_next_elem[of h FreeHead "map PageLink as" "PageLink b" "map PageLink bs"] Cons.prems by simp
  show ?case
  proof (cases bs)
    case Nil
    have "b < base" using Cons.prems(3) by simp
    then show ?thesis using insert_walk_last[OF nx] nb Nil by simp
  next
    case (Cons c cs)
    then have "insert_walk (PageLink b) base h = Some (list_add (PageLink base) (PageLink base)
        (list_add (PageLink (last bs)) (PageLink base) h))"
      using Cons.IH[of "as @ [b]"] Cons.prems by simp
    then show ?thesis using nx nb Cons Cons.prems(3)[of b]
      by (subst insert_walk.simps) (simp add: Let_def)
  qed
qed simp


lemma default_free_pages_tail:
  assumes wf: "fl_wf s xs" and ne: "xs \<noteq> []" and n: "0 < n" and above: "last xs < base"
    and idle: "\<And>q. q \<in> {base ..< base + n} \<Longrightarrow>
       q \<notin> free_set s xs \<and> \<not> PageReserved (pg s q) \<and> \<not> PageProperty (pg s q)"
  obtains s' where "default_free_pages base n s = Some s'"
    "links s' = list_add (PageLink base) (PageLink base)
       (list_add (PageLink (last xs)) (PageLink base) (links s))"
    "nr_free s' = nr_free s + n"
proof -
  let ?h = "list_add (PageLink base) (PageLink base)
       (list_add (PageLink (last xs)) (PageLink base) (links s))"
  obtain ys y where xs: "xs = ys @ [y]" using ne by (metis rev_exhaust)
  note r = fl_wfD(1)[OF wf]
  have "x < base" if "x \<in> set xs" for x
    using that above fl_wf_sorted[OF wf] by (auto simp: xs sorted_wrt_append)
  then have w: "insert_walk FreeHead base (links s) = Some ?h"
    using insert_walk_tail[of "links s" "[]" xs base] r ne by simp
  have e: "\<not> list_empty FreeHead (links s)" using r ne by (auto simp: ring_simps)
  have "list_next (PageLink y) (links s) = FreeHead"
    using ring_next_elem[of "links s" FreeHead "map PageLink ys" "PageLink y" "[]"] r by (simp add: xs)
  then have lp: "list_prev (PageLink base) ?h = PageLink base" and ln: "list_next (PageLink base) ?h = FreeHead"
    by (auto simp: xs list_op_defs)
  have "merge_low base t = (base, t)" "merge_high base t = t"
    if "links t = ?h" "psize t base = n" for t :: pmm
    using that lp ln n by (simp_all add: merge_low_def merge_high_def)
  then show ?thesis
    using that n clear_pages_Some[OF idle[THEN conjunct2]] w e
    by (simp add: default_free_pages_def insert_free_def)
qed


subsection \<open>A sample state\<close>

text \<open>Eight managed pages; pages 2 to 5 are one free block, the others are in use.\<close>

definition sample_pmm :: pmm where
  "sample_pmm = \<lparr>
     pg = (\<lambda>i. \<lparr>ref = 0, flags = (if i = 2 then 2 else 0), property = (if i = 2 then 4 else 0),
                pra_vaddr = 0, visited = 0\<rparr>),
     links = (\<lambda>l. case l of FreeHead \<Rightarrow> \<lparr>le_prev = PageLink 2, le_next = PageLink 2\<rparr>
                        | PageLink _ \<Rightarrow> \<lparr>le_prev = FreeHead, le_next = FreeHead\<rparr>),
     nr_free = 4\<rparr>"

lemma sample_pmm_wf: "fl_wf sample_pmm [2]"
  by (rule fl_wfI) (auto simp: sample_pmm_def ring_def page_flag_defs)

lemma sample_pmm_simps [simp]:
  "free_set sample_pmm [2] = {2 ..< 6}" "nr_free sample_pmm = 4"
  "PageReserved (pg sample_pmm q) = False" "PageProperty (pg sample_pmm q) \<longleftrightarrow> q = 2"
  "psize sample_pmm q = (if q = 2 then 4 else 0)"
  by (auto simp: sample_pmm_def page_flag_defs)

subsection \<open>Properties\<close>

text \<open>C1: \<^verbatim>\<open>default_alloc_pages\<close> is exact first fit. On a well-formed free list it returns the head of
  the first block with at least \<open>n\<close> pages, or NULL with the state unchanged exactly when there is
  none; the \<open>n\<close> pages returned were all free, leave the free set and no other page does, the
  counter drops by \<open>n\<close>, the list stays well formed, and the returned pages carry neither the
  reserved nor the head-of-block flag.\<close>

theorem default_alloc_pages_first_fit:
  assumes "fl_wf s xs" and "0 < n"
  shows "case find (\<lambda>p. n \<le> psize s p) xs of
      None \<Rightarrow> default_alloc_pages n s = Some (None, s)
    | Some p \<Rightarrow> \<exists>s' xs'. default_alloc_pages n s = Some (Some p, s') \<and> fl_wf s' xs' \<and>
        {p ..< p + n} \<subseteq> free_set s xs \<and> free_set s' xs' = free_set s xs - {p ..< p + n} \<and>
        nr_free s' + n = nr_free s \<and>
        (\<forall>q\<in>{p ..< p + n}. \<not> PageReserved (pg s' q) \<and> \<not> PageProperty (pg s' q))"
proof (cases "find (\<lambda>p. n \<le> psize s p) xs")
  case None
  then show ?thesis using default_alloc_pages_wf[OF assms] by simp
next
  case (Some p)
  then obtain as bs where xs: "xs = as @ p # bs" and fit: "n \<le> psize s p" by (rule find_split) 
  note wf = assms(1)[unfolded xs]
  have "nr_free (take_block p n s) + n = nr_free s"
    using fl_wfD(4)[OF wf] fit by (simp add: take_block_def Let_def)
  then show ?thesis
    using default_alloc_pages_wf[OF assms] Some take_block_wf[OF wf assms(2) fit] fit
      take_block_flags[OF wf assms(2) fit] unfolding xs by auto
qed

theorem default_alloc_pages_first_fit_witness:
  "\<exists>s' xs'. default_alloc_pages 3 sample_pmm = Some (Some 2, s') \<and> fl_wf s' xs' \<and>
     free_set s' xs' = {5 ..< 6} \<and> nr_free s' = 1"
  using default_alloc_pages_first_fit[OF sample_pmm_wf, of 3] by auto

text \<open>C2: \<^verbatim>\<open>default_free_pages\<close> below the last free block. If the block handed back is in use (none of
  its pages free, reserved or a block head) and the list is empty or ends above it, the release
  succeeds, exactly its pages become free, the counter grows by \<open>n\<close>, the list stays well formed,
  and a list without adjacent blocks has none afterwards: every neighbour is merged.\<close>

theorem default_free_pages_below:
  assumes "fl_wf s xs" and "0 < n" and "xs = [] \<or> base < last xs"
    and "\<forall>q\<in>{base ..< base + n}. q \<notin> free_set s xs \<and> \<not> PageReserved (pg s q) \<and> \<not> PageProperty (pg s q)"
  shows "\<exists>s' xs'. default_free_pages base n s = Some s' \<and> fl_wf s' xs' \<and>
     free_set s' xs' = free_set s xs \<union> {base ..< base + n} \<and> nr_free s' = nr_free s + n \<and>
     (coalesced s xs \<longrightarrow> coalesced s' xs')"
  by (rule default_free_pages_wf[OF assms(1,2) _ assms(3)]) (use assms(4) in auto)

theorem default_free_pages_below_witness:
  "\<exists>s' xs'. default_free_pages 0 2 sample_pmm = Some s' \<and> fl_wf s' xs' \<and>
     free_set s' xs' = {0 ..< 6} \<and> coalesced s' xs'"
proof -
  have "{2 ..< 6} \<union> {0 ..< 0 + 2} = {0 ..< 6 :: nat}" by auto
  then show ?thesis
    using default_free_pages_below[OF sample_pmm_wf, of 2 0] by (auto simp del: add_0)
qed


text \<open>C3: Allocation and release undo each other. After \<^verbatim>\<open>default_alloc_pages\<close> hands out block \<open>p\<close>,
  giving it back restores the free set and the counter, unless the allocation consumed the whole
  last block of a list with other blocks.\<close>

theorem alloc_free_round_trip:
  assumes "fl_wf s xs" and "0 < n" and "find (\<lambda>p. n \<le> psize s p) xs = Some p"
    and "p \<noteq> last xs \<or> n < psize s p \<or> xs = [p]"
  shows "\<exists>s1 s2 xs2. default_alloc_pages n s = Some (Some p, s1) \<and>
     default_free_pages p n s1 = Some s2 \<and> fl_wf s2 xs2 \<and>
     free_set s2 xs2 = free_set s xs \<and> nr_free s2 = nr_free s"
proof -
  obtain as bs where xs: "xs = as @ p # bs" and fit: "n \<le> psize s p"
    by (rule find_split[OF assms(3)])
  note wf = assms(1)[unfolded xs]
  let ?s1 = "take_block p n s" and ?xs = "as @ after_take s p n @ bs"
  note t = take_block_wf[OF wf assms(2) fit]
  have sub: "{p ..< p + n} \<subseteq> free_set s xs" using fit by (auto simp: xs)
  have "p < last ?xs" if "?xs \<noteq> []"
    using that assms(2,4) fl_wf_sep(2)[OF wf, of "last bs"] fit
    by (auto simp: after_take_def xs split: if_splits)
  then have guard: "?xs = [] \<or> p < last ?xs" by blast
  have idle: "q \<notin> free_set ?s1 ?xs \<and> \<not> PageReserved (pg ?s1 q) \<and> \<not> PageProperty (pg ?s1 q)"
    if "q \<in> {p ..< p + n}" for q
    using that take_block_flags[OF wf assms(2) fit that] unfolding t(2) by auto
  obtain s2 xs2 where f: "default_free_pages p n ?s1 = Some s2" "fl_wf s2 xs2"
    "free_set s2 xs2 = free_set ?s1 ?xs \<union> {p ..< p + n}" "nr_free s2 = nr_free ?s1 + n"
    by (rule default_free_pages_wf[OF t(1) assms(2) idle guard], blast)
  moreover have "nr_free ?s1 + n = nr_free s"
    using fl_wfD(4)[OF wf] fit by (simp add: take_block_def Let_def)
  moreover have "free_set s2 xs2 = free_set s xs" using f(3) t(2) sub unfolding xs by auto
  ultimately show ?thesis using default_alloc_pages_wf[OF assms(1,2)] assms(3) by auto
qed

theorem alloc_free_round_trip_witness:
  "\<exists>s1 s2 xs2. default_alloc_pages 3 sample_pmm = Some (Some 2, s1) \<and>
     default_free_pages 2 3 s1 = Some s2 \<and> fl_wf s2 xs2 \<and> free_set s2 xs2 = {2 ..< 6}"
  using alloc_free_round_trip[OF sample_pmm_wf, of 3 2] by auto

text \<open>C4: Boot. On an initialised allocator \<^verbatim>\<open>default_init_memmap\<close> accepts a block of reserved pages
  and makes exactly these pages free.\<close>

theorem default_init_memmap_boot:
  assumes "0 < n" and "\<forall>q\<in>{base ..< base + n}. PageReserved (pg s q)"
  shows "\<exists>s'. default_init_memmap base n (default_init s) = Some s' \<and> fl_wf s' [base] \<and>
     free_set s' [base] = {base ..< base + n} \<and> default_nr_free_pages s' = n"
proof -
  have wf: "fl_wf (default_init s) []"
    by (rule fl_wfI) (auto simp: default_init_def ring_list_init)
  have "PageReserved (pg (default_init s) q)" if "q \<in> {base ..< base + n}" for q
    using assms(2) that by (simp add: default_init_def)
  from default_init_memmap_empty[OF wf assms(1) this] obtain s' where
    s': "default_init_memmap base n (default_init s) = Some s'" "fl_wf s' [base]"
      "free_set s' [base] = {base ..< base + n}" by blast
  then have "nr_free s' = n" using card_free_set[OF s'(2)] by simp
  then show ?thesis using s' by (auto simp: default_nr_free_pages_def)
qed

definition reserved_pmm :: pmm where
  "reserved_pmm = sample_pmm\<lparr>pg := \<lambda>_. \<lparr>ref = 0, flags = 1, property = 0, pra_vaddr = 0, visited = 0\<rparr>\<rparr>"

theorem default_init_memmap_boot_witness:
  "\<exists>s'. default_init_memmap 0 8 (default_init reserved_pmm) = Some s' \<and> default_nr_free_pages s' = 8"
  using default_init_memmap_boot[of 8 0 reserved_pmm] by (auto simp: reserved_pmm_def page_flag_defs)

text \<open>C5: A release above the last free block. The search loop does not stop after it has linked the
  block at the tail: it visits the block just linked and links it after itself. The block's
  \<^verbatim>\<open>prev\<close> ends up pointing to itself, so it is not merged with an adjacent predecessor and the
  list is no longer a well-formed ring.\<close>

theorem default_free_pages_above:
  assumes "fl_wf s xs" and "xs \<noteq> []" and "0 < n" and "last xs < base"
    and "\<forall>q\<in>{base ..< base + n}. q \<notin> free_set s xs \<and> \<not> PageReserved (pg s q) \<and> \<not> PageProperty (pg s q)"
  shows "\<exists>s'. default_free_pages base n s = Some s' \<and> nr_free s' = nr_free s + n \<and>
     list_prev (PageLink base) (links s') = PageLink base \<and>
     list_next (PageLink (last xs)) (links s') = PageLink base \<and>
     \<not> fl_wf s' (xs @ [base])"
proof -
  obtain s' where s': "default_free_pages base n s = Some s'" "nr_free s' = nr_free s + n"
    "links s' = list_add (PageLink base) (PageLink base)
       (list_add (PageLink (last xs)) (PageLink base) (links s))"
    by (rule default_free_pages_tail[OF assms(1-4)]) (use assms(5) in auto)
  have lp: "list_prev (PageLink base) (links s') = PageLink base"
    "list_next (PageLink (last xs)) (links s') = PageLink base"
    using s'(3) assms(4) by (auto simp: list_op_defs)
  moreover have False if wf: "fl_wf s' (xs @ [base])"
  proof -
    have "list_prev (PageLink base) (links s') = last (FreeHead # map PageLink xs)"
      using ring_prev_elem[of "links s'" FreeHead "map PageLink xs" "PageLink base" "[]"] fl_wfD(1)[OF wf]
      by simp
    then show False using lp assms(2,4) by (simp add: last_map)
  qed
  ultimately show ?thesis using s' by blast
qed

theorem default_free_pages_above_witness:
  "\<exists>s'. default_free_pages 6 2 sample_pmm = Some s' \<and>
     list_prev (PageLink 6) (links s') = PageLink 6 \<and> \<not> fl_wf s' [2, 6]"
  using default_free_pages_above[OF sample_pmm_wf, of 2 6] by auto

definition double_alloc_trace :: "(nat option \<times> nat option \<times> nat option \<times> nat option) option" where
  "double_alloc_trace = do {
     s \<leftarrow> default_init_memmap 0 8 (default_init reserved_pmm);
     (a, s) \<leftarrow> default_alloc_pages 1 s;
     (b, s) \<leftarrow> default_alloc_pages 7 s;
     s \<leftarrow> default_free_pages 0 1 s;
     s \<leftarrow> default_free_pages 1 7 s;
     (c, s) \<leftarrow> default_alloc_pages 2 s;
     (d, s) \<leftarrow> default_alloc_pages 2 s;
     Some (a, b, c, d)
   }"


end
