(* ===== verification/Frame_Pool.thy ===== *)
theory Frame_Pool
  imports Default_Pmm
begin

text \<open>
  What the rest of memory management relies on when it calls \<^verbatim>\<open>alloc_page\<close> and \<^verbatim>\<open>free_page\<close>:
  the interface of \<^verbatim>\<open>struct pmm_manager\<close> (\<^verbatim>\<open>src/kern/mm/pmm.h\<close>) restricted to single pages,
  as a locale, and its interpretation on the first-fit allocator. The laws hold while the
  topmost managed page \<open>t\<close> stays free: then no release is a release above the last free block.
\<close>

locale frame_pool =
  fixes inv :: "nat \<Rightarrow> 's \<Rightarrow> bool"
    and frames :: "'s \<Rightarrow> nat set"
    and page :: "'s \<Rightarrow> nat \<Rightarrow> Page"
    and alloc1 :: "'s \<Rightarrow> (nat option \<times> 's) option"
    and free1 :: "nat \<Rightarrow> 's \<Rightarrow> 's option"
  assumes fin: "inv t s \<Longrightarrow> finite (frames s)"
    and top_free: "inv t s \<Longrightarrow> t \<in> frames s"
    and alloc1_law: "inv t s \<Longrightarrow> 2 \<le> card (frames s) \<Longrightarrow>
      \<exists>p s'. alloc1 s = Some (Some p, s') \<and> inv t s' \<and> p \<in> frames s \<and> p < t \<and> frames s' = frames s - {p} \<and>
        \<not> PageReserved (page s' p) \<and> \<not> PageProperty (page s' p) \<and>
        (\<forall>q. q \<notin> frames s \<longrightarrow> page s' q = page s q)"
    and free1_law: "inv t s \<Longrightarrow> p \<notin> frames s \<Longrightarrow> p < t \<Longrightarrow>
      \<not> PageReserved (page s p) \<Longrightarrow> \<not> PageProperty (page s p) \<Longrightarrow>
      \<exists>s'. free1 p s = Some s' \<and> inv t s' \<and> frames s' = insert p (frames s) \<and>
        (\<forall>q. q \<notin> frames s' \<longrightarrow> page s' q = page s q)"
begin

lemma alloc1_card:
  assumes "inv t s" "2 \<le> card (frames s)" "alloc1 s = Some (r, s')"
  shows "card (frames s') + 1 = card (frames s)"
  using alloc1_law[OF assms(1,2)] assms(2,3) fin[OF assms(1)]
  by (auto simp: card_Diff_singleton)

lemma alloc1_twice:
  assumes "inv t s" "3 \<le> card (frames s)"
  obtains p q s1 s2 where "alloc1 s = Some (Some p, s1)" "alloc1 s1 = Some (Some q, s2)" "p \<noteq> q"
    "inv t s2" "frames s2 = frames s - {p, q}"
proof -
  obtain p s1 where 1: "alloc1 s = Some (Some p, s1)" "inv t s1" "frames s1 = frames s - {p}"
    using alloc1_law[OF assms(1)] assms(2) by force
  have "2 \<le> card (frames s1)" using alloc1_card[OF assms(1) _ 1(1)] assms(2) by simp
  then obtain q s2 where "alloc1 s1 = Some (Some q, s2)" "inv t s2" "q \<in> frames s1"
    "frames s2 = frames s1 - {q}" using alloc1_law[OF 1(2)] by force
  then show ?thesis using that[of p s1 q s2] 1 by auto
qed

lemma alloc1_free1:
  assumes "inv t s" "2 \<le> card (frames s)"
  obtains p s1 s2 where "alloc1 s = Some (Some p, s1)" "free1 p s1 = Some s2" "inv t s2"
    "frames s2 = frames s"
proof -
  obtain p s1 where 1: "alloc1 s = Some (Some p, s1)" "inv t s1" "p \<in> frames s" "p < t"
    "frames s1 = frames s - {p}" "\<not> PageReserved (page s1 p)" "\<not> PageProperty (page s1 p)"
    using alloc1_law[OF assms] by blast
  then obtain s2 where "free1 p s1 = Some s2" "inv t s2" "frames s2 = insert p (frames s1)"
    using free1_law[OF 1(2), of p] by auto
  then show ?thesis using that[OF 1(1)] 1(3,5) by (simp add: insert_absorb)
qed

end

subsection \<open>The first-fit allocator is a frame pool\<close>

definition pfree :: "pmm \<Rightarrow> nat set" where
  "pfree s = {q. \<exists>xs. fl_wf s xs \<and> q \<in> free_set s xs}"

definition pool_inv :: "nat \<Rightarrow> pmm \<Rightarrow> bool" where
  "pool_inv t s \<longleftrightarrow> (\<exists>xs. fl_wf s xs \<and> t \<in> free_set s xs \<and> (\<forall>q\<in>free_set s xs. q \<le> t))"

lemma pfree_eq: "fl_wf s xs \<Longrightarrow> pfree s = free_set s xs"
proof -
  assume wf: "fl_wf s xs"
  have "ys = xs" if "fl_wf s ys" for ys
    using ring_unique[OF fl_wfD(1)[OF that] fl_wfD(1)[OF wf]] by (auto dest: map_injective simp: inj_def)
  then show ?thesis using wf unfolding pfree_def by blast
qed

lemma take_block_frame:
  assumes "fl_wf s (as @ p # bs)" "n \<le> psize s p" "0 < n" and "q \<notin> free_set s (as @ p # bs)"
  shows "pg (take_block p n s) q = pg s q"
  using assms by (auto simp: take_block_def Let_def)

lemma pool_alloc:
  assumes inv: "pool_inv t s" and two: "2 \<le> card (pfree s)"
  shows "\<exists>p s'. default_alloc_pages 1 s = Some (Some p, s') \<and> pool_inv t s' \<and> p \<in> pfree s \<and> p < t \<and>
    pfree s' = pfree s - {p} \<and> \<not> PageReserved (pg s' p) \<and> \<not> PageProperty (pg s' p) \<and>
    (\<forall>q. q \<notin> pfree s \<longrightarrow> pg s' q = pg s q)"
proof -
  obtain xs where wf: "fl_wf s xs" and t: "t \<in> free_set s xs" "\<forall>q\<in>free_set s xs. q \<le> t"
    using inv by (auto simp: pool_inv_def)
  note pf = pfree_eq[OF wf]
  obtain p bs where xs: "xs = p # bs" using t by (cases xs) auto
  have sz: "1 \<le> psize s p" using fl_wfD(3)[OF wf, of p] by (simp add: xs)
  then have fnd: "find (\<lambda>p. 1 \<le> psize s p) xs = Some p" by (simp add: xs)
  let ?s = "take_block p 1 s" and ?xs = "[] @ after_take s p 1 @ bs"
  have wf0: "fl_wf s ([] @ p # bs)" using wf by (simp add: xs)
  note tw = take_block_wf[OF wf0 _ sz] and tf = take_block_flags[OF wf0 _ sz]
  have fs: "free_set ?s ?xs = pfree s - {p}" using tw(2) by (simp add: pf xs)
  have pf': "pfree ?s = pfree s - {p}" using pfree_eq[OF tw(1)] fs by simp
  have pin: "p \<in> pfree s" using head_in_free_set[OF wf, of p] by (simp add: pf xs)
  have "p \<noteq> t"
  proof
    assume "p = t"
    have "q = p" if "q \<in> free_set s xs" for q
    proof -
      have "p \<le> q" using that fl_wf_sep(2)[OF wf0] by (fastforce simp: xs free_set_def)
      then show ?thesis using t(2) that \<open>p = t\<close> by force
    qed
    then have "pfree s \<subseteq> {p}" by (auto simp: pf)
    then show False using two card_mono[of "{p}" "pfree s"] by simp
  qed
  then have "p < t" using t(2) pin by (force simp: pf)
  moreover have "pool_inv t ?s"
    using tw(1) fs t \<open>p \<noteq> t\<close> by (auto simp: pool_inv_def pf intro!: exI[of _ ?xs])
  moreover have "default_alloc_pages 1 s = Some (Some p, ?s)"
    using default_alloc_pages_wf[OF wf, of 1] fnd by simp
  moreover have "pg ?s q = pg s q" if "q \<notin> pfree s" for q
    using take_block_frame[OF wf0 sz] that by (simp add: pf xs)
  moreover have "\<not> PageReserved (pg ?s p) \<and> \<not> PageProperty (pg ?s p)" using tf[of p] by simp
  ultimately show ?thesis using pf' pin by blast
qed

lemma pool_free:
  assumes inv: "pool_inv t s" and p: "p \<notin> pfree s" "p < t"
    and fl: "\<not> PageReserved (pg s p)" "\<not> PageProperty (pg s p)"
  shows "\<exists>s'. default_free_pages p 1 s = Some s' \<and> pool_inv t s' \<and> pfree s' = insert p (pfree s) \<and>
    (\<forall>q. q \<notin> pfree s' \<longrightarrow> pg s' q = pg s q)"
proof -
  obtain xs where wf: "fl_wf s xs" and t: "t \<in> free_set s xs" "\<forall>q\<in>free_set s xs. q \<le> t"
    using inv by (auto simp: pool_inv_def)
  note pf = pfree_eq[OF wf]
  have guard: "xs = [] \<or> p < last xs"
  proof (cases xs rule: rev_exhaust)
    case (snoc ys y)
    have wf': "fl_wf s (ys @ y # [])" using wf snoc by simp
    have "y \<in> free_set s xs" using head_in_free_set[OF wf, of y] snoc by simp
    have "t \<in> {y ..< y + psize s y}"
    proof -
      have "q < y" if "q \<in> free_set s ys" for q
        using that fl_wf_sep(1)[OF wf'] by (fastforce simp: free_set_def)
      then show ?thesis using t \<open>y \<in> free_set s xs\<close> snoc by fastforce
    qed
    then have "p < y" using p by (force simp: pf snoc)
    then show ?thesis by (simp add: snoc)
  qed simp
  have idle: "q \<notin> free_set s xs \<and> \<not> PageReserved (pg s q) \<and> \<not> PageProperty (pg s q)"
    if "q \<in> {p ..< p + 1}" for q using that p fl pf by auto
  obtain s' xs' where f: "default_free_pages p 1 s = Some s'" "fl_wf s' xs'"
    "free_set s' xs' = free_set s xs \<union> {p ..< p + 1}" "\<forall>q. q \<notin> free_set s' xs' \<longrightarrow> pg s' q = pg s q"
    by (rule default_free_pages_wf[OF wf zero_less_one idle guard], blast)
  then have "pfree s' = insert p (pfree s)" using pfree_eq[OF f(2)] pf by auto
  moreover have "pool_inv t s'" using f(2,3) t p(2) by (auto simp: pool_inv_def intro!: exI[of _ xs'])
  ultimately show ?thesis using f(1,4) pfree_eq[OF f(2)] by auto
qed

interpretation pool: frame_pool pool_inv pfree pg "default_alloc_pages 1" "\<lambda>p. default_free_pages p 1"
proof
  fix t s assume inv: "pool_inv t s"
  then obtain xs where "fl_wf s xs" "t \<in> free_set s xs" by (auto simp: pool_inv_def)
  then show "finite (pfree s)" "t \<in> pfree s" by (simp_all add: pfree_eq) (simp add: free_set_def)
qed (erule (1) pool_alloc, erule (4) pool_free)

end
