(* ===== verification/Page_Table.thy ===== *)
theory Page_Table
  imports Frame_Pool
begin

text \<open>
  The three-level Sv39 page tables of \<^verbatim>\<open>src/kern/mm/pmm.c\<close> with the address and entry macros of
  \<^verbatim>\<open>src/kern/mm/mmu.h\<close> and the conversions of \<^verbatim>\<open>src/kern/mm/pmm.h\<close>. Entries and addresses are
  64-bit words. A page frame is its index in \<^verbatim>\<open>pages[]\<close>, its contents are 512 words; the kernel
  virtual address of a frame is the frame itself, so a \<^verbatim>\<open>pte_t *\<close> is a pair of a frame and an
  index. \<^verbatim>\<open>sfence.vma\<close> has no effect on this state.
\<close>

unbundle bit_operations_syntax

type_synonym pte_t = "64 word"
type_synonym pte_ptr = "nat \<times> nat"

subsection \<open>Address and entry macros\<close>

definition PDX1 :: "64 word \<Rightarrow> nat" where "PDX1 la = unat (drop_bit 30 la AND 0x1FF)"
definition PDX0 :: "64 word \<Rightarrow> nat" where "PDX0 la = unat (drop_bit 21 la AND 0x1FF)"
definition PTX :: "64 word \<Rightarrow> nat" where "PTX la = unat (drop_bit 12 la AND 0x1FF)"
definition PPN :: "64 word \<Rightarrow> 64 word" where "PPN la = drop_bit 12 la"
definition PGOFF :: "64 word \<Rightarrow> 64 word" where "PGOFF la = la AND 0xFFF"
definition PGADDR :: "64 word \<Rightarrow> 64 word \<Rightarrow> 64 word \<Rightarrow> 64 word \<Rightarrow> 64 word" where
  "PGADDR d1 d0 t off = push_bit 30 d1 OR push_bit 21 d0 OR push_bit 12 t OR off"
definition PTE_ADDR :: "pte_t \<Rightarrow> 64 word" where "PTE_ADDR pte = push_bit 2 (pte AND NOT 0x3FF)"
definition PDE_ADDR :: "pte_t \<Rightarrow> 64 word" where "PDE_ADDR pde = PTE_ADDR pde"

definition NPTEENTRY :: nat where "NPTEENTRY = 512"
definition PGSIZE :: "64 word" where "PGSIZE = 4096"
definition PTSIZE :: "64 word" where "PTSIZE = 4096 * 512"
definition PDSIZE :: "64 word" where "PDSIZE = 4096 * 512 * 512"

definition PTE_V :: pte_t where "PTE_V = 0x001"
definition PTE_R :: pte_t where "PTE_R = 0x002"
definition PTE_W :: pte_t where "PTE_W = 0x004"
definition PTE_X :: pte_t where "PTE_X = 0x008"
definition PTE_U :: pte_t where "PTE_U = 0x010"
definition PTE_A :: pte_t where "PTE_A = 0x040"
definition PTE_D :: pte_t where "PTE_D = 0x080"
definition PTE_USER :: pte_t where "PTE_USER = PTE_R OR PTE_W OR PTE_X OR PTE_U OR PTE_V"

definition ROUNDDOWN :: "64 word \<Rightarrow> 64 word \<Rightarrow> 64 word" where
  "ROUNDDOWN a n = a - a mod n"
definition ROUNDUP :: "64 word \<Rightarrow> 64 word \<Rightarrow> 64 word" where
  "ROUNDUP a n = ROUNDDOWN (a + n - 1) n"

definition USERBASE :: "64 word" where "USERBASE = 0x00200000"
definition USERTOP :: "64 word" where "USERTOP = 0x80000000"
definition USER_ACCESS :: "64 word \<Rightarrow> 64 word \<Rightarrow> bool" where
  "USER_ACCESS start en \<longleftrightarrow> USERBASE \<le> start \<and> start < en \<and> en \<le> USERTOP"

subsection \<open>Frames\<close>

definition nbase :: nat where "nbase = 0x80000"
definition npage :: nat where "npage = 0x88000"

definition page2ppn :: "nat \<Rightarrow> 64 word" where "page2ppn page = of_nat (page + nbase)"
definition page2pa :: "nat \<Rightarrow> 64 word" where "page2pa page = push_bit 12 (page2ppn page)"

text \<open>
  \<^verbatim>\<open>pa2page\<close> panics at or above \<^verbatim>\<open>npage\<close>; below \<^verbatim>\<open>nbase\<close> the index leaves the array. \<^verbatim>\<open>KADDR\<close>
  has the same bound.
\<close>

definition pa2page :: "64 word \<Rightarrow> nat option" where
  "pa2page pa = do {
     kassert (unat (PPN pa) < npage);
     kassert (nbase \<le> unat (PPN pa));
     Some (unat (PPN pa) - nbase)
   }"

definition KADDR :: "64 word \<Rightarrow> nat option" where
  "KADDR pa = do {
     kassert (unat (PPN pa) < npage);
     kassert (nbase \<le> unat (PPN pa));
     Some (unat (PPN pa) - nbase)
   }"

definition page2kva :: "nat \<Rightarrow> nat option" where "page2kva page = KADDR (page2pa page)"

definition pte2page :: "pte_t \<Rightarrow> nat option" where
  "pte2page pte = do { kassert (pte AND PTE_V \<noteq> 0); pa2page (PTE_ADDR pte) }"
definition pde2page :: "pte_t \<Rightarrow> nat option" where
  "pde2page pde = pa2page (PDE_ADDR pde)"

text \<open>The permission bits arrive as a C \<^verbatim>\<open>int\<close> and are sign-extended.\<close>

definition pte_create :: "64 word \<Rightarrow> 32 word \<Rightarrow> pte_t" where
  "pte_create ppn type = push_bit 10 ppn OR PTE_V OR scast type"

subsection \<open>The memory state\<close>

record kmem =
  pm :: pmm
  ram :: "nat \<Rightarrow> nat \<Rightarrow> 64 word"
  swap_init_ok :: bool

definition page_ref :: "nat \<Rightarrow> kmem \<Rightarrow> int" where "page_ref page s = ref (pg (pm s) page)"
definition set_page_ref :: "nat \<Rightarrow> int \<Rightarrow> kmem \<Rightarrow> kmem" where
  "set_page_ref page v s = s\<lparr>pm := upd_page page (\<lambda>d. d\<lparr>ref := v\<rparr>) (pm s)\<rparr>"
definition page_ref_inc :: "nat \<Rightarrow> kmem \<Rightarrow> kmem" where
  "page_ref_inc page s = set_page_ref page (page_ref page s + 1) s"
definition page_ref_dec :: "nat \<Rightarrow> kmem \<Rightarrow> kmem" where
  "page_ref_dec page s = set_page_ref page (page_ref page s - 1) s"

definition pte_write :: "pte_ptr \<Rightarrow> pte_t \<Rightarrow> kmem \<Rightarrow> kmem" where
  "pte_write ptep v s = s\<lparr>ram := (ram s)(fst ptep := (ram s (fst ptep))(snd ptep := v))\<rparr>"
definition pte_read :: "pte_ptr \<Rightarrow> kmem \<Rightarrow> pte_t" where
  "pte_read ptep s = ram s (fst ptep) (snd ptep)"
definition clear_frame :: "nat \<Rightarrow> kmem \<Rightarrow> kmem" where
  "clear_frame page s = s\<lparr>ram := (ram s)(page := (\<lambda>_. 0))\<rparr>"
definition copy_frame :: "nat \<Rightarrow> nat \<Rightarrow> kmem \<Rightarrow> kmem" where
  "copy_frame dst src s = s\<lparr>ram := (ram s)(dst := ram s src)\<rparr>"

subsection \<open>Operations\<close>

text \<open>
  \<^verbatim>\<open>alloc_pages\<close> retries after \<^verbatim>\<open>swap_out(check_mm_struct, n, 0)\<close>. Outside the boot-time self
  checks \<^verbatim>\<open>check_mm_struct\<close> is NULL and \<^verbatim>\<open>swap_out\<close> dereferences it, which panics.
\<close>

definition alloc_pages :: "nat \<Rightarrow> kmem \<Rightarrow> (nat option \<times> kmem) option" where
  "alloc_pages n s = do {
     (page, p) \<leftarrow> default_alloc_pages n (pm s);
     if page \<noteq> None \<or> 1 < n \<or> \<not> swap_init_ok s then Some (page, s\<lparr>pm := p\<rparr>)
     else None
   }"

definition free_pages :: "nat \<Rightarrow> nat \<Rightarrow> kmem \<Rightarrow> kmem option" where
  "free_pages base n s = do { p \<leftarrow> default_free_pages base n (pm s); Some (s\<lparr>pm := p\<rparr>) }"

definition nr_free_pages :: "kmem \<Rightarrow> nat" where "nr_free_pages s = default_nr_free_pages (pm s)"

text \<open>One level of \<^verbatim>\<open>get_pte\<close>: the table below entry \<open>pdep\<close>, made on demand.\<close>

definition next_table :: "pte_ptr \<Rightarrow> bool \<Rightarrow> kmem \<Rightarrow> (nat option \<times> kmem) option" where
  "next_table pdep create s =
     (if pte_read pdep s AND PTE_V = 0 then
        if \<not> create then Some (None, s)
        else do {
          (page, s1) \<leftarrow> alloc_pages 1 s;
          case page of
            None \<Rightarrow> Some (None, s1)
          | Some p \<Rightarrow> do {
              let s2 = set_page_ref p 1 s1;
              f \<leftarrow> KADDR (page2pa p);
              let s3 = clear_frame f s2;
              let s4 = pte_write pdep (pte_create (page2ppn p) (ucast (PTE_U OR PTE_V))) s3;
              t \<leftarrow> KADDR (PDE_ADDR (pte_read pdep s4));
              Some (Some t, s4)
            }
        }
      else do { t \<leftarrow> KADDR (PDE_ADDR (pte_read pdep s)); Some (Some t, s) })"

definition get_pte :: "nat \<Rightarrow> 64 word \<Rightarrow> bool \<Rightarrow> kmem \<Rightarrow> (pte_ptr option \<times> kmem) option" where
  "get_pte pgdir la create s = do {
     (t1, s1) \<leftarrow> next_table (pgdir, PDX1 la) create s;
     case t1 of
       None \<Rightarrow> Some (None, s1)
     | Some t1 \<Rightarrow> do {
         (t0, s2) \<leftarrow> next_table (t1, PDX0 la) create s1;
         case t0 of
           None \<Rightarrow> Some (None, s2)
         | Some t0 \<Rightarrow> Some (Some (t0, PTX la), s2)
       }
   }"

definition get_page :: "nat \<Rightarrow> 64 word \<Rightarrow> kmem \<Rightarrow> (nat option \<times> pte_ptr option \<times> kmem) option" where
  "get_page pgdir la s = do {
     (ptep, s1) \<leftarrow> get_pte pgdir la False s;
     case ptep of
       None \<Rightarrow> Some (None, None, s1)
     | Some pp \<Rightarrow>
         if pte_read pp s1 AND PTE_V \<noteq> 0
         then do { page \<leftarrow> pte2page (pte_read pp s1); Some (Some page, Some pp, s1) }
         else Some (None, Some pp, s1)
   }"

definition page_remove_pte :: "pte_ptr \<Rightarrow> kmem \<Rightarrow> kmem option" where
  "page_remove_pte ptep s =
     (if pte_read ptep s AND PTE_V \<noteq> 0 then do {
        page \<leftarrow> pte2page (pte_read ptep s);
        let s1 = page_ref_dec page s;
        s2 \<leftarrow> (if page_ref page s1 = 0 then free_pages page 1 s1 else Some s1);
        Some (pte_write ptep 0 s2)
      } else Some s)"

definition page_remove :: "nat \<Rightarrow> 64 word \<Rightarrow> kmem \<Rightarrow> kmem option" where
  "page_remove pgdir la s = do {
     (ptep, s1) \<leftarrow> get_pte pgdir la False s;
     case ptep of None \<Rightarrow> Some s1 | Some pp \<Rightarrow> page_remove_pte pp s1
   }"

definition page_insert :: "nat \<Rightarrow> nat \<Rightarrow> 64 word \<Rightarrow> 32 word \<Rightarrow> kmem \<Rightarrow> (unit res \<times> kmem) option" where
  "page_insert pgdir page la perm s = do {
     (ptep, s1) \<leftarrow> get_pte pgdir la True s;
     case ptep of
       None \<Rightarrow> Some (Inl E_NO_MEM, s1)
     | Some pp \<Rightarrow> do {
         let s2 = page_ref_inc page s1;
         s3 \<leftarrow> (if pte_read pp s2 AND PTE_V \<noteq> 0 then do {
                  p \<leftarrow> pte2page (pte_read pp s2);
                  if p = page then Some (page_ref_dec page s2) else page_remove_pte pp s2
                } else Some s2);
         Some (Inr (), pte_write pp (pte_create (page2ppn page) (ucast PTE_V OR perm)) s3)
       }
   }"

text \<open>The loop of \<^verbatim>\<open>unmap_range\<close>; the range wraps with the address word.\<close>

partial_function (option) unmap_loop :: "nat \<Rightarrow> 64 word \<Rightarrow> 64 word \<Rightarrow> kmem \<Rightarrow> kmem option" where
  "unmap_loop pgdir start en s = do {
     (ptep, s1) \<leftarrow> get_pte pgdir start False s;
     (start', s2) \<leftarrow> (case ptep of
         None \<Rightarrow> Some (ROUNDDOWN (start + PTSIZE) PTSIZE, s1)
       | Some pp \<Rightarrow> do {
           s2 \<leftarrow> (if pte_read pp s1 \<noteq> 0 then page_remove_pte pp s1 else Some s1);
           Some (start + PGSIZE, s2)
         });
     if start' \<noteq> 0 \<and> start' < en then unmap_loop pgdir start' en s2 else Some s2
   }"

declare unmap_loop.simps [code]

definition unmap_range :: "nat \<Rightarrow> 64 word \<Rightarrow> 64 word \<Rightarrow> kmem \<Rightarrow> kmem option" where
  "unmap_range pgdir start en s = do {
     kassert (start mod PGSIZE = 0 \<and> en mod PGSIZE = 0);
     kassert (USER_ACCESS start en);
     unmap_loop pgdir start en s
   }"

text \<open>\<^verbatim>\<open>exit_range\<close>: the loop over a level-0 directory returns where it stopped and \<^verbatim>\<open>free_pd0\<close>.\<close>

definition table_empty :: "nat \<Rightarrow> kmem \<Rightarrow> bool" where
  "table_empty t s \<longleftrightarrow> list_all (\<lambda>i. ram s t i AND PTE_V = 0) [0 ..< NPTEENTRY]"

partial_function (option) exit_pd0 ::
  "nat \<Rightarrow> 64 word \<Rightarrow> 64 word \<Rightarrow> 64 word \<Rightarrow> bool \<Rightarrow> kmem \<Rightarrow> (bool \<times> kmem) option" where
  "exit_pd0 pd0 d1start d0start en free_pd0 s = do {
     let pde0 = ram s pd0 (PDX0 d0start);
     (free_pd0', s1) \<leftarrow>
       (if pde0 AND PTE_V \<noteq> 0 then do {
          ptp \<leftarrow> pde2page pde0;
          pt \<leftarrow> page2kva ptp;
          if table_empty pt s then do {
            s1 \<leftarrow> free_pages ptp 1 s;
            Some (free_pd0, pte_write (pd0, PDX0 d0start) 0 s1)
          } else Some (free_pd0, s)
        } else Some (False, s));
     let d0 = d0start + PTSIZE;
     if d0 \<noteq> 0 \<and> d0 < d1start + PDSIZE \<and> d0 < en
     then exit_pd0 pd0 d1start d0 en free_pd0' s1
     else Some (free_pd0', s1)
   }"

declare exit_pd0.simps [code]

partial_function (option) exit_loop ::
  "nat \<Rightarrow> 64 word \<Rightarrow> 64 word \<Rightarrow> 64 word \<Rightarrow> kmem \<Rightarrow> kmem option" where
  "exit_loop pgdir d1start d0start en s = do {
     let pde1 = ram s pgdir (PDX1 d1start);
     s1 \<leftarrow>
       (if pde1 AND PTE_V \<noteq> 0 then do {
          pdp \<leftarrow> pde2page pde1;
          pd0 \<leftarrow> page2kva pdp;
          (free_pd0, s1) \<leftarrow> exit_pd0 pd0 d1start d0start en True s;
          if free_pd0 then do {
            s2 \<leftarrow> free_pages pdp 1 s1;
            Some (pte_write (pgdir, PDX1 d1start) 0 s2)
          } else Some s1
        } else Some s);
     let d1 = d1start + PDSIZE;
     if d1 \<noteq> 0 \<and> d1 < en then exit_loop pgdir d1 d1 en s1 else Some s1
   }"

declare exit_loop.simps [code]

definition exit_range :: "nat \<Rightarrow> 64 word \<Rightarrow> 64 word \<Rightarrow> kmem \<Rightarrow> kmem option" where
  "exit_range pgdir start en s = do {
     kassert (start mod PGSIZE = 0 \<and> en mod PGSIZE = 0);
     kassert (USER_ACCESS start en);
     exit_loop pgdir (ROUNDDOWN start PDSIZE) (ROUNDDOWN start PTSIZE) en s
   }"

partial_function (option) copy_loop ::
  "nat \<Rightarrow> nat \<Rightarrow> 64 word \<Rightarrow> 64 word \<Rightarrow> kmem \<Rightarrow> (unit res \<times> kmem) option" where
  "copy_loop to from start en s = do {
     (ptep, s1) \<leftarrow> get_pte from start False s;
     (r, start', s2) \<leftarrow> (case ptep of
         None \<Rightarrow> Some (Inr (), ROUNDDOWN (start + PTSIZE) PTSIZE, s1)
       | Some pp \<Rightarrow>
           if pte_read pp s1 AND PTE_V \<noteq> 0 then do {
             (nptep, s2) \<leftarrow> get_pte to start True s1;
             case nptep of
               None \<Rightarrow> Some (Inl E_NO_MEM, start, s2)
             | Some _ \<Rightarrow> do {
                 let perm = (ucast (pte_read pp s2 AND PTE_USER) :: 32 word);
                 page \<leftarrow> pte2page (pte_read pp s2);
                 (np, s3) \<leftarrow> alloc_pages 1 s2;
                 npage \<leftarrow> np;
                 src \<leftarrow> page2kva page;
                 dst \<leftarrow> page2kva npage;
                 (ret, s4) \<leftarrow> page_insert to npage start perm (copy_frame dst src s3);
                 kassert (ret = Inr ());
                 Some (Inr (), start + PGSIZE, s4)
               }
           } else Some (Inr (), start + PGSIZE, s1));
     if r \<noteq> Inr () then Some (r, s2)
     else if start' \<noteq> 0 \<and> start' < en then copy_loop to from start' en s2
     else Some (Inr (), s2)
   }"

declare copy_loop.simps [code]

definition copy_range ::
  "nat \<Rightarrow> nat \<Rightarrow> 64 word \<Rightarrow> 64 word \<Rightarrow> kmem \<Rightarrow> (unit res \<times> kmem) option" where
  "copy_range to from start en s = do {
     kassert (start mod PGSIZE = 0 \<and> en mod PGSIZE = 0);
     kassert (USER_ACCESS start en);
     copy_loop to from start en s
   }"

text \<open>\<^verbatim>\<open>pgdir_alloc_page\<close>, with \<^verbatim>\<open>check_mm_struct\<close> NULL as for \<^verbatim>\<open>alloc_pages\<close>.\<close>

definition pgdir_alloc_page :: "nat \<Rightarrow> 64 word \<Rightarrow> 32 word \<Rightarrow> kmem \<Rightarrow> (nat option \<times> kmem) option" where
  "pgdir_alloc_page pgdir la perm s = do {
     (page, s1) \<leftarrow> alloc_pages 1 s;
     case page of
       None \<Rightarrow> Some (None, s1)
     | Some p \<Rightarrow> do {
         (r, s2) \<leftarrow> page_insert pgdir p la perm s1;
         if r \<noteq> Inr () then do { s3 \<leftarrow> free_pages p 1 s2; Some (None, s3) }
         else Some (Some p, s2)
       }
   }"

text \<open>\<^verbatim>\<open>boot_map_segment\<close>.\<close>

fun boot_map_loop :: "nat \<Rightarrow> nat \<Rightarrow> 64 word \<Rightarrow> 64 word \<Rightarrow> 32 word \<Rightarrow> kmem \<Rightarrow> kmem option" where
  "boot_map_loop pgdir 0 la pa perm s = Some s"
| "boot_map_loop pgdir (Suc n) la pa perm s = do {
     (ptep, s1) \<leftarrow> get_pte pgdir la True s;
     pp \<leftarrow> ptep;
     boot_map_loop pgdir n (la + PGSIZE) (pa + PGSIZE) perm
       (pte_write pp (pte_create (drop_bit 12 pa) (ucast PTE_V OR perm)) s1)
   }"

definition boot_map_segment ::
  "nat \<Rightarrow> 64 word \<Rightarrow> 64 word \<Rightarrow> 64 word \<Rightarrow> 32 word \<Rightarrow> kmem \<Rightarrow> kmem option" where
  "boot_map_segment pgdir la sz pa perm s = do {
     kassert (PGOFF la = PGOFF pa);
     let n = ROUNDUP (sz + PGOFF la) PGSIZE div PGSIZE;
     boot_map_loop pgdir (unat n) (ROUNDDOWN la PGSIZE) (ROUNDDOWN pa PGSIZE) perm s
   }"

subsection \<open>Entries\<close>

definition nframes :: nat where "nframes = npage - nbase"

lemma valid_iff: "e AND PTE_V = 0 \<longleftrightarrow> \<not> bit e 0"
  using and_exp_eq_0_iff_not_bit[of e 0] by (simp add: PTE_V_def)

lemma valid_pte_create [simp]: "bit (pte_create ppn t) 0"
  by (simp add: pte_create_def PTE_V_def bit_simps)

lemma mask9_less: "unat (w AND 0x1FF :: 64 word) < 512"
proof -
  have "w AND 0x1FF = take_bit 9 w" by (simp add: take_bit_eq_mask mask_eq_exp_minus_1)
  then show ?thesis using take_bit_nat_less_exp[of 9 "unat w"] by (simp add: unsigned_take_bit_eq)
qed

lemma index_less: "PDX1 la < 512" "PDX0 la < 512" "PTX la < 512"
  by (simp_all add: PDX1_def PDX0_def PTX_def mask9_less)

lemma small_bit: "unat (w :: 'a::len word) < 2 ^ n \<Longrightarrow> n \<le> k \<Longrightarrow> \<not> bit w k"
proof -
  assume a: "unat w < 2 ^ n" "n \<le> k"
  then have "unat w < 2 ^ k" by (meson less_le_trans one_le_numeral power_increasing)
  then have "\<not> bit (unat w) k" by (simp add: bit_nat_def)
  then show ?thesis by (simp add: bit_unsigned_iff)
qed

lemma unat_page2ppn: "p < nframes \<Longrightarrow> unat (page2ppn p) = p + nbase"
  unfolding page2ppn_def nframes_def npage_def nbase_def by (subst unat_of_nat) simp

lemma page2ppn_bit: "p < nframes \<Longrightarrow> 20 \<le> k \<Longrightarrow> \<not> bit (page2ppn p) k"
  using unat_page2ppn[of p] by (intro small_bit[of _ 20]) (simp add: nframes_def npage_def nbase_def)

lemma PPN_page2pa: "p < nframes \<Longrightarrow> PPN (page2pa p) = page2ppn p"
  unfolding PPN_def page2pa_def
proof (rule bit_eqI)
  fix k assume "p < nframes"
  then show "bit (drop_bit 12 (push_bit 12 (page2ppn p))) k = bit (page2ppn p) k"
    using page2ppn_bit[of p k] by (cases "20 \<le> k") (auto simp: bit_simps)
qed

lemma frame_of_ppn:
  assumes "p < nframes" "PPN pa = page2ppn p"
  shows "pa2page pa = Some p" "KADDR pa = Some p"
  using assms unat_page2ppn[OF assms(1)]
  by (auto simp: pa2page_def KADDR_def nframes_def npage_def nbase_def)

lemma bit_0x3FF: "bit (0x3FF :: 64 word) j \<longleftrightarrow> j < 10"
proof -
  have "(0x3FF :: 64 word) = mask 10" by (simp add: mask_eq_exp_minus_1)
  then show ?thesis by (simp only: bit_mask_iff) (auto simp: possible_bit_def)
qed

lemma bit_PPN_PTE: "bit (PPN (PTE_ADDR e)) k \<longleftrightarrow> k < 52 \<and> bit e (k + 10)"
  unfolding PPN_def PTE_ADDR_def
  by (simp only: bit_drop_bit_eq bit_push_bit_iff bit_and_iff bit_not_iff bit_0x3FF comp_def)
    (auto simp: possible_bit_def add.commute)

lemma PPN_pte_create:
  assumes p: "p < nframes" and t: "unat t < 2 ^ 10"
  shows "PPN (PTE_ADDR (pte_create (page2ppn p) t)) = page2ppn p"
proof (rule bit_eqI)
  fix k
  have "\<not> bit t (min 31 (k + 10))" by (rule small_bit[OF t]) simp
  then have "\<not> bit (scast t :: 64 word) (k + 10)" by (simp add: bit_signed_iff)
  then show "bit (PPN (PTE_ADDR (pte_create (page2ppn p) t))) k = bit (page2ppn p) k"
    using page2ppn_bit[OF p, of k]
    by (cases "20 \<le> k") (auto simp: bit_PPN_PTE pte_create_def PTE_V_def bit_simps)
qed

lemmas frame_pte = frame_of_ppn[OF _ PPN_pte_create]

lemma frame_simps [page_simps]:
  assumes "p < nframes" 
  shows "KADDR (page2pa p) = Some p" "page2kva p = Some p"
    "unat t < 2 ^ 10 \<Longrightarrow> pde2page (pte_create (page2ppn p) t) = Some p"
    "unat t < 2 ^ 10 \<Longrightarrow> pte2page (pte_create (page2ppn p) t) = Some p"
    "unat t < 2 ^ 10 \<Longrightarrow> KADDR (PDE_ADDR (pte_create (page2ppn p) t)) = Some p"
  using assms frame_of_ppn[OF assms PPN_page2pa[OF assms]] frame_pte[OF assms assms]
  by (auto simp: page2kva_def pde2page_def pte2page_def PDE_ADDR_def valid_iff)

lemma KADDR_eq_pa2page: "KADDR pa = pa2page pa" by (simp add: KADDR_def pa2page_def)

lemma pa2page_less: "pa2page pa = Some p \<Longrightarrow> p < nframes"
  by (auto simp: pa2page_def nframes_def split: if_splits)

subsection \<open>The tree of tables\<close>

text \<open>\<open>tbl m t ps\<close> is the table reached from table \<open>t\<close> along the indices \<open>ps\<close>.\<close>

type_synonym frames = "nat \<Rightarrow> nat \<Rightarrow> 64 word"

fun tbl :: "frames \<Rightarrow> nat \<Rightarrow> nat list \<Rightarrow> nat option" where
  "tbl m t [] = Some t"
| "tbl m t (i # ps) = (if bit (m t i) 0
     then case pde2page (m t i) of None \<Rightarrow> None | Some t' \<Rightarrow> tbl m t' ps else None)"

definition path :: "nat list \<Rightarrow> bool" where
  "path ps \<longleftrightarrow> length ps \<le> 2 \<and> (\<forall>i\<in>set ps. i < 512)"

definition tables :: "frames \<Rightarrow> nat \<Rightarrow> nat set" where
  "tables m root = {t. \<exists>ps. path ps \<and> tbl m root ps = Some t}"

definition tree_ok :: "frames \<Rightarrow> nat \<Rightarrow> bool" where
  "tree_ok m root \<longleftrightarrow>
     (\<forall>ps qs t. path ps \<longrightarrow> path qs \<longrightarrow> tbl m root ps = Some t \<longrightarrow> tbl m root qs = Some t \<longrightarrow> ps = qs) \<and>
     (\<forall>ps t i. path (ps @ [i]) \<longrightarrow> tbl m root ps = Some t \<longrightarrow> bit (m t i) 0 \<longrightarrow> pde2page (m t i) \<noteq> None)"

type_synonym vpn = "nat \<times> nat \<times> nat"

definition vpn_ok :: "vpn \<Rightarrow> bool" where
  "vpn_ok v = (case v of (a, b, c) \<Rightarrow> a < 512 \<and> b < 512 \<and> c < 512)"

definition vpn :: "64 word \<Rightarrow> vpn" where "vpn la = (PDX1 la, PDX0 la, PTX la)"

definition pte_at :: "frames \<Rightarrow> nat \<Rightarrow> vpn \<Rightarrow> pte_t" where
  "pte_at m root v = (case v of (a, b, c) \<Rightarrow>
     (case tbl m root [a, b] of None \<Rightarrow> 0 | Some t \<Rightarrow> m t c))"

lemma vpn_ok_vpn [simp]: "vpn_ok (vpn la)" by (simp add: vpn_ok_def vpn_def index_less)

lemma path_simps [simp]: "path []" "path [a] \<longleftrightarrow> a < 512" "path [a, b] \<longleftrightarrow> a < 512 \<and> b < 512"
  by (auto simp: path_def)

lemma path_prefix: "path (ps @ qs) \<Longrightarrow> path ps" by (auto simp: path_def)

lemma tbl_snoc: "tbl m t (ps @ [i]) =
   (case tbl m t ps of None \<Rightarrow> None | Some t' \<Rightarrow> if bit (m t' i) 0 then pde2page (m t' i) else None)"
  by (induction ps arbitrary: t) (auto split: option.splits)

lemma tree_okD:
  assumes "tree_ok m root"
  shows "path ps \<Longrightarrow> path qs \<Longrightarrow> tbl m root ps = Some t \<Longrightarrow> tbl m root qs = Some t \<Longrightarrow> ps = qs"
    and "path (ps @ [i]) \<Longrightarrow> tbl m root ps = Some t \<Longrightarrow> bit (m t i) 0 \<Longrightarrow> pde2page (m t i) \<noteq> None"
  using assms unfolding tree_ok_def by blast+

lemma in_tables: "path ps \<Longrightarrow> tbl m root ps = Some t \<Longrightarrow> t \<in> tables m root"
  by (auto simp: tables_def)

definition wr :: "frames \<Rightarrow> nat \<Rightarrow> nat \<Rightarrow> 64 word \<Rightarrow> frames" where
  "wr m t c v = m(t := (m t)(c := v))"

definition install :: "frames \<Rightarrow> nat \<Rightarrow> nat \<Rightarrow> nat \<Rightarrow> 64 word \<Rightarrow> frames" where
  "install m p t i e = wr (m(p := \<lambda>_. 0)) t i e"

lemma wr_apply: "wr m t c v x j = (if x = t \<and> j = c then v else m x j)"
  by (simp add: wr_def)

lemma install_apply:
  "install m p t i e x j = (if x = t \<and> j = i then e else if x = p then 0 else m x j)"
  by (simp add: install_def wr_apply)

text \<open>Writing an entry of a last-level table changes no table.\<close>

lemma tbl_leaf_write:
  assumes ok: "tree_ok m root" and t: "tbl m root [a, b] = Some t" "path [a, b]"
    and ps: "path ps"
  shows "tbl (wr m t c v) root ps = tbl m root ps"
  using ps
proof (induction ps rule: rev_induct)
  case (snoc i ps)
  have p: "path ps" "length ps < 2" using snoc.prems by (auto simp: path_def)
  have "t' \<noteq> t" if "tbl m root ps = Some t'" for t'
    using tree_okD(1)[OF ok p(1) t(2) that] t(1) p(2) by auto
  then show ?case using snoc.IH[OF p(1)] by (auto simp: tbl_snoc wr_apply split: option.splits)
qed simp

text \<open>Hanging a fresh, cleared table below an invalid entry adds exactly one table.\<close>

lemma tbl_install:
  assumes ok: "tree_ok m root" and t: "tbl m root ps = Some t" "path (ps @ [i])" "\<not> bit (m t i) 0"
    and p: "p \<notin> tables m root" and e: "bit e 0" "pde2page e = Some p" and qs: "path qs"
  shows "tbl (install m p t i e) root qs = (if qs = ps @ [i] then Some p else tbl m root qs)"
    (is "tbl ?m root qs = _")
  using qs
proof (induction qs rule: rev_induct)
  case (snoc j qs)
  have pq: "path qs" using snoc.prems path_prefix by blast
  have pp: "path ps" using t(2) path_prefix by blast
  have tp: "t \<noteq> p" using in_tables[OF pp t(1)] p by auto
  show ?case
  proof (cases "qs = ps @ [i]")
    case True
    have "tbl m root qs = None" unfolding True using t by (simp add: tbl_snoc)
    moreover have "tbl ?m root qs = Some p" using snoc.IH[OF pq] True by (simp only: refl if_True)
    moreover have "qs @ [j] \<noteq> ps @ [i]" by (simp add: True)
    moreover have "?m p j = 0" using tp by (simp add: install_apply)
    ultimately show ?thesis by (simp add: tbl_snoc)
  next
    case False
    have "?m t' j = (if qs = ps \<and> j = i then e else m t' j)" if "tbl m root qs = Some t'" for t'
      using tree_okD(1)[OF ok pq pp that] t(1) that in_tables[OF pq that] p by (auto simp: install_apply)
    then show ?thesis using snoc.IH[OF pq] False e t by (auto simp: tbl_snoc split: option.splits)
  qed
qed simp

lemma pte_at_leaf_write:
  assumes ok: "tree_ok m root" and t: "tbl m root [a, b] = Some t" "vpn_ok (a, b, c)" and w: "vpn_ok w"
  shows "pte_at (wr m t c v) root w = (if w = (a, b, c) then v else pte_at m root w)"
proof -
  obtain a' b' c' where w': "w = (a', b', c')" by (cases w)
  have pa: "path [a, b]" "path [a', b']" using t w by (auto simp: vpn_ok_def w')
  have "tbl m root [a', b'] = Some t \<Longrightarrow> a' = a \<and> b' = b"
    using tree_okD(1)[OF ok pa(2,1) _ t(1)] by simp
  moreover have "tbl (wr m t c v) root [a', b'] = tbl m root [a', b']"
    by (rule tbl_leaf_write[OF ok t(1) pa])
  ultimately show ?thesis
    using t(1) unfolding pte_at_def w' prod.case
    by (cases "tbl m root [a', b']") (auto simp: wr_apply[of m t c v _ c'] simp del: tbl.simps)
qed

lemma pte_at_install:
  assumes ok: "tree_ok m root" and t: "tbl m root ps = Some t" "path (ps @ [i])" "\<not> bit (m t i) 0"
    and p: "p \<notin> tables m root" and e: "bit e 0" "pde2page e = Some p" and w: "vpn_ok w"
  shows "pte_at (install m p t i e) root w = pte_at m root w"
proof -
  let ?m = "install m p t i e"
  obtain a b c where w': "w = (a, b, c)" by (cases w)
  have pa: "path [a, b]" using w by (auto simp: vpn_ok_def w')
  note pp = path_prefix[OF t(2)]
  have tp: "t \<noteq> p" using in_tables[OF pp t(1)] p by auto
  note ti = tbl_install[OF ok t p e pa]
  show ?thesis
  proof (cases "[a, b] = ps @ [i]")
    case True
    then have "tbl m root [a, b] = None" using t tbl_snoc[of m root ps i] by (simp only: option.case if_False)
    moreover have "tbl ?m root [a, b] = Some p" using ti True by (simp only: refl if_True)
    moreover have "?m p c = 0" using tp by (simp add: install_apply)
    ultimately show ?thesis by (simp add: pte_at_def w' del: tbl.simps)
  next
    case False
    have "?m t' c = m t' c" if t': "tbl m root [a, b] = Some t'" for t'
      using tree_okD(1)[OF ok pa pp t'] t(1,2) in_tables[OF pa t'] p by (auto simp: path_def install_apply)
    then show ?thesis using ti False by (auto simp: pte_at_def w' split: option.splits simp del: tbl.simps)
  qed
qed

lemma tree_ok_leaf_write:
  assumes ok: "tree_ok m root" and t: "tbl m root [a, b] = Some t" "path [a, b]"
  shows "tree_ok (wr m t c v) root" "tables (wr m t c v) root = tables m root"
proof -
  let ?m = "wr m t c v"
  note same = tbl_leaf_write[OF ok t, where c = c and v = v]
  show "tables ?m root = tables m root" by (auto simp: tables_def same)
  have "t' \<noteq> t" if "path (ps @ [i])" "tbl m root ps = Some t'" for ps i t'
    using tree_okD(1)[OF ok _ t(2), of ps t'] that t(1) path_prefix[OF that(1)] by (auto simp: path_def)
  then have "?m t' i = m t' i" if "path (ps @ [i])" "tbl m root ps = Some t'" for ps i t'
    using that by (simp add: wr_apply)
  then show "tree_ok ?m root"
    unfolding tree_ok_def using tree_okD[OF ok] same path_prefix by simp
qed

lemma tree_ok_install:
  assumes ok: "tree_ok m root" and t: "tbl m root ps = Some t" "path (ps @ [i])" "\<not> bit (m t i) 0"
    and p: "p \<notin> tables m root" and e: "bit e 0" "pde2page e = Some p"
  shows "tree_ok (install m p t i e) root"
    "tables (install m p t i e) root = insert p (tables m root)"
proof -
  let ?m = "install m p t i e"
  note ti = tbl_install[OF ok t p e]
  have np: "tbl m root (ps @ [i]) = None" using t by (simp add: tbl_snoc)
  have nt: "tbl m root qs \<noteq> Some p" if "path qs" for qs using p in_tables[OF that] by auto
  show "tables ?m root = insert p (tables m root)"
  proof (rule set_eqI)
    fix x
    have "x \<in> tables ?m root \<longleftrightarrow> (\<exists>qs. path qs \<and> (if qs = ps @ [i] then Some p else tbl m root qs) = Some x)"
      unfolding tables_def mem_Collect_eq using ti by metis
    also have "\<dots> \<longleftrightarrow> x = p \<or> (\<exists>qs. path qs \<and> tbl m root qs = Some x)"
      using t(2) np by (metis option.distinct(1) option.inject)
    finally show "x \<in> tables ?m root \<longleftrightarrow> x \<in> insert p (tables m root)" by (auto simp: tables_def)
  qed
  show "tree_ok ?m root"
    unfolding tree_ok_def
  proof (intro conjI allI impI)
    fix qs rs x assume "path qs" "path rs" "tbl ?m root qs = Some x" "tbl ?m root rs = Some x"
    then show "qs = rs" using tree_okD(1)[OF ok] nt by (auto simp: ti split: if_splits)
  next
    fix qs x j assume q: "path (qs @ [j])" "tbl ?m root qs = Some x" "bit (?m x j) 0"
    note pq = path_prefix[OF q(1)]
    show "pde2page (?m x j) \<noteq> None"
      using q tree_okD(2)[OF ok q(1)] e in_tables[OF pq] p ti[OF pq]
      by (auto simp: install_apply split: if_splits)
  qed
qed

end
