(* ===== verification/Address_Space.thy ===== *)
theory Address_Space imports Page_Table begin

text \<open>
  Correctness of the page-table operations of theory \<open>Page_Table\<close>. An address space is the map
  \<open>pte_at\<close> from page numbers to entries; \<open>kinv t root s\<close> is the invariant that ties the tables
  below \<open>root\<close>, the mapped pages, their reference counts and the allocator together.
\<close>

definition maps :: "frames \<Rightarrow> nat \<Rightarrow> nat \<Rightarrow> vpn set" where
  "maps m root p = {v. vpn_ok v \<and> bit (pte_at m root v) 0 \<and> pte2page (pte_at m root v) = Some p}"

definition page_ok :: "nat \<Rightarrow> nat \<Rightarrow> kmem \<Rightarrow> nat \<Rightarrow> bool" where
  "page_ok t root s p \<longleftrightarrow> p \<notin> tables (ram s) root \<and> p \<notin> pfree (pm s) \<and> p < t \<and>
     \<not> PageReserved (pg (pm s) p) \<and> \<not> PageProperty (pg (pm s) p) \<and>
     int (card (maps (ram s) root p)) \<le> page_ref p s"

definition kinv :: "nat \<Rightarrow> nat \<Rightarrow> kmem \<Rightarrow> bool" where
  "kinv t root s \<longleftrightarrow> pool_inv t (pm s) \<and> t < nframes \<and> tree_ok (ram s) root \<and>
     (\<forall>x\<in>tables (ram s) root. x < nframes \<and> x \<notin> pfree (pm s)) \<and>
     (\<forall>v. vpn_ok v \<longrightarrow> bit (pte_at (ram s) root v) 0 \<longrightarrow>
        (\<exists>p. pte2page (pte_at (ram s) root v) = Some p \<and> page_ok t root s p))"

lemma kinvD:
  assumes "kinv t root s"
  shows "pool_inv t (pm s)" "t < nframes" "tree_ok (ram s) root"
    "x \<in> tables (ram s) root \<Longrightarrow> x < nframes" "x \<in> tables (ram s) root \<Longrightarrow> x \<notin> pfree (pm s)"
    "vpn_ok v \<Longrightarrow> bit (pte_at (ram s) root v) 0 \<Longrightarrow>
       \<exists>p. pte2page (pte_at (ram s) root v) = Some p \<and> page_ok t root s p"
  using assms unfolding kinv_def by blast+

lemma finite_vpn_ok: "finite {v. vpn_ok v}"
proof (rule finite_subset)
  show "{v. vpn_ok v} \<subseteq> {..<512} \<times> {..<512} \<times> {..<512}" by (auto simp: vpn_ok_def)
qed simp

lemma finite_maps [simp]: "finite (maps m root p)"
  by (rule finite_subset[OF _ finite_vpn_ok]) (auto simp: maps_def)

text \<open>The invariant of the allocator does not read reference counts.\<close>

lemma fl_wf_ref [simp]: "fl_wf (upd_page p (\<lambda>d. d\<lparr>ref := v\<rparr>) s) xs = fl_wf s xs"
proof -
  have "psize (upd_page p (\<lambda>d. d\<lparr>ref := v\<rparr>) s) q = psize s q" for q by simp
  moreover have "free_set (upd_page p (\<lambda>d. d\<lparr>ref := v\<rparr>) s) xs = free_set s xs"
    by (rule free_set_cong) simp
  ultimately show ?thesis by (simp add: fl_wf_def) blast
qed

lemma pool_ref [simp]:
  "pfree (upd_page p (\<lambda>d. d\<lparr>ref := v\<rparr>) s) = pfree s"
  "pool_inv t (upd_page p (\<lambda>d. d\<lparr>ref := v\<rparr>) s) = pool_inv t s"
proof -
  have "free_set (upd_page p (\<lambda>d. d\<lparr>ref := v\<rparr>) s) xs = free_set s xs" for xs
    by (rule free_set_cong) simp
  then show "pfree (upd_page p (\<lambda>d. d\<lparr>ref := v\<rparr>) s) = pfree s"
    "pool_inv t (upd_page p (\<lambda>d. d\<lparr>ref := v\<rparr>) s) = pool_inv t s"
    by (simp_all add: pfree_def pool_inv_def)
qed

lemma set_page_ref_simps [simp]:
  "ram (set_page_ref p v s) = ram s" "pfree (pm (set_page_ref p v s)) = pfree (pm s)"
  "pool_inv t (pm (set_page_ref p v s)) = pool_inv t (pm s)"
  "page_ref q (set_page_ref p v s) = (if q = p then v else page_ref q s)"
  "PageReserved (pg (pm (set_page_ref p v s)) q) = PageReserved (pg (pm s) q)"
  "PageProperty (pg (pm (set_page_ref p v s)) q) = PageProperty (pg (pm s) q)"
  "q \<noteq> p \<Longrightarrow> pg (pm (set_page_ref p v s)) q = pg (pm s) q"
  "swap_init_ok (set_page_ref p v s) = swap_init_ok s"
  by (auto simp: set_page_ref_def page_ref_def)

lemma frame_op_simps [simp]:
  "pm (pte_write pp e s) = pm s" "pm (clear_frame p s) = pm s"
  "swap_init_ok (pte_write pp e s) = swap_init_ok s" "swap_init_ok (clear_frame p s) = swap_init_ok s"
  "page_ref q (pte_write pp e s) = page_ref q s" "page_ref q (clear_frame p s) = page_ref q s"
  "ram (pte_write (t, c) e s) = wr (ram s) t c e"
  "pte_read pp (pte_write pp e s) = e" "pte_read (t, c) s = ram s t c"
  by (simp_all add: pte_write_def clear_frame_def pte_read_def page_ref_def wr_def)

lemma wr_same [simp]: "wr m t c e t c = e" by (simp add: wr_def)

subsection \<open>Growing the tree\<close>

text \<open>\<open>grow root s s'\<close>: only new tables, taken from the free frames, distinguish the two states.\<close>

definition grow :: "nat \<Rightarrow> kmem \<Rightarrow> kmem \<Rightarrow> bool" where
  "grow root s s' \<longleftrightarrow> (\<forall>v. vpn_ok v \<longrightarrow> pte_at (ram s') root v = pte_at (ram s) root v) \<and>
     pfree (pm s') \<subseteq> pfree (pm s) \<and> tables (ram s') root \<subseteq> tables (ram s) root \<union> pfree (pm s) \<and>
     (\<forall>q. q \<notin> pfree (pm s) \<longrightarrow> pg (pm s') q = pg (pm s) q) \<and>
     (\<forall>q. q \<notin> pfree (pm s) \<longrightarrow> q \<notin> tables (ram s) root \<longrightarrow> ram s' q = ram s q) \<and>
     swap_init_ok s' = swap_init_ok s"

lemma grow_refl [simp]: "grow root s s" by (simp add: grow_def)

lemma grow_trans: "grow root s s1 \<Longrightarrow> grow root s1 s2 \<Longrightarrow> grow root s s2"
  unfolding grow_def by (auto 0 3)

lemma grow_maps: "grow root s s' \<Longrightarrow> maps (ram s') root p = maps (ram s) root p"
  by (auto simp: grow_def maps_def)

lemma grow_page_ok:
  assumes "grow root s s'" "page_ok t root s p" shows "page_ok t root s' p"
  using assms grow_maps[OF assms(1), of p] by (auto simp: grow_def page_ok_def page_ref_def)

lemma grow_kinv:
  assumes g: "grow root s s'" and inv: "kinv t root s" and pool: "pool_inv t (pm s')"
    and ok: "tree_ok (ram s') root"
    and tb: "\<And>x. x \<in> tables (ram s') root \<Longrightarrow> x < nframes \<and> x \<notin> pfree (pm s')"
  shows "kinv t root s'"
  using kinvD[OF inv] grow_page_ok[OF g] g pool ok tb unfolding kinv_def grow_def by metis

lemma alloc_page_pool:
  assumes "pool_inv t (pm s)" "2 \<le> card (pfree (pm s))"
  obtains p q where "alloc_pages 1 s = Some (Some p, s\<lparr>pm := q\<rparr>)" "pool_inv t q" "p \<in> pfree (pm s)" "p < t"
    "pfree q = pfree (pm s) - {p}" "\<not> PageReserved (pg q p)" "\<not> PageProperty (pg q p)"
    "\<forall>x. x \<notin> pfree (pm s) \<longrightarrow> pg q x = pg (pm s) x"
  using pool.alloc1_law[OF assms] by (auto simp: alloc_pages_def)

lemma PTE_UV_small: "unat (ucast (PTE_U OR PTE_V) :: 32 word) < 2 ^ 10"
  by (simp add: PTE_U_def PTE_V_def)

lemma next_table_create:
  assumes inv: "kinv t root s" and two: "2 \<le> card (pfree (pm s))"
    and x: "tbl (ram s) root ps = Some x" "path (ps @ [i])"
  obtains y s' where "next_table (x, i) True s = Some (Some y, s')" "kinv t root s'" "grow root s s'"
    "tbl (ram s') root (ps @ [i]) = Some y" "card (pfree (pm s)) \<le> card (pfree (pm s')) + 1"
proof (cases "bit (ram s x i) 0")
  case True
  then obtain y where y: "pde2page (ram s x i) = Some y"
    using tree_okD(2)[OF kinvD(3)[OF inv] x(2,1)] by auto
  then have "next_table (x, i) True s = Some (Some y, s)"
    using True by (simp add: next_table_def valid_iff pde2page_def KADDR_eq_pa2page)
  then show ?thesis using that[of y s] inv y x True by (simp add: tbl_snoc)
next
  case False
  note D = kinvD[OF inv]
  obtain p q where al: "alloc_pages 1 s = Some (Some p, s\<lparr>pm := q\<rparr>)" "pool_inv t q"
    and p: "p \<in> pfree (pm s)" "p < t" and q: "pfree q = pfree (pm s) - {p}"
      "\<forall>x. x \<notin> pfree (pm s) \<longrightarrow> pg q x = pg (pm s) x"
    by (rule alloc_page_pool[OF D(1) two])
  let ?e = "pte_create (page2ppn p) (ucast (PTE_U OR PTE_V))"
  have pn: "p < nframes" using p(2) D(2) by simp
  have e: "bit ?e 0" "pde2page ?e = Some p" using frame_simps[OF pn] PTE_UV_small by auto
  have np: "p \<notin> tables (ram s) root" using D(5)[of p] p(1) by auto
  define s' where "s' = pte_write (x, i) ?e (clear_frame p (set_page_ref p 1 (s\<lparr>pm := q\<rparr>)))"
  have ram: "ram s' = install (ram s) p x i ?e"
    by (simp add: s'_def clear_frame_def install_def)
  note tr = tree_ok_install[OF D(3) x False np e] and pa = pte_at_install[OF D(3) x False np e]
  have run: "next_table (x, i) True s = Some (Some p, s')"
    using False al(1) frame_simps[OF pn] PTE_UV_small by (simp add: next_table_def valid_iff s'_def Let_def)
  have pool: "pool_inv t (pm s')" "pfree (pm s') = pfree (pm s) - {p}" using al(2) q by (simp_all add: s'_def)
  have sw: "swap_init_ok s' = swap_init_ok s" by (simp add: s'_def)
  have g: "grow root s s'" unfolding grow_def
  proof (intro conjI allI impI)
    fix z assume z: "z \<notin> pfree (pm s)"
    then show "pg (pm s') z = pg (pm s) z" using q(2) p by (cases "z = p") (auto simp: s'_def)
    assume "z \<notin> tables (ram s) root"
    then show "ram s' z = ram s z" using z p in_tables[OF path_prefix[OF x(2)] x(1)]
      by (auto simp: ram install_apply fun_eq_iff)
  qed (use pool tr pa p sw in \<open>auto simp: ram\<close>)
  have "z < nframes \<and> z \<notin> pfree (pm s')" if "z \<in> tables (ram s') root" for z
    using that tr(2) pn D(4,5)[of z] pool by (auto simp: ram)
  then have "kinv t root s'" using grow_kinv[OF g inv pool(1)] tr(1) by (simp add: ram)
  moreover have "tbl (ram s') root (ps @ [i]) = Some p"
    using tbl_install[OF D(3) x False np e x(2)] by (simp add: ram)
  moreover have "card (pfree (pm s)) \<le> card (pfree (pm s')) + 1"
    using pool.fin[OF D(1)] p(1) pool(2) by (simp add: card_Diff_singleton)
  ultimately show ?thesis using that run g by blast
qed

subsection \<open>Looking up and making an entry\<close>

lemma next_table_find:
  assumes inv: "kinv t root s" and x: "tbl (ram s) root ps = Some x" "path (ps @ [i])"
  shows "next_table (x, i) False s = Some (tbl (ram s) root (ps @ [i]), s)"
  using tree_okD(2)[OF kinvD(3)[OF inv] x(2,1)] x
  by (auto simp: next_table_def valid_iff pde2page_def KADDR_eq_pa2page tbl_snoc)

lemma get_pte_find:
  assumes inv: "kinv t root s"
  shows "get_pte root la False s =
    Some (map_option (\<lambda>x. (x, PTX la)) (tbl (ram s) root [PDX1 la, PDX0 la]), s)"
proof -
  have 1: "next_table (root, PDX1 la) False s = Some (tbl (ram s) root [PDX1 la], s)"
    using next_table_find[OF inv, of "[]" root "PDX1 la"] by (simp add: index_less del: tbl.simps(2))
  show ?thesis
  proof (cases "tbl (ram s) root [PDX1 la]")
    case None
    then show ?thesis using 1 tbl_snoc[of "ram s" root "[PDX1 la]" "PDX0 la"] 
      by (simp add: get_pte_def del: tbl.simps)
  next
    case (Some x)
    then have "next_table (x, PDX0 la) False s = Some (tbl (ram s) root [PDX1 la, PDX0 la], s)"
      using next_table_find[OF inv, of "[PDX1 la]" x "PDX0 la"] by (simp add: index_less del: tbl.simps)
    then show ?thesis using 1 Some by (auto simp: get_pte_def split: option.splits simp del: tbl.simps)
  qed
qed

lemma get_pte_create:
  assumes inv: "kinv t root s" and three: "3 \<le> card (pfree (pm s))"
  obtains x s' where "get_pte root la True s = Some (Some (x, PTX la), s')" "kinv t root s'" "grow root s s'"
    "tbl (ram s') root [PDX1 la, PDX0 la] = Some x" "card (pfree (pm s)) \<le> card (pfree (pm s')) + 2"
proof -
  have two: "2 \<le> card (pfree (pm s))" and pa: "path ([] @ [PDX1 la])" "path ([PDX1 la] @ [PDX0 la])"
    using three by (simp_all add: index_less)
  obtain y s1 where 1: "next_table (root, PDX1 la) True s = Some (Some y, s1)" "kinv t root s1"
    "grow root s s1" "tbl (ram s1) root ([] @ [PDX1 la]) = Some y"
    "card (pfree (pm s)) \<le> card (pfree (pm s1)) + 1"
    by (rule next_table_create[OF inv two tbl.simps(1) pa(1)])
  have two1: "2 \<le> card (pfree (pm s1))" using 1(5) three by simp
  have y: "tbl (ram s1) root [PDX1 la] = Some y" using 1(4) by simp
  obtain x s2 where 2: "next_table (y, PDX0 la) True s1 = Some (Some x, s2)" "kinv t root s2"
    "grow root s1 s2" "tbl (ram s2) root ([PDX1 la] @ [PDX0 la]) = Some x"
    "card (pfree (pm s1)) \<le> card (pfree (pm s2)) + 1"
    by (rule next_table_create[OF 1(2) two1 y pa(2)])
  show ?thesis
    using that[of x s2] 1 2 grow_trans[OF 1(3) 2(3)] by (simp add: get_pte_def del: tbl.simps)
qed

subsection \<open>Writing an entry\<close>

lemma maps_leaf_write:
  assumes "tree_ok m root" "tbl m root [a, b] = Some x" "vpn_ok (a, b, c)"
  shows "maps (wr m x c e) root p =
    (maps m root p - {(a, b, c)}) \<union> (if bit e 0 \<and> pte2page e = Some p then {(a, b, c)} else {})"
  using assms(3) pte_at_leaf_write[OF assms, of _ e] by (auto simp: maps_def split: if_splits)

lemma kinv_leaf_write:
  assumes D: "pool_inv t (pm s)" "t < nframes" "tree_ok (ram s) root"
      "\<And>y. y \<in> tables (ram s) root \<Longrightarrow> y < nframes \<and> y \<notin> pfree (pm s)"
    and x: "tbl (ram s) root [a, b] = Some x" "vpn_ok (a, b, c)"
    and old: "\<And>w. vpn_ok w \<Longrightarrow> w \<noteq> (a, b, c) \<Longrightarrow> bit (pte_at (ram s) root w) 0 \<Longrightarrow>
       \<exists>p. pte2page (pte_at (ram s) root w) = Some p \<and> page_ok t root (pte_write (x, c) e s) p"
    and new: "bit e 0 \<Longrightarrow> \<exists>p. pte2page e = Some p \<and> page_ok t root (pte_write (x, c) e s) p"
  shows "kinv t root (pte_write (x, c) e s)"
proof -
  have pa: "path [a, b]" using x(2) by (simp add: vpn_ok_def)
  note tl = tree_ok_leaf_write[OF D(3) x(1) pa] and pt = pte_at_leaf_write[OF D(3) x]
  show ?thesis
    unfolding kinv_def using D(1,2,4) tl old new by (auto simp: pt split: if_splits)
qed

subsection \<open>Removing an entry\<close>

lemma page_ok_ref_pos:
  assumes "page_ok t root s p" "w \<in> maps (ram s) root p"
  shows "1 \<le> page_ref p s" "page_ref p s = 1 \<Longrightarrow> maps (ram s) root p = {w}"
proof -
  have le: "int (card (maps (ram s) root p)) \<le> page_ref p s" using assms(1) by (simp add: page_ok_def)
  have "0 < card (maps (ram s) root p)" using assms(2) by (auto simp: card_gt_0_iff)
  then show "1 \<le> page_ref p s" using le by linarith
  assume "page_ref p s = 1"
  then have "card (maps (ram s) root p) = 1" using le \<open>0 < card _\<close> by linarith
  then show "maps (ram s) root p = {w}" using assms(2) by (auto simp: card_1_singleton_iff)
qed

lemma page_remove_pte_kinv:
  assumes inv: "kinv t root s" and x: "tbl (ram s) root [a, b] = Some x" "vpn_ok (a, b, c)"
    and valid: "bit (ram s x c) 0" "pte2page (ram s x c) = Some p"
  obtains s' where "page_remove_pte (x, c) s = Some s'" "kinv t root s'" "ram s' = wr (ram s) x c 0"
    "pfree (pm s') = (if page_ref p s = 1 then insert p (pfree (pm s)) else pfree (pm s))"
    "\<forall>q. q \<notin> pfree (pm s) \<longrightarrow> q \<noteq> p \<longrightarrow> pg (pm s') q = pg (pm s) q"
    "page_ref p s \<noteq> 1 \<longrightarrow> page_ref p s' = page_ref p s - 1"
proof -
  note D = kinvD[OF inv]
  have pt: "pte_at (ram s) root (a, b, c) = ram s x c" using x(1) by (simp add: pte_at_def del: tbl.simps)
  have pok: "page_ok t root s p" and vm: "(a, b, c) \<in> maps (ram s) root p"
    using D(6)[OF x(2)] valid x(2) by (auto simp: pt maps_def)
  let ?s1 = "page_ref_dec p s"
  have mw: "maps (wr (ram s) x c 0) root q = maps (ram s) root q - {(a, b, c)}" for q
    using maps_leaf_write[OF D(3) x, of 0 q] by simp
  have pa: "path [a, b]" using x(2) by (simp add: vpn_ok_def)
  have tw: "tables (wr (ram s) x c 0) root = tables (ram s) root"
    by (rule tree_ok_leaf_write(2)[OF D(3) x(1) pa])
  obtain q2 where s2: "(if page_ref p ?s1 = 0 then free_pages p 1 ?s1 else Some ?s1) = Some (?s1\<lparr>pm := q2\<rparr>)"
    and pool: "pool_inv t q2"
    and pf: "pfree q2 = (if page_ref p s = 1 then insert p (pfree (pm s)) else pfree (pm s))"
    and fr: "\<forall>q. q \<notin> pfree q2 \<longrightarrow> pg q2 q = pg (pm ?s1) q"
  proof (cases "page_ref p s = 1")
    case True
    obtain q2 where "default_free_pages p 1 (pm ?s1) = Some q2" "pool_inv t q2"
      "pfree q2 = insert p (pfree (pm ?s1))" "\<forall>q. q \<notin> pfree q2 \<longrightarrow> pg q2 q = pg (pm ?s1) q"
      using pool.free1_law[of t "pm ?s1" p] pok D(1) by (auto simp: page_ok_def page_ref_dec_def)
    then show ?thesis using that[of q2] True by (simp add: free_pages_def page_ref_dec_def)
  next
    case False
    then show ?thesis using that[of "pm ?s1"] D(1) by (simp add: page_ref_dec_def)
  qed
  define s' where "s' = pte_write (x, c) 0 (?s1\<lparr>pm := q2\<rparr>)"
  have ram1: "ram (?s1\<lparr>pm := q2\<rparr>) = ram s" by (simp add: page_ref_dec_def)
  have keep: "pg q2 q = pg (pm s) q" if "q \<notin> pfree (pm s)" "q \<noteq> p" for q
    using fr pf that by (auto simp: page_ref_dec_def)
  have run: "page_remove_pte (x, c) s = Some s'"
    using valid s2 by (simp add: page_remove_pte_def valid_iff s'_def Let_def)
  have pref: "page_ref p s \<noteq> 1 \<longrightarrow> page_ref p s' = page_ref p s - 1"
    using fr pok pf by (auto simp: s'_def page_ref_def page_ok_def page_ref_dec_def set_page_ref_def)
  have "kinv t root s'" unfolding s'_def
  proof (rule kinv_leaf_write, unfold ram1)
    fix w assume w: "vpn_ok w" "w \<noteq> (a, b, c)" "bit (pte_at (ram s) root w) 0"
    then obtain q where q: "pte2page (pte_at (ram s) root w) = Some q" "page_ok t root s q" using D(6) by blast
    have wq: "w \<in> maps (ram s) root q" using w q by (simp add: maps_def)
    have card: "card (maps (ram s) root q - {(a, b, c)}) \<le> card (maps (ram s) root q)"
      by (rule card_mono) auto
    have "page_ok t root s' q"
    proof (cases "q = p")
      case True
      then have n1: "page_ref p s \<noteq> 1" using page_ok_ref_pos(2)[OF pok vm] wq w(2) by auto
      have "int (card (maps (ram s) root p - {(a, b, c)})) = int (card (maps (ram s) root p)) - 1"
        using card_Suc_Diff1[OF finite_maps vm] by linarith
      then show ?thesis
        using pok n1 pref pf fr True by (auto simp: page_ok_def s'_def ram1 mw tw page_ref_dec_def)
    next
      case False
      then show ?thesis using q(2) card keep[of q] pf
        by (auto simp: page_ok_def s'_def ram1 mw tw page_ref_def)
    qed
    then show "\<exists>q. pte2page (pte_at (ram s) root w) = Some q \<and>
        page_ok t root (pte_write (x, c) 0 (?s1\<lparr>pm := q2\<rparr>)) q" using q by (auto simp: s'_def)
  qed (use D x pool pf pok in \<open>auto simp: page_ok_def\<close>)
  then show ?thesis using that[OF run] pf keep pref by (simp add: s'_def ram1)
qed

subsection \<open>Installing an entry\<close>

lemma kinv_map_leaf:
  assumes inv: "kinv t root s" and x: "tbl (ram s) root [a, b] = Some x" "vpn_ok (a, b, c)"
    and e: "bit e 0" "pte2page e = Some page" and pok: "page_ok t root s page"
    and card: "int (card (maps (wr (ram s) x c e) root page)) \<le> page_ref page s"
  shows "kinv t root (pte_write (x, c) e s)"
proof -
  note D = kinvD[OF inv]
  have pa: "path [a, b]" using x(2) by (simp add: vpn_ok_def)
  have tw: "tables (wr (ram s) x c e) root = tables (ram s) root"
    by (rule tree_ok_leaf_write(2)[OF D(3) x(1) pa])
  have keep: "page_ok t root (pte_write (x, c) e s) q" if q: "page_ok t root s q" for q
  proof (cases "q = page")
    case True
    then show ?thesis using pok card by (simp add: page_ok_def tw)
  next
    case False
    then have "maps (wr (ram s) x c e) root q \<subseteq> maps (ram s) root q"
      using maps_leaf_write[OF D(3) x, of e q] e by auto
    then have "card (maps (wr (ram s) x c e) root q) \<le> card (maps (ram s) root q)"
      by (intro card_mono) auto
    then show ?thesis using q by (auto simp: page_ok_def tw)
  qed
  show ?thesis
    using D x e keep pok by (intro kinv_leaf_write) blast+
qed

lemma page_ok_inc: "page_ok t root s q \<Longrightarrow> page_ok t root (page_ref_inc p s) q"
  by (auto simp: page_ok_def page_ref_inc_def)

lemma kinv_inc: "kinv t root s \<Longrightarrow> kinv t root (page_ref_inc p s)"
  using page_ok_inc unfolding kinv_def page_ref_inc_def[symmetric]
  by (simp add: page_ref_inc_def) (metis page_ok_inc page_ref_inc_def)

lemma inc_simps [simp]:
  "ram (page_ref_inc p s) = ram s" "pfree (pm (page_ref_inc p s)) = pfree (pm s)"
  "page_ref q (page_ref_inc p s) = (if q = p then page_ref p s + 1 else page_ref q s)"
  by (simp_all add: page_ref_inc_def)

lemma dec_inc: "page_ref_dec p (page_ref_inc p s) = s"
  by (simp add: page_ref_dec_def page_ref_inc_def set_page_ref_def page_ref_def upd_page_def)

lemma pte_at_wr:
  assumes "kinv t root s" "tbl (ram s) root [PDX1 la, PDX0 la] = Some x" "vpn_ok v"
  shows "pte_at (wr (ram s) x (PTX la) e) root v = (if v = vpn la then e else pte_at (ram s) root v)"
  using pte_at_leaf_write[OF kinvD(3)[OF assms(1)] assms(2) _ assms(3), of "PTX la" e] vpn_ok_vpn[of la]
  by (simp add: vpn_def)

lemma or_small: "unat x < 2 ^ n \<Longrightarrow> unat y < 2 ^ n \<Longrightarrow> unat (x OR y :: 'a::len word) < 2 ^ n"
proof -
  assume "unat x < 2 ^ n" "unat y < 2 ^ n"
  then have "take_bit n (unat x OR unat y) = unat x OR unat y" by (simp add: take_bit_nat_eq_self)
  then show ?thesis using take_bit_nat_less_exp[of n "unat x OR unat y"] by (simp add: unsigned_or_eq)
qed

lemma page_insert_kinv:
  assumes inv: "kinv t root s" and pok: "page_ok t root s page" and three: "3 \<le> card (pfree (pm s))"
    and perm: "unat perm < 2 ^ 10"
  obtains s' where "page_insert root page la perm s = Some (Inr (), s')" "kinv t root s'"
    "\<forall>v. vpn_ok v \<longrightarrow> pte_at (ram s') root v =
       (if v = vpn la then pte_create (page2ppn page) (ucast PTE_V OR perm) else pte_at (ram s) root v)"
    "page_ref page s' = page_ref page s + (if vpn la \<in> maps (ram s) root page then 0 else 1)" "\<forall>q. q \<notin> pfree (pm s) \<longrightarrow> q \<notin> tables (ram s) root \<longrightarrow> ram s' q = ram s q"
proof -
  let ?e = "pte_create (page2ppn page) (ucast PTE_V OR perm)" and ?c = "PTX la"
  obtain x s1 where g: "get_pte root la True s = Some (Some (x, ?c), s1)" "kinv t root s1" "grow root s s1"
    and x: "tbl (ram s1) root [PDX1 la, PDX0 la] = Some x"
    and "card (pfree (pm s)) \<le> card (pfree (pm s1)) + 2"
    by (rule get_pte_create[OF inv three])
  have vok: "vpn_ok (PDX1 la, PDX0 la, ?c)" using vpn_ok_vpn[of la] by (simp add: vpn_def)
  have pn: "page < nframes" using pok kinvD(2)[OF inv] by (simp add: page_ok_def)
  have "unat (ucast PTE_V OR perm :: 32 word) < 2 ^ 10" using perm by (intro or_small) (simp_all add: PTE_V_def)
  then have e: "bit ?e 0" "pte2page ?e = Some page" using frame_simps[OF pn] by auto
  have pok1: "page_ok t root s1 page" by (rule grow_page_ok[OF g(3) pok])
  have m1: "maps (ram s1) root page = maps (ram s) root page" by (rule grow_maps[OF g(3)])
  have same: "pte_at (ram s1) root v = pte_at (ram s) root v" if "vpn_ok v" for v
    using g(3) that unfolding grow_def by blast
  have "pg (pm s1) page = pg (pm s) page" using g(3) pok by (simp add: grow_def page_ok_def)
  then have ref1: "page_ref page s1 = page_ref page s" by (simp add: page_ref_def)
  have old: "ram s1 x ?c = pte_at (ram s) root (vpn la)"
    using same[OF vok] x by (simp add: pte_at_def vpn_def del: tbl.simps)
  note goal = that
  have fin: ?thesis
    if run: "page_insert root page la perm s = Some (Inr (), pte_write (x, ?c) ?e s3)"
      and k3: "kinv t root s3" "page_ok t root s3 page"
      and r3: "ram s3 = ram s1 \<or> ram s3 = wr (ram s1) x ?c 0"
      and ref3: "page_ref page s3 = page_ref page s + (if vpn la \<in> maps (ram s) root page then 0 else 1)"
    for s3
  proof -
    have x3: "tbl (ram s3) root [PDX1 la, PDX0 la] = Some x"
      using r3 tbl_leaf_write[OF kinvD(3)[OF g(2)] x, of "[PDX1 la, PDX0 la]" ?c 0] vok x
      by (auto simp: vpn_ok_def simp del: tbl.simps)
    have p3: "pte_at (wr (ram s3) x ?c ?e) root v = (if v = vpn la then ?e else pte_at (ram s) root v)"
      if "vpn_ok v" for v
      using pte_at_wr[OF k3(1) x3 that] pte_at_wr[OF g(2) x that] same[OF that] r3 by auto
    have "maps (wr (ram s3) x ?c ?e) root page = insert (vpn la) (maps (ram s) root page)"
    proof (rule set_eqI)
      fix w
      show "w \<in> maps (wr (ram s3) x ?c ?e) root page \<longleftrightarrow> w \<in> insert (vpn la) (maps (ram s) root page)"
        using p3[of w] e by (cases "w = vpn la") (auto simp: maps_def simp del: split_paired_All)
    qed
    then have "int (card (maps (wr (ram s3) x ?c ?e) root page)) \<le> page_ref page s3"
      using pok ref3 by (auto simp: page_ok_def card_insert_if)
    then have "kinv t root (pte_write (x, ?c) ?e s3)" by (rule kinv_map_leaf[OF k3(1) x3 vok e k3(2)])
    moreover have "wr (ram s3) x ?c ?e q = ram s q" if "q \<notin> pfree (pm s)" "q \<notin> tables (ram s) root" for q
    proof -
      have "x \<in> tables (ram s1) root" using x vok
        by (auto simp: tables_def vpn_ok_def intro!: exI[of _ "[PDX1 la, PDX0 la]"] simp del: tbl.simps)
      then have "x \<noteq> q" using g(3) that by (auto simp: grow_def)
      moreover have "ram s1 q = ram s q" using g(3) that by (simp add: grow_def)
      ultimately show ?thesis using r3 by (auto simp: wr_def)
    qed
    ultimately show ?thesis using goal[OF run] p3 ref3 by simp
  qed
  have rd: "bit (ram s1 x ?c) 0 \<Longrightarrow> pte2page (ram s1 x ?c) = Some page \<longleftrightarrow> vpn la \<in> maps (ram s) root page"
    by (simp add: old maps_def)
  consider (invalid) "\<not> bit (ram s1 x ?c) 0" | (eq) "bit (ram s1 x ?c) 0" "pte2page (ram s1 x ?c) = Some page"
    | (ne) p where "bit (ram s1 x ?c) 0" "pte2page (ram s1 x ?c) = Some p" "p \<noteq> page"
    using kinvD(6)[OF inv vpn_ok_vpn[of la]] by (auto simp: old)
  then show ?thesis
  proof cases
    case invalid
    then have "vpn la \<notin> maps (ram s) root page" by (simp add: old maps_def)
    with invalid show ?thesis
      using g(1) kinv_inc[OF g(2), of page] page_ok_inc[OF pok1, of page] ref1
      by (intro fin[of "page_ref_inc page s1"]) (simp_all add: page_insert_def valid_iff Let_def)
  next
    case eq
    then show ?thesis
      using g(1,2) pok1 ref1 rd by (intro fin[of s1])
        (simp_all add: page_insert_def valid_iff Let_def dec_inc)
  next
    case ne
    let ?s2 = "page_ref_inc page s1"
    have r2: "ram ?s2 = ram s1" "pfree (pm ?s2) = pfree (pm s1)" by simp_all
    obtain s3 where s3: "page_remove_pte (x, ?c) ?s2 = Some s3" "kinv t root s3"
        "ram s3 = wr (ram ?s2) x ?c 0"
      and pf: "pfree (pm s3) = (if page_ref p ?s2 = 1 then insert p (pfree (pm ?s2)) else pfree (pm ?s2))"
      and keep: "\<forall>q. q \<notin> pfree (pm ?s2) \<longrightarrow> q \<noteq> p \<longrightarrow> pg (pm s3) q = pg (pm ?s2) q"
      by (rule page_remove_pte_kinv[OF kinv_inc[OF g(2), of page], of "PDX1 la" "PDX0 la" x ?c p])
        (use x vok ne r2 in auto)
    have tw: "tables (ram s3) root = tables (ram s1) root" 
      using tree_ok_leaf_write(2)[OF kinvD(3)[OF g(2)] x] vok s3(3) r2 by (simp add: vpn_ok_def)
    have "maps (ram s3) root page \<subseteq> maps (ram s1) root page"
      using maps_leaf_write[OF kinvD(3)[OF g(2)] x vok, of 0 page] s3(3) r2 by auto
    then have "card (maps (ram s3) root page) \<le> card (maps (ram s1) root page)"
      by (intro card_mono) auto
    moreover have pgs: "pg (pm s3) page = pg (pm ?s2) page" using keep pok1 ne r2 by (auto simp: page_ok_def)
    moreover have "page_ref page s3 = page_ref page ?s2" using pgs by (simp only: page_ref_def)
    ultimately have "page_ok t root s3 page" "page_ref page s3 = page_ref page s1 + 1"
      using pok1 ne pf r2 page_ok_inc[OF pok1, of page] tw
      by (auto simp: page_ok_def)
    then show ?thesis using g(1) s3 ne ref1 rd r2
      by (intro fin[of s3]) (auto simp: page_insert_def valid_iff Let_def)
  qed
qed

subsection \<open>Unmapping a range\<close>

lemma mask9_unat: "unat (drop_bit n w AND 0x1FF :: 64 word) = unat w div 2 ^ n mod 512"
proof -
  have "drop_bit n w AND 0x1FF = take_bit 9 (drop_bit n w)" by (simp add: take_bit_eq_mask mask_eq_exp_minus_1)
  moreover have "unat (drop_bit n w) = unat w div 2 ^ n"
    by (subst unsigned_drop_bit_eq) (use unsigned_less[where ?w = w and ?'a = nat] in \<open>simp add: drop_bit_eq_div take_bit_nat_eq_self\<close>)
  ultimately show ?thesis by (simp only: take_bit_eq_mod unat_mod) simp
qed

definition vpn_n :: "nat \<Rightarrow> vpn" where
  "vpn_n n = (n div 2 ^ 30 mod 512, n div 2 ^ 21 mod 512, n div 2 ^ 12 mod 512)"

lemma vpn_unat: "vpn la = vpn_n (unat la)"
  by (simp add: vpn_def vpn_n_def PDX1_def PDX0_def PTX_def mask9_unat)

definition in_range :: "nat \<Rightarrow> nat \<Rightarrow> vpn \<Rightarrow> bool" where
  "in_range a b v \<longleftrightarrow> (\<exists>n. a \<le> n \<and> n < b \<and> vpn_n n = v)"

lemma in_range_split:
  assumes "a \<le> b" "b \<le> c"
  shows "in_range a c v \<longleftrightarrow> in_range a b v \<or> in_range b c v"
proof
  assume "in_range a c v"
  then obtain n where "a \<le> n" "n < c" "vpn_n n = v" by (auto simp: in_range_def)
  then show "in_range a b v \<or> in_range b c v" by (cases "n < b") (auto simp: in_range_def not_less)
next
  assume "in_range a b v \<or> in_range b c v"
  then obtain n where "vpn_n n = v" "a \<le> n \<and> n < b \<or> b \<le> n \<and> n < c" by (auto simp: in_range_def)
  then show "in_range a c v" using assms unfolding in_range_def by (intro exI[of _ n]) auto
qed

lemma div_same_block:
  assumes "(k::nat) * d \<le> n" "n < (k + 1) * d" shows "n div d = k"
  using assms by (intro div_nat_eqI) (auto simp: mult.commute)

lemma in_range_page:
  assumes "a mod 4096 = 0"
  shows "in_range a (a + 4096) v \<longleftrightarrow> v = vpn_n a"
proof -
  obtain k where a: "a = k * 4096" using assms by (auto simp: mod_eq_0_iff_dvd dvd_def mult.commute)
  have "vpn_n n = vpn_n a" if "a \<le> n" "n < a + 4096" for n
  proof -
    have "n div 4096 = k" using that by (intro div_same_block) (auto simp: a)
    moreover have "m div 2 ^ 30 = m div 4096 div 2 ^ 18" "m div 2 ^ 21 = m div 4096 div 2 ^ 9" for m :: nat
      by (simp_all flip: div_mult2_eq)
    ultimately show ?thesis by (simp add: vpn_n_def a)
  qed
  then show ?thesis unfolding in_range_def by (metis le_refl less_add_same_cancel1 zero_less_numeral)
qed

lemma in_range_table:
  assumes "in_range a ((a div 2 ^ 21 + 1) * 2 ^ 21) v"
  shows "fst v = fst (vpn_n a)" "fst (snd v) = fst (snd (vpn_n a))"
proof -
  obtain n where n: "a \<le> n" "n < (a div 2 ^ 21 + 1) * 2 ^ 21" "vpn_n n = v"
    using assms by (auto simp: in_range_def)
  have "a div 2 ^ 21 * 2 ^ 21 \<le> n" using n(1) by (meson div_times_less_eq_dividend le_trans)
  then have "n div 2 ^ 21 = a div 2 ^ 21" using n(2) by (rule div_same_block)
  moreover have "m div 2 ^ 30 = m div 2 ^ 21 div 2 ^ 9" for m :: nat by (simp flip: div_mult2_eq)
  ultimately show "fst v = fst (vpn_n a)" "fst (snd v) = fst (snd (vpn_n a))"
    using n(3) by (auto simp: vpn_n_def)
qed

lemma page_remove_pte_at:
  assumes inv: "kinv t root s" and x: "tbl (ram s) root [PDX1 la, PDX0 la] = Some x"
  obtains s' where "page_remove_pte (x, PTX la) s = Some s'" "kinv t root s'"
    "\<forall>v. vpn_ok v \<longrightarrow> pte_at (ram s') root v =
       (if v = vpn la \<and> bit (pte_at (ram s) root v) 0 then 0 else pte_at (ram s) root v)"
proof -
  have e: "ram s x (PTX la) = pte_at (ram s) root (vpn la)"
    using x by (simp add: pte_at_def vpn_def del: tbl.simps)
  show ?thesis
  proof (cases "bit (ram s x (PTX la)) 0")
    case True
    then obtain p where p: "pte2page (ram s x (PTX la)) = Some p"
      using kinvD(6)[OF inv vpn_ok_vpn[of la]] by (auto simp: e)
    have vok: "vpn_ok (PDX1 la, PDX0 la, PTX la)" using vpn_ok_vpn[of la] by (simp add: vpn_def)
    obtain s' where "page_remove_pte (x, PTX la) s = Some s'" "kinv t root s'" "ram s' = wr (ram s) x (PTX la) 0"
      by (rule page_remove_pte_kinv[OF inv x vok True p])
    then show ?thesis using that pte_at_wr[OF inv x] True e by auto
  next
    case False
    then have "page_remove_pte (x, PTX la) s = Some s" by (simp add: page_remove_pte_def valid_iff)
    moreover have "\<not> bit (pte_at (ram s) root (vpn la)) 0" using False e by simp
    ultimately show ?thesis using that[OF _ inv] by fastforce
  qed
qed

lemma unat_next_page: "unat start < 2 ^ 31 \<Longrightarrow> unat (start + PGSIZE) = unat start + 4096"
  by (subst unat_add_lem[THEN iffD1]) (simp_all add: PGSIZE_def)

lemma unat_next_table:
  "unat start < 2 ^ 31 \<Longrightarrow> unat (ROUNDDOWN (start + PTSIZE) PTSIZE) = (unat start div 2 ^ 21 + 1) * 2 ^ 21"
proof -
  assume a: "unat start < 2 ^ 31"
  have P: "PTSIZE = 2097152" by (simp add: PTSIZE_def)
  have u: "unat (start + 2097152) = unat start + 2097152"
    using a by (subst unat_add_lem[THEN iffD1]) simp_all
  have "unat (ROUNDDOWN (start + PTSIZE) PTSIZE) = (unat start + 2 ^ 21) - (unat start + 2 ^ 21) mod 2 ^ 21"
    unfolding ROUNDDOWN_def P by (subst unat_sub) (simp_all add: word_le_nat_alt unat_mod u)
  also have "\<dots> = (unat start + 2 ^ 21) div 2 ^ 21 * 2 ^ 21"
    by (rule minus_mod_eq_div_mult)
  also have "(unat start + 2 ^ 21) div 2 ^ 21 = unat start div 2 ^ 21 + 1" by (rule div_add_self2) simp
  finally show ?thesis .
qed

text \<open>One round of the loop: the pages it passes over are unmapped, the others are as before.\<close>

lemma unmap_step:
  assumes inv: "kinv t root s" and lt: "unat start < unat en" "unat en \<le> 2 ^ 31"
    and al: "unat start mod 4096 = 0" "unat en mod 4096 = 0"
  obtains start' s1 where "unmap_loop root start en s =
      (if start' \<noteq> 0 \<and> start' < en then unmap_loop root start' en s1 else Some s1)"
    "kinv t root s1" "unat start < unat start'" "unat start' mod 4096 = 0"
    "\<forall>v. vpn_ok v \<longrightarrow> pte_at (ram s1) root v = (if in_range (unat start) (min (unat en) (unat start')) v \<and>
       bit (pte_at (ram s) root v) 0 then 0 else pte_at (ram s) root v)"
proof (cases "tbl (ram s) root [PDX1 start, PDX0 start]")
  case None
  let ?st = "ROUNDDOWN (start + PTSIZE) PTSIZE"
  note u = unat_next_table[of start]
  have less: "unat start < 2 ^ 31" using lt by simp
  have "\<not> bit (pte_at (ram s) root v) 0" if "in_range (unat start) (min (unat en) (unat ?st)) v" for v
  proof -
    have "in_range (unat start) (unat ?st) v" using that unfolding in_range_def by auto
    then have "fst v = PDX1 start" "fst (snd v) = PDX0 start"
      using in_range_table[of "unat start" v] u[OF less] vpn_unat[of start, symmetric] by (simp_all add: vpn_def)
    then show ?thesis using None by (cases v) (simp add: pte_at_def del: tbl.simps)
  qed
  then have eff: "\<forall>v. vpn_ok v \<longrightarrow> pte_at (ram s) root v = (if in_range (unat start) (min (unat en) (unat ?st)) v \<and>
       bit (pte_at (ram s) root v) 0 then 0 else pte_at (ram s) root v)" by meson
  have run: "unmap_loop root start en s = (if ?st \<noteq> 0 \<and> ?st < en then unmap_loop root ?st en s else Some s)"
    by (subst unmap_loop.simps) (simp add: get_pte_find[OF inv] None del: tbl.simps)
  have gt: "unat start < unat ?st" using u[OF less] by (simp add: dividend_less_div_times)
  have al': "unat ?st mod 4096 = 0" using u[OF less] by simp
  show ?thesis by (rule that[OF run inv gt al' eff])
next
  case (Some x)
  let ?st = "start + PGSIZE"
  have u: "unat ?st = unat start + 4096" using unat_next_page[of start] lt by simp
  have e: "ram s x (PTX start) = pte_at (ram s) root (vpn start)"
    using Some by (simp add: pte_at_def vpn_def del: tbl.simps)
  obtain s1 where s1: "(if ram s x (PTX start) \<noteq> 0 then page_remove_pte (x, PTX start) s else Some s) = Some s1"
    "kinv t root s1" "\<forall>v. vpn_ok v \<longrightarrow> pte_at (ram s1) root v =
       (if v = vpn start \<and> bit (pte_at (ram s) root v) 0 then 0 else pte_at (ram s) root v)"
  proof (cases "ram s x (PTX start) = 0")
    case True
    then show ?thesis using that[of s] inv e by metis
  next
    case False
    then show ?thesis using that page_remove_pte_at[OF inv Some] by (metis (no_types, lifting))
  qed
  have run: "unmap_loop root start en s = (if ?st \<noteq> 0 \<and> ?st < en then unmap_loop root ?st en s1 else Some s1)"
    using s1(1) by (subst unmap_loop.simps) (simp add: get_pte_find[OF inv] Some del: tbl.simps)
  have "unat start + 4096 \<le> unat en" using lt(1) al by (auto simp: mod_eq_0_iff_dvd dvd_def)
  then have "min (unat en) (unat ?st) = unat start + 4096" using u by simp
  then show ?thesis
    using that[OF run s1(2)] u al s1(3) in_range_page[OF al(1)] by (simp add: vpn_unat)
qed

lemma unmap_loop_kinv:
  assumes "kinv t root s" "unat start < unat en" "unat en \<le> 2 ^ 31"
    "unat start mod 4096 = 0" "unat en mod 4096 = 0"
  shows "\<exists>s'. unmap_loop root start en s = Some s' \<and> kinv t root s' \<and>
    (\<forall>v. vpn_ok v \<longrightarrow> pte_at (ram s') root v =
       (if in_range (unat start) (unat en) v \<and> bit (pte_at (ram s) root v) 0 then 0 else pte_at (ram s) root v))"
  using assms
proof (induction "unat en - unat start" arbitrary: start s rule: less_induct)
  case less
  obtain start' s1 where step: "unmap_loop root start en s =
      (if start' \<noteq> 0 \<and> start' < en then unmap_loop root start' en s1 else Some s1)"
    and k1: "kinv t root s1" "unat start < unat start'" "unat start' mod 4096 = 0"
    and eff: "\<forall>v. vpn_ok v \<longrightarrow> pte_at (ram s1) root v = (if in_range (unat start) (min (unat en) (unat start')) v \<and>
       bit (pte_at (ram s) root v) 0 then 0 else pte_at (ram s) root v)"
    by (rule unmap_step[OF less.prems])
  show ?case
  proof (cases "unat start' < unat en")
    case True
    then have "start' \<noteq> 0 \<and> start' < en" using k1(2) by (auto simp: word_less_nat_alt)
    moreover obtain s' where "unmap_loop root start' en s1 = Some s'" "kinv t root s'"
      "\<forall>v. vpn_ok v \<longrightarrow> pte_at (ram s') root v = (if in_range (unat start') (unat en) v \<and>
         bit (pte_at (ram s1) root v) 0 then 0 else pte_at (ram s1) root v)"
      using less.hyps[OF _ k1(1) True less.prems(3) k1(3) less.prems(5)] True k1(2)
      by (meson diff_less_mono2 less_trans)
    moreover have "in_range (unat start) (unat en) v \<longleftrightarrow>
        in_range (unat start) (unat start') v \<or> in_range (unat start') (unat en) v" for v
      using True k1(2) by (intro in_range_split) auto
    ultimately show ?thesis using step eff True by (auto simp del: split_paired_All)
  next
    case False
    then have "\<not> start' < en" "min (unat en) (unat start') = unat en" by (auto simp: word_less_nat_alt)
    then show ?thesis using step k1(1) eff by simp
  qed
qed

subsection \<open>A sample address space\<close>

text \<open>An empty address space rooted at frame 0; frames 2 to 5 are free.\<close>

definition sample_kmem :: kmem where
  "sample_kmem = \<lparr>pm = sample_pmm, ram = (\<lambda>_ _. 0), swap_init_ok = True\<rparr>"

lemma tbl_zero: "tbl (\<lambda>_ _. 0) r ps = (if ps = [] then Some r else None)"
  by (cases ps) auto

lemma sample_kmem_kinv: "kinv 5 0 sample_kmem"
proof -
  have "pool_inv 5 sample_pmm" using sample_pmm_wf by (auto simp: pool_inv_def intro!: exI[of _ "[2]"])
  moreover have "pfree sample_pmm = {2 ..< 6}" using pfree_eq[OF sample_pmm_wf] by simp
  ultimately show ?thesis
    by (auto simp: kinv_def sample_kmem_def tree_ok_def tables_def tbl_zero pte_at_def nframes_def
        npage_def nbase_def split: if_splits)
qed

lemma sample_kmem_page: "page_ok 5 0 sample_kmem 1" "3 \<le> card (pfree (pm sample_kmem))"
  using pfree_eq[OF sample_pmm_wf]
  by (auto simp: page_ok_def sample_kmem_def tables_def tbl_zero maps_def pte_at_def page_ref_def)
    (simp_all add: sample_pmm_def)

subsection \<open>Properties\<close>







definition busy_kmem :: kmem where
  "busy_kmem = sample_kmem\<lparr>ram := (\<lambda>t i.
     if t = 0 \<and> i = 0 then pte_create (page2ppn 1) 1
     else if t = 1 \<and> i = 1 then pte_create (page2ppn 6) 1
     else if t = 6 then 1 else 0)\<rparr>"

text \<open>C10: \<^verbatim>\<open>exit_range\<close> gives back a directory that is in use. The flag \<^verbatim>\<open>free_pd0\<close> is cleared only by
  an invalid level-0 entry, so a directory whose visited entries are all valid is freed and
  unhooked although the page table below still holds a valid entry.\<close>

theorem exit_range_frees_used_directory:
  assumes "USER_ACCESS start en" and "start mod PGSIZE = 0" and "en mod PGSIZE = 0"
    and "d1 = ROUNDDOWN start PDSIZE" and "d0 = ROUNDDOWN start PTSIZE"
    and "bit (ram s root (PDX1 d1)) 0" and "pde2page (ram s root (PDX1 d1)) = Some pd0"
    and "bit (ram s pd0 (PDX0 d0)) 0" and "pde2page (ram s pd0 (PDX0 d0)) = Some pt"
    and "i < 512" and "bit (ram s pt i) 0" and "pt < nframes" and "pd0 < nframes"
    and "en \<le> d0 + PTSIZE" and "en \<le> d1 + PDSIZE" and "free_pages pd0 1 s = Some s1"
  shows "exit_range root start en s = Some (pte_write (root, PDX1 d1) 0 s1)"
proof -
  have "\<not> table_empty pt s"
    using assms(10,11) by (auto simp: table_empty_def valid_iff list_all_iff NPTEENTRY_def)
  then have "exit_pd0 pd0 d1 d0 en True s = Some (True, s)"
    using assms(8-15) by (subst exit_pd0.simps) (auto simp: valid_iff frame_simps Let_def)
  then have "exit_loop root d1 d0 en s = Some (pte_write (root, PDX1 d1) 0 s1)"
    using assms(6-) by (subst exit_loop.simps) (auto simp: valid_iff frame_simps Let_def)
  then show ?thesis using assms(1-5) by (simp add: exit_range_def)
qed

theorem exit_range_frees_used_directory_witness:
  "\<exists>s1. free_pages 1 1 busy_kmem = Some s1 \<and> ram busy_kmem 6 0 = 1 \<and>
     exit_range 0 0x200000 0x400000 busy_kmem = Some (pte_write (0, 0) 0 s1)"
proof -
  have pi: "pool_inv 5 sample_pmm" using kinvD(1)[OF sample_kmem_kinv] by (simp add: sample_kmem_def)
  obtain q where "default_free_pages 1 1 sample_pmm = Some q"
    using pool_free[OF pi, of 1] pfree_eq[OF sample_pmm_wf] by auto
  then have f: "free_pages 1 1 busy_kmem = Some (busy_kmem\<lparr>pm := q\<rparr>)"
    by (simp add: free_pages_def busy_kmem_def sample_kmem_def)
  have nf: "1 < nframes" "6 < nframes" by (simp_all add: nframes_def npage_def nbase_def)
  have x: "PDX1 0 = 0" "PDX0 0x200000 = 1" by (simp_all add: PDX1_def PDX0_def drop_bit_eq_div)
  have "exit_range 0 0x200000 0x400000 busy_kmem = Some (pte_write (0, PDX1 0) 0 (busy_kmem\<lparr>pm := q\<rparr>))"
    by (rule exit_range_frees_used_directory[of _ _ 0 "0x200000" _ _ 1 6 0])
      (use f nf in \<open>simp_all add: USER_ACCESS_def USERBASE_def USERTOP_def PGSIZE_def PTSIZE_def PDSIZE_def
        ROUNDDOWN_def x busy_kmem_def frame_simps\<close>)
  then show ?thesis using f x by (auto simp: busy_kmem_def)
qed

end
