(* ===== verification/Vmm.thy ===== *)
theory Vmm
  imports Address_Space
begin

text \<open>
  Virtual memory areas: \<^verbatim>\<open>struct vma_struct\<close>, \<^verbatim>\<open>struct mm_struct\<close> (\<^verbatim>\<open>src/kern/mm/vmm.h\<close>) and the
  operations of \<^verbatim>\<open>src/kern/mm/vmm.c\<close>. The ring \<^verbatim>\<open>mmap_list\<close> is the list of its areas in ring
  order: its only updates are \<^verbatim>\<open>list_init\<close>, \<^verbatim>\<open>list_add_after\<close> at a position of the ring and
  \<^verbatim>\<open>list_del\<close>, whose effect on the list of elements is lemmas \<open>ring_list_init\<close>, \<open>ring_add_after\<close>
  and \<open>ring_del\<close> of theory \<open>Ring\<close>. An area never changes once it is in the list, so the cached
  pointer is the area itself. The outcome of a \<^verbatim>\<open>kmalloc\<close> is a boolean argument. Locking is not
  part of this model.
\<close>

record vma =
  vm_start :: "64 word"
  vm_end :: "64 word"
  vm_flags :: "32 word"

record mm =
  mmap_list :: "vma list"
  mmap_cache :: "vma option"
  pgdir :: "nat option"
  map_count :: int
  mm_count :: int

definition VM_READ :: "32 word" where "VM_READ = 1"
definition VM_WRITE :: "32 word" where "VM_WRITE = 2"
definition VM_EXEC :: "32 word" where "VM_EXEC = 4"
definition VM_STACK :: "32 word" where "VM_STACK = 8"

definition KERNBASE :: "64 word" where "KERNBASE = 0xFFFFFFFFC0200000"
definition KERNTOP :: "64 word" where "KERNTOP = KERNBASE + 0x7E00000"
definition KERN_ACCESS :: "64 word \<Rightarrow> 64 word \<Rightarrow> bool" where
  "KERN_ACCESS start en \<longleftrightarrow> KERNBASE \<le> start \<and> start < en \<and> en \<le> KERNTOP"

definition set_mm_count :: "int \<Rightarrow> mm \<Rightarrow> mm" where "set_mm_count v m = m\<lparr>mm_count := v\<rparr>"
definition mm_count_inc :: "mm \<Rightarrow> mm" where "mm_count_inc m = m\<lparr>mm_count := mm_count m + 1\<rparr>"
definition mm_count_dec :: "mm \<Rightarrow> mm" where "mm_count_dec m = m\<lparr>mm_count := mm_count m - 1\<rparr>"

definition mm_create :: "bool \<Rightarrow> mm option" where
  "mm_create kmalloc_ok = (if kmalloc_ok
     then Some (set_mm_count 0 \<lparr>mmap_list = [], mmap_cache = None, pgdir = None, map_count = 0, mm_count = 0\<rparr>)
     else None)"

definition vma_create :: "bool \<Rightarrow> 64 word \<Rightarrow> 64 word \<Rightarrow> 32 word \<Rightarrow> vma option" where
  "vma_create kmalloc_ok st en fl = (if kmalloc_ok
     then Some \<lparr>vm_start = st, vm_end = en, vm_flags = fl\<rparr> else None)"

definition vma_has :: "64 word \<Rightarrow> vma \<Rightarrow> bool" where
  "vma_has addr v \<longleftrightarrow> vm_start v \<le> addr \<and> addr < vm_end v"

text \<open>\<^verbatim>\<open>find_vma\<close> on a non-NULL \<^verbatim>\<open>mm\<close>: the cached area if it covers the address, else a scan.\<close>

fun vma_scan :: "64 word \<Rightarrow> vma list \<Rightarrow> vma option" where
  "vma_scan addr [] = None"
| "vma_scan addr (v # vs) =
     (if vm_start v \<le> addr \<and> addr < vm_end v then Some v else vma_scan addr vs)"

definition find_vma :: "64 word \<Rightarrow> mm \<Rightarrow> vma option \<times> mm" where
  "find_vma addr m =
     (let v = (case mmap_cache m of
                 Some c \<Rightarrow> if vm_start c \<le> addr \<and> vm_end c > addr then Some c
                           else vma_scan addr (mmap_list m)
               | None \<Rightarrow> vma_scan addr (mmap_list m))
      in case v of None \<Rightarrow> (None, m) | Some w \<Rightarrow> (Some w, m\<lparr>mmap_cache := Some w\<rparr>))"

definition check_vma_overlap :: "vma \<Rightarrow> vma \<Rightarrow> unit option" where
  "check_vma_overlap p n = do {
     kassert (vm_start p < vm_end p);
     kassert (vm_end p \<le> vm_start n);
     kassert (vm_start n < vm_end n)
   }"

text \<open>The walk of \<^verbatim>\<open>insert_vma_struct\<close> stops in front of the first area that starts later.\<close>

definition insert_vma_struct :: "vma \<Rightarrow> mm \<Rightarrow> mm option" where
  "insert_vma_struct v m = do {
     kassert (vm_start v < vm_end v);
     let pre = takeWhile (\<lambda>w. \<not> vm_start w > vm_start v) (mmap_list m);
     let post = dropWhile (\<lambda>w. \<not> vm_start w > vm_start v) (mmap_list m);
     (if pre \<noteq> [] then check_vma_overlap (last pre) v else Some ());
     (if post \<noteq> [] then check_vma_overlap v (hd post) else Some ());
     Some (m\<lparr>mmap_list := pre @ v # post, map_count := map_count m + 1\<rparr>)
   }"

definition mm_destroy :: "mm \<Rightarrow> unit option" where
  "mm_destroy m = kassert (mm_count m = 0)"

definition mm_map ::
  "bool \<Rightarrow> 64 word \<Rightarrow> 64 word \<Rightarrow> 32 word \<Rightarrow> mm \<Rightarrow> (vma res \<times> mm) option" where
  "mm_map kmalloc_ok addr len fl m =
     (let start = ROUNDDOWN addr PGSIZE; en = ROUNDUP (addr + len) PGSIZE in
      if \<not> USER_ACCESS start en then Some (Inl E_INVAL, m)
      else let (v, m1) = find_vma start m in
        if (case v of Some w \<Rightarrow> en > vm_start w | None \<Rightarrow> False) then Some (Inl E_INVAL, m1)
        else case vma_create kmalloc_ok start en fl of
            None \<Rightarrow> Some (Inl E_NO_MEM, m1)
          | Some w \<Rightarrow> do { m2 \<leftarrow> insert_vma_struct w m1; Some (Inr w, m2) })"

text \<open>The loop of \<^verbatim>\<open>user_mem_check\<close>; it moves to the end of the area found.\<close>

lemma vma_scan_Some: "vma_scan a vs = Some v \<Longrightarrow> v \<in> set vs \<and> vm_start v \<le> a \<and> a < vm_end v"
  by (induction vs) (auto split: if_splits)

lemma find_vma_has: "find_vma a m = (Some v, m') \<Longrightarrow> vm_start v \<le> a \<and> a < vm_end v"
  by (auto simp: find_vma_def Let_def dest: vma_scan_Some split: option.splits if_splits)

lemma find_vma_advances: "(Some v, m') = find_vma a m \<Longrightarrow> unat a < unat (vm_end v)"
  using find_vma_has[of a m v m'] by (auto simp: word_less_nat_alt)

function user_mem_loop :: "64 word \<Rightarrow> 64 word \<Rightarrow> bool \<Rightarrow> mm \<Rightarrow> bool \<times> mm" where
  "user_mem_loop start en write m =
     (if start < en then
        (case find_vma start m of
           (None, m1) \<Rightarrow> (False, m1)
         | (Some v, m1) \<Rightarrow>
             if start < vm_start v then (False, m1)
             else if vm_flags v AND (if write then VM_WRITE else VM_READ) = 0 then (False, m1)
             else if write \<and> vm_flags v AND VM_STACK \<noteq> 0 \<and> start < vm_start v + PGSIZE then (False, m1)
             else user_mem_loop (vm_end v) en write m1)
      else (True, m))"
  by pat_completeness auto
termination
  by (relation "measure (\<lambda>(start, en, write, m). unat en - unat start)")
    (auto dest: find_vma_advances simp: word_less_nat_alt intro: diff_less_mono2)

declare user_mem_loop.simps [simp del]

definition user_mem_check :: "mm option \<Rightarrow> 64 word \<Rightarrow> 64 word \<Rightarrow> bool \<Rightarrow> bool \<times> mm option" where
  "user_mem_check mo addr len write =
     (case mo of
        Some m \<Rightarrow> if \<not> USER_ACCESS addr (addr + len) then (False, mo)
                  else let (r, m1) = user_mem_loop addr (addr + len) write m in (r, Some m1)
      | None \<Rightarrow> (KERN_ACCESS addr (addr + len), None))"

text \<open>
  \<^verbatim>\<open>strnlen\<close> (\<^verbatim>\<open>src/libs/string.c\<close>) and \<^verbatim>\<open>copy_string\<close> over a memory of bytes. The loop would not
  advance with a part of 0; \<^verbatim>\<open>user_mem_check\<close> refuses empty ranges, so it does not get there.
\<close>

fun strnlen_mem :: "(64 word \<Rightarrow> 8 word) \<Rightarrow> 64 word \<Rightarrow> nat \<Rightarrow> nat" where
  "strnlen_mem mem s 0 = 0"
| "strnlen_mem mem s (Suc n) = (if mem s = 0 then 0 else Suc (strnlen_mem mem (s + 1) n))"

definition mem_bytes :: "(64 word \<Rightarrow> 8 word) \<Rightarrow> 64 word \<Rightarrow> nat \<Rightarrow> 8 word list" where
  "mem_bytes mem s n = map (\<lambda>i. mem (s + of_nat i)) [0 ..< n]"

function copy_string_loop ::
  "(64 word \<Rightarrow> 8 word) \<Rightarrow> mm option \<Rightarrow> 64 word \<Rightarrow> nat \<Rightarrow> nat \<Rightarrow> 8 word list \<Rightarrow>
   (bool \<times> 8 word list \<times> mm option) option" where
  "copy_string_loop mem mo src part maxn dst =
     (let part = (if part > maxn then maxn else part);
          (ok, mo1) = user_mem_check mo src (of_nat part) False in
      if \<not> ok then Some (False, dst, mo1)
      else let alen = strnlen_mem mem src part in
        if alen < part then Some (True, dst @ mem_bytes mem src (alen + 1), mo1)
        else if part = maxn then Some (False, dst, mo1)
        else if part = 0 then None
        else copy_string_loop mem mo1 (src + of_nat part) 4096 (maxn - part) (dst @ mem_bytes mem src part))"
  by pat_completeness auto
termination by (relation "measure (\<lambda>(_, _, _, _, maxn, _). maxn)") (auto split: if_splits)

declare copy_string_loop.simps [simp del]

definition copy_string ::
  "(64 word \<Rightarrow> 8 word) \<Rightarrow> mm option \<Rightarrow> 64 word \<Rightarrow> nat \<Rightarrow> (bool \<times> 8 word list \<times> mm option) option" where
  "copy_string mem mo src maxn =
     copy_string_loop mem mo src (unat (ROUNDDOWN (src + PGSIZE) PGSIZE - src)) maxn []"

subsection \<open>The invariant of an area list\<close>

definition mm_wf :: "mm \<Rightarrow> bool" where
  "mm_wf m \<longleftrightarrow> sorted_wrt (\<lambda>a b. vm_end a \<le> vm_start b) (mmap_list m) \<and>
     (\<forall>v\<in>set (mmap_list m). vm_start v < vm_end v) \<and>
     (\<forall>c. mmap_cache m = Some c \<longrightarrow> c \<in> set (mmap_list m)) \<and>
     map_count m = int (length (mmap_list m))"

definition vma_overlap :: "vma \<Rightarrow> vma \<Rightarrow> bool" where
  "vma_overlap v w \<longleftrightarrow> vm_start v < vm_end w \<and> vm_start w < vm_end v"

lemma mm_wfD:
  assumes "mm_wf m"
  shows "sorted_wrt (\<lambda>a b. vm_end a \<le> vm_start b) (mmap_list m)"
    "\<And>v. v \<in> set (mmap_list m) \<Longrightarrow> vm_start v < vm_end v"
    "\<And>c. mmap_cache m = Some c \<Longrightarrow> c \<in> set (mmap_list m)"
  using assms by (auto simp: mm_wf_def)

lemma areas_disjoint:
  assumes "sorted_wrt (\<lambda>a b. vm_end a \<le> vm_start b) vs" "v \<in> set vs" "w \<in> set vs"
    "vma_has a v" "vma_has a w"
  shows "v = w"
proof -
  have no: "\<not> vm_end x \<le> vm_start y" if "vma_has a x" "vma_has a y" for x y
    using that by (auto simp: vma_has_def)
  obtain i j where ij: "i < length vs" "j < length vs" "v = vs ! i" "w = vs ! j"
    using assms(2,3) by (auto simp: in_set_conv_nth)
  consider "i < j" | "j < i" | "i = j" by linarith
  then show ?thesis
    using sorted_wrt_nth_less[OF assms(1)] ij no[of v w] no[of w v] assms(4,5) by cases auto
qed

lemma vma_scan_iff:
  assumes "sorted_wrt (\<lambda>a b. vm_end a \<le> vm_start b) vs"
  shows "vma_scan a vs = Some v \<longleftrightarrow> v \<in> set vs \<and> vma_has a v"
proof
  assume r: "v \<in> set vs \<and> vma_has a v"
  have "\<exists>w. vma_scan a vs = Some w"
    using r by (induction vs) (auto simp: vma_has_def)
  then obtain w where w: "vma_scan a vs = Some w" by blast
  then show "vma_scan a vs = Some v"
    using vma_scan_Some[OF w] areas_disjoint[OF assms, of w v a] r by (auto simp: vma_has_def)
qed (use vma_scan_Some in \<open>auto simp: vma_has_def\<close>)

lemma vma_scan_None: "vma_scan a vs = None \<longleftrightarrow> (\<forall>v\<in>set vs. \<not> vma_has a v)"
  by (induction vs) (auto simp: vma_has_def)

lemma find_vma_wf:
  assumes "mm_wf m"
  shows "fst (find_vma a m) = vma_scan a (mmap_list m)"
    "mm_wf (snd (find_vma a m))" "mmap_list (snd (find_vma a m)) = mmap_list m"
proof -
  note scan = vma_scan_iff[OF mm_wfD(1)[OF assms]]
  have "vma_scan a (mmap_list m) = Some c" if "mmap_cache m = Some c" "vma_has a c" for c
    using scan mm_wfD(3)[OF assms that(1)] that(2) by blast
  then have e: "find_vma a m = (case vma_scan a (mmap_list m) of None \<Rightarrow> (None, m)
      | Some w \<Rightarrow> (Some w, m\<lparr>mmap_cache := Some w\<rparr>))"
    by (auto simp: find_vma_def vma_has_def Let_def split: option.splits)
  show "fst (find_vma a m) = vma_scan a (mmap_list m)"
    "mmap_list (snd (find_vma a m)) = mmap_list m"
    by (auto simp: e split: option.splits)
  show "mm_wf (snd (find_vma a m))"
    using assms scan by (auto simp: e mm_wf_def split: option.splits)
qed

subsection \<open>Insertion\<close>

lemma dropWhile_later:
  assumes "sorted_wrt (\<lambda>a b. vm_end a \<le> vm_start b) (l :: vma list)" "\<forall>x\<in>set l. vm_start x < vm_end x"
    and "w \<in> set (dropWhile (\<lambda>w. \<not> vm_start w > s) l)"
  shows "s < vm_start w"
  using assms
proof (induction l)
  case (Cons x l)
  then show ?case
    by (cases "s < vm_start x") (auto dest: less_le_trans less_trans)
qed simp

lemma insert_split:
  assumes "mm_wf m"
  obtains pre post where "mmap_list m = pre @ post"
    "takeWhile (\<lambda>w. \<not> vm_start w > vm_start v) (mmap_list m) = pre"
    "dropWhile (\<lambda>w. \<not> vm_start w > vm_start v) (mmap_list m) = post"
    "\<And>w. w \<in> set pre \<Longrightarrow> vm_start w \<le> vm_start v" "\<And>w. w \<in> set post \<Longrightarrow> vm_start v < vm_start w"
proof
  let ?P = "\<lambda>w. \<not> vm_start w > vm_start v"
  let ?l = "mmap_list m"
  show "?l = takeWhile ?P ?l @ dropWhile ?P ?l" by simp
  show "\<And>w. w \<in> set (takeWhile ?P ?l) \<Longrightarrow> vm_start w \<le> vm_start v" by (auto dest: set_takeWhileD)
  show "\<And>w. w \<in> set (dropWhile ?P ?l) \<Longrightarrow> vm_start v < vm_start w"
    using dropWhile_later[of ?l] mm_wfD(1,2)[OF assms] by blast
qed simp_all

lemma insert_vma_struct_wf:
  assumes wf: "mm_wf m" and v: "vm_start v < vm_end v"
  shows "if \<exists>w\<in>set (mmap_list m). vma_overlap v w then insert_vma_struct v m = None
    else \<exists>m'. insert_vma_struct v m = Some m' \<and> mm_wf m' \<and> set (mmap_list m') = insert v (set (mmap_list m)) \<and>
       mmap_cache m' = mmap_cache m \<and> pgdir m' = pgdir m"
proof -
  note D = mm_wfD[OF wf]
  obtain pre post where l: "mmap_list m = pre @ post"
    and tw: "takeWhile (\<lambda>w. \<not> vm_start w > vm_start v) (mmap_list m) = pre"
      "dropWhile (\<lambda>w. \<not> vm_start w > vm_start v) (mmap_list m) = post"
    and pre: "\<And>w. w \<in> set pre \<Longrightarrow> vm_start w \<le> vm_start v"
    and post: "\<And>w. w \<in> set post \<Longrightarrow> vm_start v < vm_start w"
    by (rule insert_split[OF wf, of v]) blast
  have srt: "sorted_wrt (\<lambda>a b. vm_end a \<le> vm_start b) (pre @ post)" using D(1) l by simp
  have ne: "vm_start w < vm_end w" if "w \<in> set pre \<or> w \<in> set post" for w using D(2) that l by auto
  have p: "vma_overlap v w \<longleftrightarrow> w = last pre \<and> vm_start v < vm_end (last pre)" if wp: "w \<in> set pre" for w
  proof (cases "w = last pre")
    case True
    then show ?thesis using pre[OF that] v by (auto simp: vma_overlap_def)
  next
    case False
    obtain ps q where ps: "pre = ps @ [q]" using wp by (cases pre rule: rev_cases) auto
    then have "vm_end w \<le> vm_start q" using srt False that by (auto simp: sorted_wrt_append)
    then have "vm_end w \<le> vm_start v" using pre[of q] ps by auto
    then show ?thesis using False by (auto simp: vma_overlap_def)
  qed
  have q: "vma_overlap v w \<Longrightarrow> vm_start (hd post) < vm_end v" "vma_overlap v (hd post) \<longleftrightarrow> vm_start (hd post) < vm_end v"
    if wp: "w \<in> set post" for w
  proof -
    obtain y ys where ys: "post = y # ys" using wp by (cases post) auto
    have "vm_start y \<le> vm_start w"
      using srt that ne[of y] by (auto simp: ys sorted_wrt_append)
    then show "vma_overlap v w \<Longrightarrow> vm_start (hd post) < vm_end v" by (auto simp: vma_overlap_def ys)
    show "vma_overlap v (hd post) \<longleftrightarrow> vm_start (hd post) < vm_end v"
      using post[of y] ne[of y] by (auto simp: vma_overlap_def ys)
  qed
  show ?thesis
  proof (cases "\<exists>w\<in>set (mmap_list m). vma_overlap v w")
    case True
    then have "(pre \<noteq> [] \<and> vm_start v < vm_end (last pre)) \<or> (post \<noteq> [] \<and> vm_start (hd post) < vm_end v)"
      using p q(1) by (auto simp: l)
    then have "insert_vma_struct v m = None"
      using v unfolding insert_vma_struct_def tw by (auto simp: check_vma_overlap_def not_le kassert_def)
    then show ?thesis using True by simp
  next
    case False
    have lp: "vm_end (last pre) \<le> vm_start v" if "pre \<noteq> []" using False that p[of "last pre"] by (auto simp: l)
    have hp: "vm_end v \<le> vm_start (hd post)" if "post \<noteq> []"
      using False that q(2)[of "hd post"] by (auto simp: l)
    have r: "insert_vma_struct v m = Some (m\<lparr>mmap_list := pre @ v # post, map_count := map_count m + 1\<rparr>)"
      using v lp hp ne unfolding insert_vma_struct_def tw by (auto simp: check_vma_overlap_def)
    have ps: "vm_end w \<le> vm_start v" if "w \<in> set pre" for w
    proof -
      have "\<not> vma_overlap v w" using False that l by auto
      moreover have "vm_start w < vm_end v" using pre[OF that] v by (rule order.strict_trans1)
      ultimately show ?thesis by (simp add: vma_overlap_def)
    qed
    have qs: "vm_end v \<le> vm_start w" if "w \<in> set post" for w
    proof -
      have "\<not> vma_overlap v w" using False that l by auto
      moreover have "vm_start v < vm_end w" using post[OF that] ne[of w] that by (auto intro: order.strict_trans)
      ultimately show ?thesis by (simp add: vma_overlap_def)
    qed
    show ?thesis using False r v wf srt ps qs l by (auto simp: mm_wf_def sorted_wrt_append)
  qed
qed

subsection \<open>Access checks\<close>

text \<open>What \<^verbatim>\<open>user_mem_check\<close> promises for one byte.\<close>

definition access_ok :: "bool \<Rightarrow> mm \<Rightarrow> 64 word \<Rightarrow> bool" where
  "access_ok write m a \<longleftrightarrow> (\<exists>v\<in>set (mmap_list m). vma_has a v \<and>
     vm_flags v AND (if write then VM_WRITE else VM_READ) \<noteq> 0 \<and>
     (write \<and> vm_flags v AND VM_STACK \<noteq> 0 \<longrightarrow> vm_start v + PGSIZE \<le> a))"

lemma user_mem_loop_wf:
  assumes "mm_wf m"
  shows "(fst (user_mem_loop start en w m) \<longleftrightarrow> (\<forall>a. start \<le> a \<longrightarrow> a < en \<longrightarrow> access_ok w m a)) \<and>
    mm_wf (snd (user_mem_loop start en w m)) \<and>
    mmap_list (snd (user_mem_loop start en w m)) = mmap_list m"
  using assms
proof (induction start en w m rule: user_mem_loop.induct)
  case (1 start en w m)
  note wf = "1.prems" and fw = find_vma_wf[OF "1.prems", of start]
  obtain r m1 where f: "find_vma start m = (r, m1)" by fastforce
  have r: "r = vma_scan start (mmap_list m)" "mm_wf m1" "mmap_list m1 = mmap_list m" using fw f by auto
  have acc1: "access_ok w m1 a = access_ok w m a" for a by (simp add: access_ok_def r)
  show ?case
  proof (cases "start < en")
    case False
    then show ?thesis using wf by (subst (1 2 3) user_mem_loop.simps) auto
  next
    case True
    show ?thesis
    proof (cases r)
      case None
      then have "\<not> access_ok w m start" using r(1) by (auto simp: access_ok_def vma_scan_None)
      then show ?thesis using True f None r by (subst (1 2 3) user_mem_loop.simps) auto
    next
      case (Some v)
      then have v: "v \<in> set (mmap_list m)" "vma_has start v"
        using r(1) vma_scan_iff[OF mm_wfD(1)[OF wf]] by auto
      have uniq: "x = v" if "x \<in> set (mmap_list m)" "vma_has start x" for x
        using areas_disjoint[OF mm_wfD(1)[OF wf] that(1) v(1) that(2) v(2)] .
      let ?bad = "vm_flags v AND (if w then VM_WRITE else VM_READ) = 0 \<or>
        (w \<and> vm_flags v AND VM_STACK \<noteq> 0 \<and> start < vm_start v + PGSIZE)"
      have ns: "\<not> start < vm_start v" using v(2) by (auto simp: vma_has_def)
      show ?thesis
      proof (cases ?bad)
        case bad: True
        then have "\<not> access_ok w m start" using uniq by (auto simp: access_ok_def)
        then show ?thesis
          using True f Some r bad ns by (subst (1 2 3) user_mem_loop.simps) auto
      next
        case ok: False
        have e: "user_mem_loop start en w m = user_mem_loop (vm_end v) en w m1"
          using True f Some ns ok by (subst user_mem_loop.simps) auto
        have seg: "access_ok w m a" if "start \<le> a" "a < vm_end v" for a
          using v ok that by (auto simp: access_ok_def vma_has_def intro!: bexI[of _ v])
        have se: "start \<le> vm_end v" using v(2) by (auto simp: vma_has_def)
        have "(\<forall>a. start \<le> a \<longrightarrow> a < en \<longrightarrow> access_ok w m a) \<longleftrightarrow>
            (\<forall>a. vm_end v \<le> a \<longrightarrow> a < en \<longrightarrow> access_ok w m a)" (is "?l \<longleftrightarrow> ?r")
        proof
          assume ?l
          then show ?r using se by (meson order.trans)
        next
          assume ?r
          then show ?l using seg by (meson not_le)
        qed
        then show ?thesis
          using "1.IH"[OF True f[symmetric] Some] ns ok r(2) acc1 r(3) unfolding e by auto
      qed
    qed
  qed
qed

subsection \<open>Strings from user space\<close>

lemma strnlen_mem_le: "strnlen_mem mem s n \<le> n"
  by (induction n arbitrary: s) auto

lemma strnlen_mem_nonzero: "i < strnlen_mem mem s n \<Longrightarrow> mem (s + of_nat i) \<noteq> 0"
proof (induction n arbitrary: s i)
  case (Suc n)
  then show ?case
  proof (cases i)
    case 0
    then show ?thesis using Suc.prems by (simp split: if_splits)
  next
    case (Suc j)
    then have "j < strnlen_mem mem (s + 1) n" using \<open>i < _\<close> by (simp split: if_splits)
    from Suc.IH[OF this] show ?thesis using \<open>i = Suc j\<close> by (simp add: add.assoc)
  qed
qed simp

lemma strnlen_mem_zero: "strnlen_mem mem s n < n \<Longrightarrow> mem (s + of_nat (strnlen_mem mem s n)) = 0"
proof (induction n arbitrary: s)
  case (Suc n)
  then show ?case using Suc.IH[of "s + 1"] by (auto simp: add.assoc)
qed simp

lemma mem_bytes_add: "mem_bytes mem s (m + n) = mem_bytes mem s m @ mem_bytes mem (s + of_nat m) n"
  by (induction n) (simp_all add: mem_bytes_def add.assoc)

lemma user_mem_check_wf:
  assumes "mm_wf m" and "user_mem_check (Some m) addr len w = (r, mo)"
  shows "r \<longleftrightarrow> USER_ACCESS addr (addr + len) \<and> (\<forall>a. addr \<le> a \<longrightarrow> a < addr + len \<longrightarrow> access_ok w m a)"
    "\<exists>m'. mo = Some m' \<and> mm_wf m' \<and> mmap_list m' = mmap_list m"
  using assms user_mem_loop_wf[OF assms(1), of addr "addr + len" w]
  by (auto simp: user_mem_check_def split: prod.splits if_splits)

lemma user_range_byte:
  assumes "USER_ACCESS src (src + of_nat n)" "j < n" "n < 2 ^ 64"
  shows "src \<le> src + of_nat j \<and> src + of_nat j < src + of_nat n"
proof -
  have add: "unat (src + of_nat k) = (unat src + k) mod 2 ^ 64" for k
    by (simp add: unat_word_ariths unat_of_nat mod_add_right_eq)
  have lt: "unat src < unat (src + of_nat n)"
    using assms(1) by (simp add: USER_ACCESS_def word_less_nat_alt)
  have "unat src + n < 2 ^ 64"
  proof (rule ccontr)
    assume "\<not> unat src + n < 2 ^ 64"
    then have "(unat src + n) mod 2 ^ 64 = unat src + n - 2 ^ 64"
      using assms(3) unsigned_less[where ?w = src and ?'a = nat] by (subst le_mod_geq) auto
    then show False using lt add[of n] assms(3) by simp
  qed
  then show ?thesis using add[of j] add[of n] assms(2) by (simp add: word_le_nat_alt word_less_nat_alt)
qed

text \<open>The part already copied holds no NUL, was readable, and ends where the loop goes on.\<close>

lemma copy_string_loop_sound:
  assumes "\<And>i. i < k \<Longrightarrow> mem (src0 + of_nat i) \<noteq> 0 \<and> access_ok False m0 (src0 + of_nat i)"
    and "src = src0 + of_nat k" "dst = mem_bytes mem src0 k" "maxn < 2 ^ 64"
    and "mo = Some m" "mm_wf m" "mmap_list m = mmap_list m0"
    and "copy_string_loop mem mo src part maxn dst = Some (True, out, mo')"
  shows "\<exists>n. k \<le> n \<and> n < k + maxn \<and> out = mem_bytes mem src0 (n + 1) \<and>
    (\<forall>i<n. mem (src0 + of_nat i) \<noteq> 0) \<and> mem (src0 + of_nat n) = 0 \<and>
    (\<forall>i\<le>n. access_ok False m0 (src0 + of_nat i))"
  using assms
proof (induction mem mo src part maxn dst arbitrary: k m rule: copy_string_loop.induct)
  case (1 mem mo src part maxn dst)
  define p where "p = (if part > maxn then maxn else part)"
  define al where "al = strnlen_mem mem src p"
  obtain ok mo1 where u: "user_mem_check mo src (of_nat p) False = (ok, mo1)" by fastforce
  have pm: "p \<le> maxn" by (simp add: p_def)
  note uw = user_mem_check_wf[OF "1.prems"(6) u[unfolded "1.prems"(5)]]
  obtain m1 where m1: "mo1 = Some m1" "mm_wf m1" "mmap_list m1 = mmap_list m0"
    using uw(2) "1.prems"(7) by auto
  have acc: "access_ok False m0 (src0 + of_nat (k + j))" if "j < p" ok for j
  proof -
    have "access_ok False m (src + of_nat j)"
      using uw(1) that user_range_byte[of src p j] pm "1.prems"(4) by auto
    then show ?thesis using "1.prems"(2,7) by (simp add: access_ok_def add.assoc)
  qed
  have nz: "mem (src0 + of_nat (k + j)) \<noteq> 0" if "j < al" for j
    using strnlen_mem_nonzero[of j mem src p] that "1.prems"(2) by (simp add: al_def add.assoc)
  have lt: "mem (src0 + of_nat i) \<noteq> 0" if "i < k + al" for i
    using "1.prems"(1)[of i] nz[of "i - k"] that by (cases "i < k") auto
  have rd: "access_ok False m0 (src0 + of_nat i)" if "i < k + p" ok for i
    using "1.prems"(1)[of i] acc[of "i - k"] that by (cases "i < k") auto
  have r: "(if \<not> ok then Some (False, dst, mo1)
      else if al < p then Some (True, dst @ mem_bytes mem src (al + 1), mo1)
      else if p = maxn then Some (False, dst, mo1)
      else if p = 0 then None
      else copy_string_loop mem mo1 (src + of_nat p) 4096 (maxn - p) (dst @ mem_bytes mem src p)) = Some (True, out, mo')"
    using "1.prems"(8) u by (subst (asm) copy_string_loop.simps) (simp only: Let_def p_def[symmetric] u prod.case al_def[symmetric])
  show ?case
  proof (cases "ok \<and> al < p")
    case True
    then have out: "out = mem_bytes mem src0 (k + al + 1)"
      using r "1.prems"(2,3) mem_bytes_add[of mem src0 k "al + 1"] by (simp add: add.assoc)
    have "mem (src0 + of_nat (k + al)) = 0"
      using strnlen_mem_zero[of mem src p] True "1.prems"(2) by (simp add: al_def add.assoc)
    then show ?thesis using out lt rd True pm by (intro exI[of _ "k + al"]) auto
  next
    case False
    then have ok: "ok" "\<not> al < p" "p \<noteq> maxn" "p \<noteq> 0" using r by (auto split: if_splits)
    then have al: "al = p" using strnlen_mem_le[of mem src p] by (simp add: al_def)
    have rec: "copy_string_loop mem mo1 (src + of_nat p) 4096 (maxn - p) (dst @ mem_bytes mem src p) = Some (True, out, mo')"
      using r ok by simp
    have "\<exists>n. k + p \<le> n \<and> n < k + p + (maxn - p) \<and> out = mem_bytes mem src0 (n + 1) \<and>
        (\<forall>i<n. mem (src0 + of_nat i) \<noteq> 0) \<and> mem (src0 + of_nat n) = 0 \<and>
        (\<forall>i\<le>n. access_ok False m0 (src0 + of_nat i))"
      by (rule "1.IH"[OF p_def u[symmetric] refl _ al_def _ _ _ _ _ _ _ m1 rec])
        (use ok lt rd al "1.prems"(2-4) mem_bytes_add[of mem src0 k p] in \<open>auto simp: add.assoc\<close>)
    then obtain n where "k + p \<le> n \<and> n < k + p + (maxn - p) \<and> out = mem_bytes mem src0 (n + 1) \<and>
        (\<forall>i<n. mem (src0 + of_nat i) \<noteq> 0) \<and> mem (src0 + of_nat n) = 0 \<and>
        (\<forall>i\<le>n. access_ok False m0 (src0 + of_nat i))" by blast
    then show ?thesis using pm by (intro exI[of _ n]) auto
  qed
qed

lemma copy_string_loop_total:
  "\<exists>ok out mo'. copy_string_loop mem mo src part maxn dst = Some (ok, out, mo')"
proof (induction mem mo src part maxn dst rule: copy_string_loop.induct)
  case (1 mem mo src part maxn dst)
  define p where "p = (if part > maxn then maxn else part)"
  obtain ok mo1 where u: "user_mem_check mo src (of_nat p) False = (ok, mo1)" by fastforce
  have "p = 0 \<Longrightarrow> \<not> ok"
    using u by (auto simp: user_mem_check_def USER_ACCESS_def KERN_ACCESS_def split: option.splits)
  moreover note "1.IH"[OF p_def u[symmetric] refl _ refl]
  ultimately show ?case
    by (subst copy_string_loop.simps) (simp only: Let_def p_def[symmetric] u prod.case, auto)
qed

subsection \<open>Properties\<close>

text \<open>A readable area of one page at 0x800000 and a writable stack of two pages at 0x900000.\<close>

definition sample_mm :: mm where
  "sample_mm = \<lparr>mmap_list = [\<lparr>vm_start = 0x800000, vm_end = 0x801000, vm_flags = 1\<rparr>,
       \<lparr>vm_start = 0x900000, vm_end = 0x902000, vm_flags = 11\<rparr>],
     mmap_cache = Some \<lparr>vm_start = 0x900000, vm_end = 0x902000, vm_flags = 11\<rparr>,
     pgdir = Some 0, map_count = 2, mm_count = 1\<rparr>"

lemma sample_mm_wf: "mm_wf sample_mm" by (simp add: mm_wf_def sample_mm_def)

text \<open>C11: \<^verbatim>\<open>insert_vma_struct\<close> is exact. On a well-formed area list it panics exactly when the new
  area overlaps one of the list; otherwise it adds the area, and the list stays sorted, disjoint
  and counted, whatever the cache holds.\<close>

theorem insert_vma_struct_exact:
  assumes "mm_wf m" and "vm_start v < vm_end v"
  shows "if \<exists>w\<in>set (mmap_list m). vma_overlap v w then insert_vma_struct v m = None
    else \<exists>m'. insert_vma_struct v m = Some m' \<and> mm_wf m' \<and>
      set (mmap_list m') = insert v (set (mmap_list m)) \<and> mmap_cache m' = mmap_cache m"
  using insert_vma_struct_wf[OF assms] by auto

theorem insert_vma_struct_exact_witness:
  "\<exists>m'. insert_vma_struct \<lparr>vm_start = 0x801000, vm_end = 0x803000, vm_flags = 3\<rparr> sample_mm = Some m' \<and>
     mm_wf m' \<and> insert_vma_struct \<lparr>vm_start = 0x7FF000, vm_end = 0x801000, vm_flags = 3\<rparr> sample_mm = None"
  using insert_vma_struct_exact[OF sample_mm_wf, of "\<lparr>vm_start = 0x801000, vm_end = 0x803000, vm_flags = 3\<rparr>"]
    insert_vma_struct_exact[OF sample_mm_wf, of "\<lparr>vm_start = 0x7FF000, vm_end = 0x801000, vm_flags = 3\<rparr>"]
  by (auto simp: vma_overlap_def sample_mm_def)



text \<open>C13: \<^verbatim>\<open>user_mem_check\<close> accepts exactly the ranges whose every byte may be accessed: the range is
  a non-empty user range, and each address lies in an area with the needed permission, for
  writes to a stack area above its lowest page. The loop over areas ends and leaves the areas
  as they are.\<close>

theorem user_mem_check_exact:
  assumes "mm_wf m"
  shows "\<exists>m'. user_mem_check (Some m) addr len w =
      (USER_ACCESS addr (addr + len) \<and> (\<forall>a. addr \<le> a \<longrightarrow> a < addr + len \<longrightarrow> access_ok w m a), Some m') \<and>
    mm_wf m' \<and> mmap_list m' = mmap_list m"
proof -
  obtain r mo where "user_mem_check (Some m) addr len w = (r, mo)" by fastforce
  then show ?thesis using user_mem_check_wf[OF assms] by blast
qed

theorem user_mem_check_exact_witness:
  "\<exists>m'. user_mem_check (Some sample_mm) 0x900000 8 True = (False, Some m') \<and> mm_wf m'"
proof -
  have n: "\<not> access_ok True sample_mm 0x900000"
    by (simp add: access_ok_def sample_mm_def vma_has_def VM_STACK_def VM_WRITE_def PGSIZE_def)
  have "\<not> (\<forall>a. 0x900000 \<le> a \<longrightarrow> a < 0x900000 + 8 \<longrightarrow> access_ok True sample_mm a)"
    using n by (auto intro!: exI[of _ "0x900000"])
  then show ?thesis using user_mem_check_exact[OF sample_mm_wf, of "0x900000" 8 True] by auto
qed



text \<open>C15: \<^verbatim>\<open>mm_map\<close> looks at its first page only. For an area that starts in unmapped space but runs
  into an existing area, it does not return an error: the overlap check of \<^verbatim>\<open>insert_vma_struct\<close>
  panics. It panics in no other case.\<close>

theorem mm_map_panics_on_overlap:
  assumes "mm_wf m" and "st = ROUNDDOWN addr PGSIZE" and "en = ROUNDUP (addr + len) PGSIZE"
  shows "mm_map True addr len fl m = None \<longleftrightarrow>
    USER_ACCESS st en \<and> (\<forall>v\<in>set (mmap_list m). \<not> vma_has st v) \<and>
    (\<exists>v\<in>set (mmap_list m). vma_overlap \<lparr>vm_start = st, vm_end = en, vm_flags = fl\<rparr> v)"
proof -
  let ?v = "\<lparr>vm_start = st, vm_end = en, vm_flags = fl\<rparr>"
  obtain r m1 where f: "find_vma st m = (r, m1)" by fastforce
  have m1: "r = vma_scan st (mmap_list m)" "mm_wf m1" "mmap_list m1 = mmap_list m"
    using find_vma_wf[OF assms(1), of st] f by auto
  have hit: "en > vm_start w" if "r = Some w" "USER_ACCESS st en" for w
    using that vma_scan_Some[of st _ w] m1(1) by (auto simp: USER_ACCESS_def intro: order.strict_trans1)
  have none: "r = None \<longleftrightarrow> (\<forall>v\<in>set (mmap_list m). \<not> vma_has st v)" using m1(1) vma_scan_None by simp
  have ins: "insert_vma_struct ?v m1 = None \<longleftrightarrow> (\<exists>v\<in>set (mmap_list m). vma_overlap ?v v)" if "USER_ACCESS st en"
    using insert_vma_struct_wf[OF m1(2), of ?v] that m1(3) by (auto simp: USER_ACCESS_def split: if_splits)
  show ?thesis
    unfolding mm_map_def Let_def assms(2,3)[symmetric] f prod.case
    using hit none ins by (cases r) (auto simp: vma_create_def split: Option.bind_splits)
qed

theorem mm_map_panics_on_overlap_witness:
  "mm_map True 0x7FF000 0x2000 3 sample_mm = None"
  using mm_map_panics_on_overlap[OF sample_mm_wf refl refl, of "0x7FF000" "0x2000" 3]
  by (simp add: ROUNDDOWN_def ROUNDUP_def PGSIZE_def USER_ACCESS_def USERBASE_def USERTOP_def
      vma_has_def vma_overlap_def sample_mm_def)

end
