(* ===== verification/Vfs.thy ===== *)
theory Vfs
  imports Libc_String
begin

text \<open>
  The virtual file system: inodes and their counts (\<^verbatim>\<open>src/kern/fs/vfs/inode.c\<close>, \<^verbatim>\<open>inode.h\<close>), I/O buffers
  (\<^verbatim>\<open>src/kern/fs/iobuf.c\<close>), the list of named devices (\<^verbatim>\<open>vfsdev.c\<close>), the boot file system (\<^verbatim>\<open>vfs.c\<close>),
  the working directory (\<^verbatim>\<open>vfspath.c\<close>), path names (\<^verbatim>\<open>vfslookup.c\<close>) and opening and closing
  (\<^verbatim>\<open>vfsfile.c\<close>).

  Inodes, file systems and tables of open files are numbers. The function pointers \<^verbatim>\<open>struct inode_ops\<close> and
  those of \<^verbatim>\<open>struct fs\<close> are the record \<open>drv\<close>, an argument of the operations that call through them: \<open>None\<close> is
  a NULL pointer, and the functions work on the whole state, of which the members of a driver are the part after those
  of \<open>fs_state\<close>. What is returned by a driver is the C \<^verbatim>\<open>int\<close>, 0 for success. Semaphores that protect these data
  (\<^verbatim>\<open>bootfs_sem\<close>, \<^verbatim>\<open>vdev_list_sem\<close>, \<^verbatim>\<open>files_sem\<close>) are left out: each operation is one step.
\<close>

unbundle bit_operations_syntax

type_synonym iptr = nat
type_synonym fsptr = nat

record inode =
  ref_count :: int
  open_count :: int
  in_fs :: "fsptr option"

record iobuf =
  io_base :: nat
  io_offset :: int
  io_len :: nat
  io_resid :: nat

record stat =
  st_mode :: "32 word"
  st_nlinks :: nat
  st_blocks :: nat
  st_size :: nat

datatype fd_status = FD_NONE | FD_INIT | FD_OPENED | FD_CLOSED

record fd_entry =
  fstatus :: fd_status
  readable :: bool
  writable :: bool
  fd :: int
  fpos :: int
  fnode :: "iptr option"
  fopen_count :: int

record files_struct =
  pwd :: "iptr option"
  fd_array :: "fd_entry list"
  files_count :: int

record vdev =
  devname :: string
  devnode :: "iptr option"
  vdev_fs :: "fsptr option"
  mountable :: bool

record fs_state =
  fmem :: bmem
  inodes :: "iptr \<Rightarrow> inode"
  tables :: "nat \<Rightarrow> files_struct"
  bootfs_node :: "iptr option"
  vdev_list :: "vdev list"

record 's drv =
  op_open :: "iptr \<Rightarrow> (32 word \<Rightarrow> 's \<Rightarrow> (int \<times> 's) option) option"
  op_close :: "iptr \<Rightarrow> ('s \<Rightarrow> (int \<times> 's) option) option"
  op_read :: "iptr \<Rightarrow> (iobuf \<Rightarrow> 's \<Rightarrow> (int \<times> iobuf \<times> 's) option) option"
  op_write :: "iptr \<Rightarrow> (iobuf \<Rightarrow> 's \<Rightarrow> (int \<times> iobuf \<times> 's) option) option"
  op_fstat :: "iptr \<Rightarrow> ('s \<Rightarrow> (int \<times> stat \<times> 's) option) option"
  op_fsync :: "iptr \<Rightarrow> ('s \<Rightarrow> (int \<times> 's) option) option"
  op_getdirentry :: "iptr \<Rightarrow> (iobuf \<Rightarrow> 's \<Rightarrow> (int \<times> iobuf \<times> 's) option) option"
  op_reclaim :: "iptr \<Rightarrow> ('s \<Rightarrow> (int \<times> 's) option) option"
  op_gettype :: "iptr \<Rightarrow> ('s \<Rightarrow> (int \<times> 32 word \<times> 's) option) option"
  op_tryseek :: "iptr \<Rightarrow> (int \<Rightarrow> 's \<Rightarrow> (int \<times> 's) option) option"
  op_truncate :: "iptr \<Rightarrow> (int \<Rightarrow> 's \<Rightarrow> (int \<times> 's) option) option"
  op_create :: "iptr \<Rightarrow> (string \<Rightarrow> bool \<Rightarrow> 's \<Rightarrow> (int \<times> iptr \<times> 's) option) option"
  op_lookup :: "iptr \<Rightarrow> (string \<Rightarrow> 's \<Rightarrow> (int \<times> iptr \<times> 's) option) option"
  fs_get_root :: "fsptr \<Rightarrow> 's \<Rightarrow> (iptr \<times> 's) option"
  fs_sync :: "fsptr \<Rightarrow> 's \<Rightarrow> (int \<times> 's) option"
  fs_unmount :: "fsptr \<Rightarrow> 's \<Rightarrow> (int \<times> 's) option"
  fs_cleanup :: "fsptr \<Rightarrow> 's \<Rightarrow> 's option"

definition O_RDONLY :: "32 word" where "O_RDONLY = 0"
definition O_WRONLY :: "32 word" where "O_WRONLY = 1"
definition O_RDWR :: "32 word" where "O_RDWR = 2"
definition O_CREAT :: "32 word" where "O_CREAT = 4"
definition O_EXCL :: "32 word" where "O_EXCL = 8"
definition O_TRUNC :: "32 word" where "O_TRUNC = 0x10"
definition O_APPEND :: "32 word" where "O_APPEND = 0x20"
definition O_ACCMODE :: "32 word" where "O_ACCMODE = 3"
definition MAX_INODE_COUNT :: int where "MAX_INODE_COUNT = 0x10000"
definition FS_MAX_DNAME_LEN :: nat where "FS_MAX_DNAME_LEN = 31"
definition S_IFMT :: "32 word" where "S_IFMT = 0x7000"
definition S_IFDIR :: "32 word" where "S_IFDIR = 0x2000"
definition S_ISDIR :: "32 word \<Rightarrow> bool" where "S_ISDIR mode \<longleftrightarrow> mode AND S_IFMT = S_IFDIR"

subsection \<open>I/O buffers\<close>

definition iobuf_init :: "nat \<Rightarrow> nat \<Rightarrow> int \<Rightarrow> iobuf" where
  "iobuf_init base len offset = \<lparr>io_base = base, io_offset = offset, io_len = len, io_resid = len\<rparr>"

definition iobuf_used :: "iobuf \<Rightarrow> nat" where "iobuf_used iob = io_len iob - io_resid iob"

definition iobuf_skip :: "nat \<Rightarrow> iobuf \<Rightarrow> iobuf option" where
  "iobuf_skip n iob = do {
     kassert (io_resid iob \<ge> n);
     Some (iob\<lparr>io_base := io_base iob + n, io_offset := io_offset iob + int n, io_resid := io_resid iob - n\<rparr>) }"

text \<open>The result is the error code, the number of bytes moved, the buffer and the memory.\<close>

definition iobuf_move :: "nat \<Rightarrow> nat \<Rightarrow> bool \<Rightarrow> iobuf \<Rightarrow> bmem \<Rightarrow> (int \<times> nat \<times> iobuf \<times> bmem) option" where
  "iobuf_move data len m2b iob m = do {
     let alen = (if io_resid iob > len then len else io_resid iob);
     (iob, m) \<leftarrow> (if alen > 0 then do {
         let m = (if m2b then memmove (io_base iob) data alen m else memmove data (io_base iob) alen m);
         iob \<leftarrow> iobuf_skip alen iob;
         Some (iob, m) }
       else Some (iob, m));
     Some (if len - alen = 0 then 0 else err E_NO_MEM, alen, iob, m) }"

definition iobuf_move_zeros :: "nat \<Rightarrow> iobuf \<Rightarrow> bmem \<Rightarrow> (int \<times> nat \<times> iobuf \<times> bmem) option" where
  "iobuf_move_zeros len iob m = do {
     let alen = (if io_resid iob > len then len else io_resid iob);
     (iob, m) \<leftarrow> (if alen > 0 then do {
         let m = memset alen (io_base iob) 0 m;
         iob \<leftarrow> iobuf_skip alen iob;
         Some (iob, m) }
       else Some (iob, m));
     Some (if len - alen = 0 then 0 else err E_NO_MEM, alen, iob, m) }"

subsection \<open>Inodes\<close>

definition upd_inode :: "iptr \<Rightarrow> (inode \<Rightarrow> inode) \<Rightarrow> 'a fs_state_scheme \<Rightarrow> 'a fs_state_scheme" where
  "upd_inode n f s = s\<lparr>inodes := (inodes s)(n := f (inodes s n))\<rparr>"

definition inode_check :: "iptr \<Rightarrow> 'a fs_state_scheme \<Rightarrow> bool" where
  "inode_check n s \<longleftrightarrow> ref_count (inodes s n) \<ge> open_count (inodes s n) \<and> open_count (inodes s n) \<ge> 0 \<and>
     ref_count (inodes s n) < MAX_INODE_COUNT \<and> open_count (inodes s n) < MAX_INODE_COUNT"

text \<open>\<^verbatim>\<open>__vop_op\<close>: the function of the table, after its checks.\<close>

definition vop_op :: "'f option \<Rightarrow> iptr \<Rightarrow> 'a fs_state_scheme \<Rightarrow> 'f option" where
  "vop_op f n s = do { g \<leftarrow> f; kassert (inode_check n s); Some g }"

definition inode_ref_inc :: "iptr \<Rightarrow> 'a fs_state_scheme \<Rightarrow> 'a fs_state_scheme" where
  "inode_ref_inc n = upd_inode n (\<lambda>x. x\<lparr>ref_count := ref_count x + 1\<rparr>)"

definition inode_open_inc :: "iptr \<Rightarrow> 'a fs_state_scheme \<Rightarrow> 'a fs_state_scheme" where
  "inode_open_inc n = upd_inode n (\<lambda>x. x\<lparr>open_count := open_count x + 1\<rparr>)"

definition inode_init :: "iptr \<Rightarrow> fsptr option \<Rightarrow> 'a fs_state_scheme \<Rightarrow> 'a fs_state_scheme" where
  "inode_init n f s = inode_ref_inc n (upd_inode n (\<lambda>x. x\<lparr>ref_count := 0, open_count := 0, in_fs := f\<rparr>) s)"

definition inode_kill :: "iptr \<Rightarrow> 'a fs_state_scheme \<Rightarrow> unit option" where
  "inode_kill n s = kassert (ref_count (inodes s n) = 0 \<and> open_count (inodes s n) = 0)"

definition inode_ref_dec :: "'a fs_state_scheme drv \<Rightarrow> iptr \<Rightarrow> 'a fs_state_scheme \<Rightarrow> (int \<times> 'a fs_state_scheme) option" where
  "inode_ref_dec D n s = do {
     kassert (ref_count (inodes s n) > 0);
     let s = upd_inode n (\<lambda>x. x\<lparr>ref_count := ref_count x - 1\<rparr>) s;
     let ref_count = ref_count (inodes s n);
     s \<leftarrow> (if ref_count = 0 then do { g \<leftarrow> vop_op (op_reclaim D n) n s; (_, s) \<leftarrow> g s; Some s } else Some s);
     Some (ref_count, s) }"

definition inode_open_dec :: "'a fs_state_scheme drv \<Rightarrow> iptr \<Rightarrow> 'a fs_state_scheme \<Rightarrow> (int \<times> 'a fs_state_scheme) option" where
  "inode_open_dec D n s = do {
     kassert (open_count (inodes s n) > 0);
     let s = upd_inode n (\<lambda>x. x\<lparr>open_count := open_count x - 1\<rparr>) s;
     let open_count = open_count (inodes s n);
     s \<leftarrow> (if open_count = 0 then do { g \<leftarrow> vop_op (op_close D n) n s; (_, s) \<leftarrow> g s; Some s } else Some s);
     Some (open_count, s) }"

subsection \<open>Named devices\<close>

definition vfs_devlist_init :: "'a fs_state_scheme \<Rightarrow> 'a fs_state_scheme" where
  "vfs_devlist_init s = s\<lparr>vdev_list := []\<rparr>"

definition vfs_get_root :: "'a fs_state_scheme drv \<Rightarrow> string \<Rightarrow> 'a fs_state_scheme \<Rightarrow> ((int + iptr) \<times> 'a fs_state_scheme) option" where
  "vfs_get_root D name s = (case List.find (\<lambda>v. devname v = name) (vdev_list s) of
       None \<Rightarrow> Some (Inl (err E_NO_DEV), s)
     | Some v \<Rightarrow> (case vdev_fs v of
           Some f \<Rightarrow> do { (n, s) \<leftarrow> fs_get_root D f s; Some (Inr n, s) }
         | None \<Rightarrow> if \<not> mountable v
             then do { n \<leftarrow> devnode v; Some (Inr n, inode_ref_inc n s) }
             else Some (Inl (err E_NA_DEV), s)))"

definition vfs_get_devname :: "fsptr \<Rightarrow> 'a fs_state_scheme \<Rightarrow> string option" where
  "vfs_get_devname f s = map_option devname (List.find (\<lambda>v. vdev_fs v = Some f) (vdev_list s))"

definition check_devname_conflict :: "string \<Rightarrow> 'a fs_state_scheme \<Rightarrow> bool" where
  "check_devname_conflict name s \<longleftrightarrow> List.find (\<lambda>v. devname v = name) (vdev_list s) = None"

text \<open>\<open>dup_ok\<close> and \<open>alloc_ok\<close> say whether \<^verbatim>\<open>strdup\<close> and \<^verbatim>\<open>kmalloc\<close> found memory; that \<^verbatim>\<open>devnode\<close> is a device
  is asserted by the code and not part of the state here.\<close>

definition vfs_do_add ::
  "bool \<Rightarrow> bool \<Rightarrow> string \<Rightarrow> iptr option \<Rightarrow> fsptr option \<Rightarrow> bool \<Rightarrow> 'a fs_state_scheme \<Rightarrow> (int \<times> 'a fs_state_scheme) option" where
  "vfs_do_add dup_ok alloc_ok name node f mnt s = do {
     kassert (node = None \<and> \<not> mnt \<or> node \<noteq> None);
     Some (if length name > FS_MAX_DNAME_LEN then (err E_TOO_BIG, s)
       else if \<not> dup_ok \<or> \<not> alloc_ok then (err E_NO_MEM, s)
       else if \<not> check_devname_conflict name s then (err E_EXISTS, s)
       else (0, s\<lparr>vdev_list := \<lparr>devname = name, devnode = node, vdev_fs = f, mountable = mnt\<rparr> # vdev_list s\<rparr>)) }"

definition vfs_add_fs :: "bool \<Rightarrow> bool \<Rightarrow> string \<Rightarrow> fsptr \<Rightarrow> 'a fs_state_scheme \<Rightarrow> (int \<times> 'a fs_state_scheme) option" where
  "vfs_add_fs dup_ok alloc_ok name f = vfs_do_add dup_ok alloc_ok name None (Some f) False"

definition vfs_add_dev :: "bool \<Rightarrow> bool \<Rightarrow> string \<Rightarrow> iptr option \<Rightarrow> bool \<Rightarrow> 'a fs_state_scheme \<Rightarrow> (int \<times> 'a fs_state_scheme) option" where
  "vfs_add_dev dup_ok alloc_ok name node mnt = vfs_do_add dup_ok alloc_ok name node None mnt"

definition find_mount :: "string \<Rightarrow> 'a fs_state_scheme \<Rightarrow> vdev option" where
  "find_mount name s = List.find (\<lambda>v. mountable v \<and> devname v = name) (vdev_list s)"

text \<open>Writing \<^verbatim>\<open>vdev->fs\<close> of the first mountable device with a name.\<close>

fun set_fs :: "string \<Rightarrow> fsptr option \<Rightarrow> vdev list \<Rightarrow> vdev list" where
  "set_fs name f [] = []"
| "set_fs name f (v # vs) = (if mountable v \<and> devname v = name then v\<lparr>vdev_fs := f\<rparr> # vs else v # set_fs name f vs)"

definition vfs_mount ::
  "string \<Rightarrow> (iptr \<Rightarrow> 'a fs_state_scheme \<Rightarrow> (int \<times> fsptr option \<times> 'a fs_state_scheme) option) \<Rightarrow> 'a fs_state_scheme \<Rightarrow>
   (int \<times> 'a fs_state_scheme) option" where
  "vfs_mount name mountfunc s = (case find_mount name s of
       None \<Rightarrow> Some (err E_NO_DEV, s)
     | Some v \<Rightarrow> if vdev_fs v \<noteq> None then Some (err E_BUSY, s)
         else do {
           dev \<leftarrow> devnode v;
           (ret, f, s) \<leftarrow> mountfunc dev s;
           if ret = 0 then do { kassert (f \<noteq> None); Some (0, s\<lparr>vdev_list := set_fs name f (vdev_list s)\<rparr>) }
           else Some (ret, s) })"

definition vfs_unmount :: "'a fs_state_scheme drv \<Rightarrow> string \<Rightarrow> 'a fs_state_scheme \<Rightarrow> (int \<times> 'a fs_state_scheme) option" where
  "vfs_unmount D name s = (case find_mount name s of
       None \<Rightarrow> Some (err E_NO_DEV, s)
     | Some v \<Rightarrow> (case vdev_fs v of None \<Rightarrow> Some (err E_INVAL, s)
         | Some f \<Rightarrow> do {
             (ret, s) \<leftarrow> fs_sync D f s;
             if ret \<noteq> 0 then Some (ret, s)
             else do {
               (ret, s) \<leftarrow> fs_unmount D f s;
               Some (ret, if ret = 0 then s\<lparr>vdev_list := set_fs name None (vdev_list s)\<rparr> else s) } }))"


text \<open>The two loops over the list; a file system that cannot be unmounted keeps its entry.\<close>

fun unmount_loop :: "'a fs_state_scheme drv \<Rightarrow> vdev list \<Rightarrow> 'a fs_state_scheme \<Rightarrow> (vdev list \<times> 'a fs_state_scheme) option" where
  "unmount_loop D [] s = Some ([], s)"
| "unmount_loop D (v # vs) s = do {
     (v, s) \<leftarrow> (case (mountable v, vdev_fs v) of
         (True, Some f) \<Rightarrow> do {
           (ret, s) \<leftarrow> fs_sync D f s;
           if ret \<noteq> 0 then Some (v, s)
           else do { (ret, s) \<leftarrow> fs_unmount D f s; Some (if ret \<noteq> 0 then v else v\<lparr>vdev_fs := None\<rparr>, s) } }
       | _ \<Rightarrow> Some (v, s));
     (vs, s) \<leftarrow> unmount_loop D vs s;
     Some (v # vs, s) }"

definition vfs_unmount_all :: "'a fs_state_scheme drv \<Rightarrow> 'a fs_state_scheme \<Rightarrow> (int \<times> 'a fs_state_scheme) option" where
  "vfs_unmount_all D s = do { (vs, s) \<leftarrow> unmount_loop D (vdev_list s) s; Some (0, s\<lparr>vdev_list := vs\<rparr>) }"

fun cleanup_loop :: "'a fs_state_scheme drv \<Rightarrow> vdev list \<Rightarrow> 'a fs_state_scheme \<Rightarrow> 'a fs_state_scheme option" where
  "cleanup_loop D [] s = Some s"
| "cleanup_loop D (v # vs) s = do {
     s \<leftarrow> (case vdev_fs v of None \<Rightarrow> Some s | Some f \<Rightarrow> fs_cleanup D f s);
     cleanup_loop D vs s }"

definition vfs_cleanup :: "'a fs_state_scheme drv \<Rightarrow> 'a fs_state_scheme \<Rightarrow> 'a fs_state_scheme option" where
  "vfs_cleanup D s = cleanup_loop D (vdev_list s) s"

subsection \<open>The boot file system and the working directory\<close>

text \<open>The argument \<open>t\<close> is \<^verbatim>\<open>current->filesp\<close>.\<close>

definition vfs_get_bootfs :: "'a fs_state_scheme \<Rightarrow> (int + iptr) \<times> 'a fs_state_scheme" where
  "vfs_get_bootfs s = (case bootfs_node s of None \<Rightarrow> (Inl (err E_NOENT), s) | Some n \<Rightarrow> (Inr n, inode_ref_inc n s))"

definition change_bootfs :: "'a fs_state_scheme drv \<Rightarrow> iptr option \<Rightarrow> 'a fs_state_scheme \<Rightarrow> 'a fs_state_scheme option" where
  "change_bootfs D node s =
     (let old = bootfs_node s; s = s\<lparr>bootfs_node := node\<rparr> in
      case old of None \<Rightarrow> Some s | Some n \<Rightarrow> do { (_, s) \<leftarrow> inode_ref_dec D n s; Some s })"

definition set_cwd :: "nat \<Rightarrow> iptr option \<Rightarrow> 'a fs_state_scheme \<Rightarrow> 'a fs_state_scheme" where
  "set_cwd t d s = s\<lparr>tables := (tables s)(t := (tables s t)\<lparr>pwd := d\<rparr>)\<rparr>"

definition vfs_get_curdir :: "nat \<Rightarrow> 'a fs_state_scheme \<Rightarrow> (int + iptr) \<times> 'a fs_state_scheme" where
  "vfs_get_curdir t s = (case pwd (tables s t) of Some n \<Rightarrow> (Inr n, inode_ref_inc n s) | None \<Rightarrow> (Inl (err E_NOENT), s))"

definition vfs_set_curdir :: "'a fs_state_scheme drv \<Rightarrow> nat \<Rightarrow> iptr option \<Rightarrow> 'a fs_state_scheme \<Rightarrow> (int \<times> 'a fs_state_scheme) option" where
  "vfs_set_curdir D t dir s =
     (let old_dir = pwd (tables s t) in
      if old_dir = dir then Some (0, s)
      else do {
        (ret, s) \<leftarrow> (case dir of None \<Rightarrow> Some (0, s)
          | Some d \<Rightarrow> do {
              g \<leftarrow> vop_op (op_gettype D d) d s;
              (ret, type, s) \<leftarrow> g s;
              Some (if ret \<noteq> 0 then (ret, s)
                else if \<not> S_ISDIR type then (err E_NOTDIR, s)
                else (0, inode_ref_inc d s)) });
        if ret \<noteq> 0 then Some (ret, s)
        else do {
          let s = set_cwd t dir s;
          s \<leftarrow> (case old_dir of None \<Rightarrow> Some s | Some n \<Rightarrow> do { (_, s) \<leftarrow> inode_ref_dec D n s; Some s });
          Some (0, s) } })"

subsection \<open>Path names\<close>

text \<open>\<^verbatim>\<open>get_device\<close> writes a NUL over the colon of a path \<^verbatim>\<open>dev:rest\<close>; the operations on paths return what is
  left of the caller's string, which is the string itself in all other cases.\<close>

definition is_sep :: "char \<Rightarrow> bool" where "is_sep c \<longleftrightarrow> c = CHR '':'' \<or> c = CHR ''/''"

definition get_device ::
  "'a fs_state_scheme drv \<Rightarrow> nat \<Rightarrow> string \<Rightarrow> 'a fs_state_scheme \<Rightarrow> ((int + (iptr \<times> string)) \<times> string \<times> 'a fs_state_scheme) option" where
  "get_device D t path s =
     (let pre = takeWhile (\<lambda>c. \<not> is_sep c) path; post = dropWhile (\<lambda>c. \<not> is_sep c) path in
      case post of
        [] \<Rightarrow> (case vfs_get_curdir t s of (r, s) \<Rightarrow> Some (map_sum id (\<lambda>n. (n, path)) r, path, s))
      | c # rest \<Rightarrow>
          if c = CHR ''/'' \<and> pre \<noteq> []
          then (case vfs_get_curdir t s of (r, s) \<Rightarrow> Some (map_sum id (\<lambda>n. (n, path)) r, path, s))
          else let subpath = dropWhile (\<lambda>c. c = CHR ''/'') rest in
          if pre \<noteq> [] then do {
            (r, s) \<leftarrow> vfs_get_root D pre s;
            Some (map_sum id (\<lambda>n. (n, subpath)) r, pre, s) }
          else if c = CHR ''/''
          then (case vfs_get_bootfs s of (r, s) \<Rightarrow> Some (map_sum id (\<lambda>n. (n, subpath)) r, path, s))
          else (case vfs_get_curdir t s of
              (Inl e, s) \<Rightarrow> Some (Inl e, path, s)
            | (Inr n, s) \<Rightarrow> do {
                f \<leftarrow> in_fs (inodes s n);
                (root, s) \<leftarrow> fs_get_root D f s;
                (_, s) \<leftarrow> inode_ref_dec D n s;
                Some (Inr (root, subpath), path, s) }))"

definition vfs_lookup ::
  "'a fs_state_scheme drv \<Rightarrow> nat \<Rightarrow> string \<Rightarrow> 'a fs_state_scheme \<Rightarrow> ((int + iptr) \<times> string \<times> 'a fs_state_scheme) option" where
  "vfs_lookup D t path s = do {
     (r, path, s) \<leftarrow> get_device D t path s;
     case r of Inl e \<Rightarrow> Some (Inl e, path, s)
     | Inr (node, sub) \<Rightarrow>
         if sub \<noteq> [] then do {
           g \<leftarrow> vop_op (op_lookup D node) node s;
           (ret, n, s) \<leftarrow> g sub s;
           (_, s) \<leftarrow> inode_ref_dec D node s;
           Some (if ret = 0 then Inr n else Inl ret, path, s) }
         else Some (Inr node, path, s) }"

definition vfs_lookup_parent ::
  "'a fs_state_scheme drv \<Rightarrow> nat \<Rightarrow> string \<Rightarrow> 'a fs_state_scheme \<Rightarrow> ((int + (iptr \<times> string)) \<times> 'a fs_state_scheme) option" where
  "vfs_lookup_parent D t path s = do { (r, _, s) \<leftarrow> get_device D t path s; Some (r, s) }"

definition vfs_chdir :: "'a fs_state_scheme drv \<Rightarrow> nat \<Rightarrow> string \<Rightarrow> 'a fs_state_scheme \<Rightarrow> (int \<times> 'a fs_state_scheme) option" where
  "vfs_chdir D t path s = do {
     (r, _, s) \<leftarrow> vfs_lookup D t path s;
     case r of Inl e \<Rightarrow> Some (e, s)
     | Inr n \<Rightarrow> do { (ret, s) \<leftarrow> vfs_set_curdir D t (Some n) s; (_, s) \<leftarrow> inode_ref_dec D n s; Some (ret, s) } }"

definition vfs_set_bootfs :: "'a fs_state_scheme drv \<Rightarrow> nat \<Rightarrow> string option \<Rightarrow> 'a fs_state_scheme \<Rightarrow> (int \<times> 'a fs_state_scheme) option" where
  "vfs_set_bootfs D t name s = (case name of
       None \<Rightarrow> do { s \<leftarrow> change_bootfs D None s; Some (0, s) }
     | Some fsname \<Rightarrow>
         if dropWhile (\<lambda>c. c \<noteq> CHR '':'') fsname \<noteq> '':'' then Some (err E_INVAL, s)
         else do {
           (ret, s) \<leftarrow> vfs_chdir D t fsname s;
           if ret \<noteq> 0 then Some (ret, s)
           else (case vfs_get_curdir t s of
               (Inl e, s) \<Rightarrow> Some (e, s)
             | (Inr n, s) \<Rightarrow> do { s \<leftarrow> change_bootfs D (Some n) s; Some (0, s) }) })"

subsection \<open>Opening and closing\<close>

text \<open>When \<^verbatim>\<open>vop_create\<close> fails, \<^verbatim>\<open>vfs_open\<close> goes on with the variable \<^verbatim>\<open>node\<close> that was never set; this is
  undefined behaviour and \<open>None\<close> here.\<close>

definition vfs_open ::
  "'a fs_state_scheme drv \<Rightarrow> nat \<Rightarrow> string \<Rightarrow> 32 word \<Rightarrow> 'a fs_state_scheme \<Rightarrow> ((int + iptr) \<times> 'a fs_state_scheme) option" where
  "vfs_open D t path flags s =
     (let acc = flags AND O_ACCMODE; can_write = (acc = O_WRONLY \<or> acc = O_RDWR);
          excl = (flags AND O_EXCL \<noteq> 0); create = (flags AND O_CREAT \<noteq> 0) in
      if acc \<noteq> O_RDONLY \<and> \<not> can_write then Some (Inl (err E_INVAL), s)
      else if flags AND O_TRUNC \<noteq> 0 \<and> \<not> can_write then Some (Inl (err E_INVAL), s)
      else do {
        (r, path, s) \<leftarrow> vfs_lookup D t path s;
        (r, s) \<leftarrow> (case r of
            Inl ret \<Rightarrow> if ret = -16 \<and> create then do {
                (p, s) \<leftarrow> vfs_lookup_parent D t path s;
                case p of Inl e \<Rightarrow> Some (Inl e, s)
                | Inr (dir, name) \<Rightarrow> do {
                    g \<leftarrow> vop_op (op_create D dir) dir s;
                    (ret, node, s) \<leftarrow> g name excl s;
                    if ret \<noteq> 0 then None else Some (Inr node, s) } }
              else Some (Inl ret, s)
          | Inr node \<Rightarrow> Some (if excl \<and> create then Inl (err E_EXISTS) else Inr node, s));
        case r of Inl e \<Rightarrow> Some (Inl e, s)
        | Inr node \<Rightarrow> do {
            g \<leftarrow> vop_op (op_open D node) node s;
            (ret, s) \<leftarrow> g flags s;
            if ret \<noteq> 0 then do { (_, s) \<leftarrow> inode_ref_dec D node s; Some (Inl ret, s) }
            else do {
              let s = inode_open_inc node s;
              (ret, s) \<leftarrow> (if flags AND O_TRUNC \<noteq> 0 \<or> create
                 then do { g \<leftarrow> vop_op (op_truncate D node) node s; g 0 s } else Some (0, s));
              if ret \<noteq> 0 then do {
                (_, s) \<leftarrow> inode_open_dec D node s;
                (_, s) \<leftarrow> inode_ref_dec D node s;
                Some (Inl ret, s) }
              else Some (Inr node, s) } } })"

definition vfs_close :: "'a fs_state_scheme drv \<Rightarrow> iptr \<Rightarrow> 'a fs_state_scheme \<Rightarrow> 'a fs_state_scheme option" where
  "vfs_close D n s = do { (_, s) \<leftarrow> inode_open_dec D n s; (_, s) \<leftarrow> inode_ref_dec D n s; Some s }"

end
