(* ===== verification/File_Table.thy ===== *)
theory File_Table
  imports Vfs
begin

text \<open>
  Tables of open files: \<^verbatim>\<open>src/kern/fs/file.c\<close> and \<^verbatim>\<open>src/kern/fs/fs.c\<close>. The argument \<open>t\<close> is the table of the
  process (\<^verbatim>\<open>current->filesp\<close>), a pointer to an entry of its array is an index. \<^verbatim>\<open>off_t\<close> is \<open>int\<close>: positions
  do not reach \<open>2 ^ 63\<close>.
\<close>

definition FILES_STRUCT_NENTRY :: nat where
  "FILES_STRUCT_NENTRY = (4096 - 48) div 56"

definition NO_FD :: int where "NO_FD = -0x9527"

definition testfd :: "int \<Rightarrow> bool" where
  "testfd i \<longleftrightarrow> 0 \<le> i \<and> i < int FILES_STRUCT_NENTRY"

abbreviation entry :: "nat \<Rightarrow> nat \<Rightarrow> 'a fs_state_scheme \<Rightarrow> fd_entry" where
  "entry t i s \<equiv> fd_array (tables s t) ! i"

definition upd_file :: "nat \<Rightarrow> nat \<Rightarrow> (fd_entry \<Rightarrow> fd_entry) \<Rightarrow> 'a fs_state_scheme \<Rightarrow> 'a fs_state_scheme" where
  "upd_file t i f s = s\<lparr>tables := (tables s)(t := (tables s t)\<lparr>fd_array := (fd_array (tables s t))[i := f (entry t i s)]\<rparr>)\<rparr>"

subsection \<open>Entries\<close>

text \<open>\<^verbatim>\<open>get_fd_array\<close> checks that the table is in use.\<close>

definition get_fd_array :: "nat \<Rightarrow> 'a fs_state_scheme \<Rightarrow> fd_entry list option" where
  "get_fd_array t s = do { kassert (files_count (tables s t) > 0); Some (fd_array (tables s t)) }"

text \<open>The members \<^verbatim>\<open>fd_array_init\<close> does not set keep what the block \<open>arr\<close> held.\<close>

definition fd_array_init :: "fd_entry list \<Rightarrow> fd_entry list" where
  "fd_array_init arr = map (\<lambda>i. (arr ! i)\<lparr>fopen_count := 0, fstatus := FD_NONE, fd := int i\<rparr>) [0 ..< FILES_STRUCT_NENTRY]"

definition fd_found :: "nat \<Rightarrow> nat \<Rightarrow> 'a fs_state_scheme \<Rightarrow> ((int + nat) \<times> 'a fs_state_scheme) option" where
  "fd_found t i s = do {
     kassert (fopen_count (entry t i s) = 0);
     Some (Inr i, upd_file t i (\<lambda>x. x\<lparr>fstatus := FD_INIT, fnode := None\<rparr>) s) }"

definition fd_array_alloc :: "nat \<Rightarrow> int \<Rightarrow> 'a fs_state_scheme \<Rightarrow> ((int + nat) \<times> 'a fs_state_scheme) option" where
  "fd_array_alloc t i s = do {
     arr \<leftarrow> get_fd_array t s;
     if i = NO_FD then
       (case List.find (\<lambda>k. fstatus (arr ! k) = FD_NONE) [0 ..< FILES_STRUCT_NENTRY] of
          Some k \<Rightarrow> fd_found t k s | None \<Rightarrow> Some (Inl (err E_MAX_OPEN), s))
     else if testfd i then
       if fstatus (arr ! nat i) = FD_NONE then fd_found t (nat i) s else Some (Inl (err E_BUSY), s)
     else Some (Inl (err E_INVAL), s) }"

definition fd_array_free :: "'a fs_state_scheme drv \<Rightarrow> nat \<Rightarrow> nat \<Rightarrow> 'a fs_state_scheme \<Rightarrow> 'a fs_state_scheme option" where
  "fd_array_free D t i s = do {
     kassert (fstatus (entry t i s) = FD_INIT \<or> fstatus (entry t i s) = FD_CLOSED);
     kassert (fopen_count (entry t i s) = 0);
     s \<leftarrow> (if fstatus (entry t i s) = FD_CLOSED then do { n \<leftarrow> fnode (entry t i s); vfs_close D n s } else Some s);
     Some (upd_file t i (\<lambda>x. x\<lparr>fstatus := FD_NONE\<rparr>) s) }"

definition fd_array_acquire :: "nat \<Rightarrow> nat \<Rightarrow> 'a fs_state_scheme \<Rightarrow> 'a fs_state_scheme option" where
  "fd_array_acquire t i s = do {
     kassert (fstatus (entry t i s) = FD_OPENED);
     Some (upd_file t i (\<lambda>x. x\<lparr>fopen_count := fopen_count x + 1\<rparr>) s) }"

definition fd_array_release :: "'a fs_state_scheme drv \<Rightarrow> nat \<Rightarrow> nat \<Rightarrow> 'a fs_state_scheme \<Rightarrow> 'a fs_state_scheme option" where
  "fd_array_release D t i s = do {
     kassert (fstatus (entry t i s) = FD_OPENED \<or> fstatus (entry t i s) = FD_CLOSED);
     kassert (fopen_count (entry t i s) > 0);
     let s = upd_file t i (\<lambda>x. x\<lparr>fopen_count := fopen_count x - 1\<rparr>) s;
     if fopen_count (entry t i s) = 0 then fd_array_free D t i s else Some s }"

definition fd_array_open :: "nat \<Rightarrow> nat \<Rightarrow> 'a fs_state_scheme \<Rightarrow> 'a fs_state_scheme option" where
  "fd_array_open t i s = do {
     kassert (fstatus (entry t i s) = FD_INIT \<and> fnode (entry t i s) \<noteq> None);
     Some (upd_file t i (\<lambda>x. x\<lparr>fstatus := FD_OPENED, fopen_count := fopen_count x + 1\<rparr>) s) }"

definition fd_array_close :: "'a fs_state_scheme drv \<Rightarrow> nat \<Rightarrow> nat \<Rightarrow> 'a fs_state_scheme \<Rightarrow> 'a fs_state_scheme option" where
  "fd_array_close D t i s = do {
     kassert (fstatus (entry t i s) = FD_OPENED);
     kassert (fopen_count (entry t i s) > 0);
     let s = upd_file t i (\<lambda>x. x\<lparr>fstatus := FD_CLOSED, fopen_count := fopen_count x - 1\<rparr>) s;
     if fopen_count (entry t i s) = 0 then fd_array_free D t i s else Some s }"

text \<open>The entries may be in different tables: \<^verbatim>\<open>dup_files\<close> copies from the parent's.\<close>

definition fd_array_dup :: "nat \<Rightarrow> nat \<Rightarrow> nat \<Rightarrow> nat \<Rightarrow> 'a fs_state_scheme \<Rightarrow> 'a fs_state_scheme option" where
  "fd_array_dup t i u j s = do {
     kassert (fstatus (entry t i s) = FD_INIT \<and> fstatus (entry u j s) = FD_OPENED);
     let from = entry u j s;
     let s = upd_file t i (\<lambda>x. x\<lparr>fpos := fpos from, readable := readable from, writable := writable from\<rparr>) s;
     n \<leftarrow> fnode from;
     let s = inode_open_inc n (inode_ref_inc n s);
     let s = upd_file t i (\<lambda>x. x\<lparr>fnode := Some n\<rparr>) s;
     fd_array_open t i s }"

definition fd2file :: "nat \<Rightarrow> int \<Rightarrow> 'a fs_state_scheme \<Rightarrow> (int + nat) option" where
  "fd2file t i s =
     (if testfd i then do {
        arr \<leftarrow> get_fd_array t s;
        Some (if fstatus (arr ! nat i) = FD_OPENED \<and> fd (arr ! nat i) = i then Inr (nat i) else Inl (err E_INVAL)) }
      else Some (Inl (err E_INVAL)))"

definition file_testfd :: "nat \<Rightarrow> int \<Rightarrow> bool \<Rightarrow> bool \<Rightarrow> 'a fs_state_scheme \<Rightarrow> bool option" where
  "file_testfd t i rd wr s = do {
     r \<leftarrow> fd2file t i s;
     Some (case r of Inl _ \<Rightarrow> False
       | Inr k \<Rightarrow> (rd \<longrightarrow> readable (entry t k s)) \<and> (wr \<longrightarrow> writable (entry t k s))) }"

subsection \<open>Operations on descriptors\<close>

definition file_open :: "'a fs_state_scheme drv \<Rightarrow> nat \<Rightarrow> string \<Rightarrow> 32 word \<Rightarrow> 'a fs_state_scheme \<Rightarrow> (int \<times> 'a fs_state_scheme) option" where
  "file_open D t path flags s =
     (let acc = flags AND O_ACCMODE; rd = (acc = O_RDONLY \<or> acc = O_RDWR); wr = (acc = O_WRONLY \<or> acc = O_RDWR) in
      if \<not> rd \<and> \<not> wr then Some (err E_INVAL, s)
      else do {
        (r, s) \<leftarrow> fd_array_alloc t NO_FD s;
        case r of Inl e \<Rightarrow> Some (e, s)
        | Inr i \<Rightarrow> do {
            (r, s) \<leftarrow> vfs_open D t path flags s;
            case r of Inl e \<Rightarrow> do { s \<leftarrow> fd_array_free D t i s; Some (e, s) }
            | Inr node \<Rightarrow> do {
                let s = upd_file t i (\<lambda>x. x\<lparr>fpos := 0\<rparr>) s;
                (ret, s) \<leftarrow> (if flags AND O_APPEND \<noteq> 0 then do {
                    g \<leftarrow> vop_op (op_fstat D node) node s;
                    (ret, st, s) \<leftarrow> g s;
                    if ret \<noteq> 0 then do {
                      s \<leftarrow> vfs_close D node s;
                      s \<leftarrow> fd_array_free D t i s;
                      Some (ret, s) }
                    else Some (0, upd_file t i (\<lambda>x. x\<lparr>fpos := int (st_size st)\<rparr>) s) }
                  else Some (0, s));
                if ret \<noteq> 0 then Some (ret, s)
                else do {
                  let s = upd_file t i (\<lambda>x. x\<lparr>fnode := Some node, readable := rd, writable := wr\<rparr>) s;
                  s \<leftarrow> fd_array_open t i s;
                  Some (fd (entry t i s), s) } } } })"

definition file_close :: "'a fs_state_scheme drv \<Rightarrow> nat \<Rightarrow> int \<Rightarrow> 'a fs_state_scheme \<Rightarrow> (int \<times> 'a fs_state_scheme) option" where
  "file_close D t i s = do {
     r \<leftarrow> fd2file t i s;
     case r of Inl e \<Rightarrow> Some (e, s) | Inr k \<Rightarrow> do { s \<leftarrow> fd_array_close D t k s; Some (0, s) } }"

text \<open>Reading and writing share everything but the permission and the operation; the result has the number of
  bytes copied.\<close>

definition file_io ::
  "(fd_entry \<Rightarrow> bool) \<Rightarrow> (iptr \<Rightarrow> (iobuf \<Rightarrow> 'a fs_state_scheme \<Rightarrow> (int \<times> iobuf \<times> 'a fs_state_scheme) option) option) \<Rightarrow>
   'a fs_state_scheme drv \<Rightarrow> nat \<Rightarrow> int \<Rightarrow> nat \<Rightarrow> nat \<Rightarrow> 'a fs_state_scheme \<Rightarrow> (int \<times> nat \<times> 'a fs_state_scheme) option" where
  "file_io may opr D t i base len s = do {
     r \<leftarrow> fd2file t i s;
     case r of Inl e \<Rightarrow> Some (e, 0, s)
     | Inr k \<Rightarrow>
         if \<not> may (entry t k s) then Some (err E_INVAL, 0, s)
         else do {
           s \<leftarrow> fd_array_acquire t k s;
           n \<leftarrow> fnode (entry t k s);
           g \<leftarrow> vop_op (opr n) n s;
           (ret, iob, s) \<leftarrow> g (iobuf_init base len (fpos (entry t k s))) s;
           let copied = iobuf_used iob;
           let s = (if fstatus (entry t k s) = FD_OPENED then upd_file t k (\<lambda>x. x\<lparr>fpos := fpos x + int copied\<rparr>) s else s);
           s \<leftarrow> fd_array_release D t k s;
           Some (ret, copied, s) } }"

definition file_read :: "'a fs_state_scheme drv \<Rightarrow> nat \<Rightarrow> int \<Rightarrow> nat \<Rightarrow> nat \<Rightarrow> 'a fs_state_scheme \<Rightarrow> (int \<times> nat \<times> 'a fs_state_scheme) option" where
  "file_read D = file_io readable (op_read D) D"

definition file_write :: "'a fs_state_scheme drv \<Rightarrow> nat \<Rightarrow> int \<Rightarrow> nat \<Rightarrow> nat \<Rightarrow> 'a fs_state_scheme \<Rightarrow> (int \<times> nat \<times> 'a fs_state_scheme) option" where
  "file_write D = file_io writable (op_write D) D"

definition LSEEK_SET :: int where "LSEEK_SET = 0"
definition LSEEK_CUR :: int where "LSEEK_CUR = 1"
definition LSEEK_END :: int where "LSEEK_END = 2"

definition file_seek :: "'a fs_state_scheme drv \<Rightarrow> nat \<Rightarrow> int \<Rightarrow> int \<Rightarrow> int \<Rightarrow> 'a fs_state_scheme \<Rightarrow> (int \<times> 'a fs_state_scheme) option" where
  "file_seek D t i pos whence s = do {
     r \<leftarrow> fd2file t i s;
     case r of Inl e \<Rightarrow> Some (e, s)
     | Inr k \<Rightarrow> do {
         s \<leftarrow> fd_array_acquire t k s;
         (ret, pos, s) \<leftarrow>
           (if whence = LSEEK_SET then Some (0, pos, s)
            else if whence = LSEEK_CUR then Some (0, pos + fpos (entry t k s), s)
            else if whence = LSEEK_END then do {
              n \<leftarrow> fnode (entry t k s);
              g \<leftarrow> vop_op (op_fstat D n) n s;
              (ret, st, s) \<leftarrow> g s;
              Some (ret, if ret = 0 then pos + int (st_size st) else pos, s) }
            else Some (err E_INVAL, pos, s));
         (ret, s) \<leftarrow>
           (if ret = 0 then do {
              n \<leftarrow> fnode (entry t k s);
              g \<leftarrow> vop_op (op_tryseek D n) n s;
              (ret, s) \<leftarrow> g pos s;
              Some (ret, if ret = 0 then upd_file t k (\<lambda>x. x\<lparr>fpos := pos\<rparr>) s else s) }
            else Some (ret, s));
         s \<leftarrow> fd_array_release D t k s;
         Some (ret, s) } }"

definition file_fstat :: "'a fs_state_scheme drv \<Rightarrow> nat \<Rightarrow> int \<Rightarrow> 'a fs_state_scheme \<Rightarrow> (int \<times> stat option \<times> 'a fs_state_scheme) option" where
  "file_fstat D t i s = do {
     r \<leftarrow> fd2file t i s;
     case r of Inl e \<Rightarrow> Some (e, None, s)
     | Inr k \<Rightarrow> do {
         s \<leftarrow> fd_array_acquire t k s;
         n \<leftarrow> fnode (entry t k s);
         g \<leftarrow> vop_op (op_fstat D n) n s;
         (ret, st, s) \<leftarrow> g s;
         s \<leftarrow> fd_array_release D t k s;
         Some (ret, Some st, s) } }"

definition file_fsync :: "'a fs_state_scheme drv \<Rightarrow> nat \<Rightarrow> int \<Rightarrow> 'a fs_state_scheme \<Rightarrow> (int \<times> 'a fs_state_scheme) option" where
  "file_fsync D t i s = do {
     r \<leftarrow> fd2file t i s;
     case r of Inl e \<Rightarrow> Some (e, s)
     | Inr k \<Rightarrow> do {
         s \<leftarrow> fd_array_acquire t k s;
         n \<leftarrow> fnode (entry t k s);
         g \<leftarrow> vop_op (op_fsync D n) n s;
         (ret, s) \<leftarrow> g s;
         s \<leftarrow> fd_array_release D t k s;
         Some (ret, s) } }"

text \<open>\<open>name\<close> and \<open>offset\<close> are the members of the caller's \<^verbatim>\<open>struct dirent\<close>; the new offset is returned.\<close>

definition file_getdirentry ::
  "'a fs_state_scheme drv \<Rightarrow> nat \<Rightarrow> int \<Rightarrow> nat \<Rightarrow> int \<Rightarrow> 'a fs_state_scheme \<Rightarrow> (int \<times> int \<times> 'a fs_state_scheme) option" where
  "file_getdirentry D t i name offset s = do {
     r \<leftarrow> fd2file t i s;
     case r of Inl e \<Rightarrow> Some (e, offset, s)
     | Inr k \<Rightarrow> do {
         s \<leftarrow> fd_array_acquire t k s;
         n \<leftarrow> fnode (entry t k s);
         g \<leftarrow> vop_op (op_getdirentry D n) n s;
         (ret, iob, s) \<leftarrow> g (iobuf_init name 256 offset) s;
         s \<leftarrow> fd_array_release D t k s;
         Some (ret, if ret = 0 then offset + int (iobuf_used iob) else offset, s) } }"

definition file_dup :: "nat \<Rightarrow> int \<Rightarrow> int \<Rightarrow> 'a fs_state_scheme \<Rightarrow> (int \<times> 'a fs_state_scheme) option" where
  "file_dup t fd1 fd2 s = do {
     r \<leftarrow> fd2file t fd1 s;
     case r of Inl e \<Rightarrow> Some (e, s)
     | Inr j \<Rightarrow> do {
         (r, s) \<leftarrow> fd_array_alloc t fd2 s;
         case r of Inl e \<Rightarrow> Some (e, s)
         | Inr i \<Rightarrow> do { s \<leftarrow> fd_array_dup t i t j s; Some (fd (entry t i s), s) } } }"

subsection \<open>Tables\<close>

definition files_create :: "nat option \<Rightarrow> 'a fs_state_scheme \<Rightarrow> nat option \<times> 'a fs_state_scheme" where
  "files_create blk s = (case blk of None \<Rightarrow> (None, s)
     | Some t \<Rightarrow> (Some t, s\<lparr>tables := (tables s)(t := \<lparr>pwd = None, fd_array = fd_array_init (fd_array (tables s t)), files_count = 0\<rparr>)\<rparr>))"

fun destroy_loop :: "'a fs_state_scheme drv \<Rightarrow> nat \<Rightarrow> nat list \<Rightarrow> 'a fs_state_scheme \<Rightarrow> 'a fs_state_scheme option" where
  "destroy_loop D t [] s = Some s"
| "destroy_loop D t (i # is) s = do {
     s \<leftarrow> (if fstatus (entry t i s) = FD_OPENED then fd_array_close D t i s else Some s);
     kassert (fstatus (entry t i s) = FD_NONE);
     destroy_loop D t is s }"

definition files_destroy :: "'a fs_state_scheme drv \<Rightarrow> nat \<Rightarrow> 'a fs_state_scheme \<Rightarrow> 'a fs_state_scheme option" where
  "files_destroy D t s = do {
     kassert (files_count (tables s t) = 0);
     s \<leftarrow> (case pwd (tables s t) of None \<Rightarrow> Some s | Some n \<Rightarrow> do { (_, s) \<leftarrow> inode_ref_dec D n s; Some s });
     destroy_loop D t [0 ..< FILES_STRUCT_NENTRY] s }"

fun closeall_loop :: "'a fs_state_scheme drv \<Rightarrow> nat \<Rightarrow> nat list \<Rightarrow> 'a fs_state_scheme \<Rightarrow> 'a fs_state_scheme option" where
  "closeall_loop D t [] s = Some s"
| "closeall_loop D t (i # is) s = do {
     s \<leftarrow> (if fstatus (entry t i s) = FD_OPENED then fd_array_close D t i s else Some s);
     closeall_loop D t is s }"

definition files_closeall :: "'a fs_state_scheme drv \<Rightarrow> nat \<Rightarrow> 'a fs_state_scheme \<Rightarrow> 'a fs_state_scheme option" where
  "files_closeall D t s = do {
     kassert (files_count (tables s t) > 0);
     closeall_loop D t [2 ..< FILES_STRUCT_NENTRY] s }"

fun dup_loop :: "nat \<Rightarrow> nat \<Rightarrow> nat list \<Rightarrow> 'a fs_state_scheme \<Rightarrow> 'a fs_state_scheme option" where
  "dup_loop t u [] s = Some s"
| "dup_loop t u (i # is) s = do {
     s \<leftarrow> (if fstatus (entry u i s) = FD_OPENED then do {
         let s = upd_file t i (\<lambda>x. x\<lparr>fstatus := FD_INIT\<rparr>) s;
         fd_array_dup t i u i s }
       else Some s);
     dup_loop t u is s }"

definition dup_files :: "nat \<Rightarrow> nat \<Rightarrow> 'a fs_state_scheme \<Rightarrow> (int \<times> 'a fs_state_scheme) option" where
  "dup_files t u s = do {
     kassert (files_count (tables s t) = 0 \<and> files_count (tables s u) > 0);
     let s = set_cwd t (pwd (tables s u)) s;
     let s = (case pwd (tables s u) of None \<Rightarrow> s | Some n \<Rightarrow> inode_ref_inc n s);
     s \<leftarrow> dup_loop t u [0 ..< FILES_STRUCT_NENTRY] s;
     Some (0, s) }"

subsection \<open>The contract of a driver\<close>

text \<open>Drivers leave the counts of inodes and the tables of open files to the code above them.\<close>

definition keeps :: "'a fs_state_scheme \<Rightarrow> 'a fs_state_scheme \<Rightarrow> bool" where
  "keeps s s' \<longleftrightarrow> inodes s' = inodes s \<and> tables s' = tables s"

locale inode_driver =
  fixes D :: "'a fs_state_scheme drv" and node :: "iptr \<Rightarrow> bool"
  assumes close_keeps: "node n \<Longrightarrow> inode_check n s \<Longrightarrow> \<exists>g r s'. op_close D n = Some g \<and> g s = Some (r, s') \<and> keeps s s'"
    and reclaim_keeps: "node n \<Longrightarrow> inode_check n s \<Longrightarrow> ref_count (inodes s n) = 0 \<Longrightarrow> op_reclaim D n = Some g \<Longrightarrow>
      \<exists>r s'. g s = Some (r, s') \<and> keeps s s'"

lemma upd_inode_simps [simp]:
  "inodes (upd_inode n f s) m = (if m = n then f (inodes s n) else inodes s m)" "tables (upd_inode n f s) = tables s"
  "inodes (inode_ref_inc n s) m = (if m = n then (inodes s n)\<lparr>ref_count := ref_count (inodes s n) + 1\<rparr> else inodes s m)"
  "tables (inode_ref_inc n s) = tables s"
  "inodes (inode_open_inc n s) m = (if m = n then (inodes s n)\<lparr>open_count := open_count (inodes s n) + 1\<rparr> else inodes s m)"
  "tables (inode_open_inc n s) = tables s"
  by (simp_all add: upd_inode_def inode_ref_inc_def inode_open_inc_def)

lemma upd_file_simps [simp]:
  "inodes (upd_file t i f s) = inodes s"
  "tables (upd_file t i f s) u = (if u = t then (tables s t)\<lparr>fd_array := (fd_array (tables s t))[i := f (entry t i s)]\<rparr> else tables s u)"
  by (simp_all add: upd_file_def)

lemma set_cwd_simps [simp]:
  "inodes (set_cwd t d s) = inodes s" "tables (set_cwd t d s) u = (if u = t then (tables s t)\<lparr>pwd := d\<rparr> else tables s u)"
  by (simp_all add: set_cwd_def)

text \<open>A driver can drop a reference to \<open>n\<close> when others remain, or when it can reclaim the inode.\<close>

context inode_driver
begin

lemma ref_dec_ok:
  assumes n: "node n" "0 < ref_count (inodes s n)" "open_count (inodes s n) < ref_count (inodes s n)" "0 \<le> open_count (inodes s n)"
    "ref_count (inodes s n) < MAX_INODE_COUNT" and rc: "1 < ref_count (inodes s n) \<or> op_reclaim D n \<noteq> None"
  shows "\<exists>s'. inode_ref_dec D n s = Some (ref_count (inodes s n) - 1, s') \<and> tables s' = tables s \<and>
    inodes s' = (inodes s)(n := (inodes s n)\<lparr>ref_count := ref_count (inodes s n) - 1\<rparr>)"
proof -
  define s1 where "s1 = upd_inode n (\<lambda>x. x\<lparr>ref_count := ref_count x - 1\<rparr>) s"
  have s1: "inodes s1 = (inodes s)(n := (inodes s n)\<lparr>ref_count := ref_count (inodes s n) - 1\<rparr>)" "tables s1 = tables s"
    by (simp_all add: s1_def fun_eq_iff)
  have c: "inode_check n s1" using n by (simp add: inode_check_def s1)
  show ?thesis
  proof (cases "ref_count (inodes s n) = 1")
    case True
    then obtain g where g: "op_reclaim D n = Some g" using rc by auto
    obtain r s' where "g s1 = Some (r, s')" "keeps s1 s'" using reclaim_keeps[OF n(1) c _ g] True by (auto simp: s1)
    then show ?thesis using n(2) True g c s1 by (auto simp: inode_ref_dec_def vop_op_def keeps_def s1_def[symmetric] Let_def)
  next
    case False
    then show ?thesis using n(2) s1 by (auto simp: inode_ref_dec_def s1_def[symmetric] Let_def)
  qed
qed

lemma open_dec_ok:
  assumes n: "node n" "0 < open_count (inodes s n)" "open_count (inodes s n) \<le> ref_count (inodes s n)" "ref_count (inodes s n) < MAX_INODE_COUNT"
  shows "\<exists>s'. inode_open_dec D n s = Some (open_count (inodes s n) - 1, s') \<and> tables s' = tables s \<and>
    inodes s' = (inodes s)(n := (inodes s n)\<lparr>open_count := open_count (inodes s n) - 1\<rparr>)"
proof -
  define s1 where "s1 = upd_inode n (\<lambda>x. x\<lparr>open_count := open_count x - 1\<rparr>) s"
  have s1: "inodes s1 = (inodes s)(n := (inodes s n)\<lparr>open_count := open_count (inodes s n) - 1\<rparr>)" "tables s1 = tables s"
    by (simp_all add: s1_def fun_eq_iff)
  have c: "inode_check n s1" using n by (simp add: inode_check_def s1)
  show ?thesis
  proof (cases "open_count (inodes s n) = 1")
    case True
    obtain g r s' where "op_close D n = Some g" "g s1 = Some (r, s')" "keeps s1 s'" using close_keeps[OF n(1) c] by blast
    then show ?thesis using n(2) True c s1 by (auto simp: inode_open_dec_def vop_op_def keeps_def s1_def[symmetric] Let_def)
  next
    case False
    then show ?thesis using n(2) s1 by (auto simp: inode_open_dec_def s1_def[symmetric] Let_def)
  qed
qed

lemma vfs_close_ok:
  assumes n: "node n" "0 < open_count (inodes s n)" "open_count (inodes s n) \<le> ref_count (inodes s n)" "ref_count (inodes s n) < MAX_INODE_COUNT"
    and rc: "1 < ref_count (inodes s n) \<or> op_reclaim D n \<noteq> None"
  shows "\<exists>s'. vfs_close D n s = Some s' \<and> tables s' = tables s \<and>
    inodes s' = (inodes s)(n := (inodes s n)\<lparr>open_count := open_count (inodes s n) - 1, ref_count := ref_count (inodes s n) - 1\<rparr>)"
proof -
  obtain s1 where s1: "inode_open_dec D n s = Some (open_count (inodes s n) - 1, s1)" "tables s1 = tables s"
    "inodes s1 = (inodes s)(n := (inodes s n)\<lparr>open_count := open_count (inodes s n) - 1\<rparr>)" using open_dec_ok[OF n] by blast
  have "\<exists>s'. inode_ref_dec D n s1 = Some (ref_count (inodes s1 n) - 1, s') \<and> tables s' = tables s1 \<and>
    inodes s' = (inodes s1)(n := (inodes s1 n)\<lparr>ref_count := ref_count (inodes s1 n) - 1\<rparr>)"
    by (rule ref_dec_ok) (use n rc in \<open>auto simp: s1\<close>)
  then show ?thesis using s1 by (auto simp: vfs_close_def)
qed

end

subsection \<open>Counting the references of a table\<close>

definition entries :: "iptr \<Rightarrow> fd_entry list \<Rightarrow> nat" where
  "entries n arr = length (filter (\<lambda>x. fstatus x = FD_OPENED \<and> fnode x = Some n) arr)"

lemma length_filter_update:
  assumes "i < length xs"
  shows "int (length (filter P (xs[i := y]))) = int (length (filter P xs)) - of_bool (P (xs ! i)) + of_bool (P y)"
proof -
  have "length (filter P xs) = length (filter P (take i xs)) + of_bool (P (xs ! i)) + length (filter P (drop (Suc i) xs))"
    by (subst id_take_nth_drop[OF assms]) simp
  moreover have "length (filter P (xs[i := y])) = length (filter P (take i xs)) + of_bool (P y) + length (filter P (drop (Suc i) xs))"
    by (subst upd_conv_take_nth_drop[OF assms]) simp
  ultimately show ?thesis by simp
qed

lemma entries_update:
  "i < length arr \<Longrightarrow> int (entries n (arr[i := y])) = int (entries n arr)
     - of_bool (fstatus (arr ! i) = FD_OPENED \<and> fnode (arr ! i) = Some n) + of_bool (fstatus y = FD_OPENED \<and> fnode y = Some n)"
  by (simp add: entries_def length_filter_update)

lemma entries_pos: "i < length arr \<Longrightarrow> fstatus (arr ! i) = FD_OPENED \<Longrightarrow> fnode (arr ! i) = Some n \<Longrightarrow> 0 < entries n arr"
  by (auto simp: entries_def filter_empty_conv intro!: bexI[of _ "arr ! i"])

text \<open>A table between two system calls.\<close>

definition entry_wf :: "(iptr \<Rightarrow> bool) \<Rightarrow> nat \<Rightarrow> fd_entry \<Rightarrow> bool" where
  "entry_wf node i x \<longleftrightarrow> fd x = int i \<and>
     (fstatus x = FD_NONE \<and> fopen_count x = 0 \<or>
      fstatus x = FD_OPENED \<and> fopen_count x = 1 \<and> (\<exists>n. fnode x = Some n \<and> node n))"

definition array_wf :: "(iptr \<Rightarrow> bool) \<Rightarrow> fd_entry list \<Rightarrow> bool" where
  "array_wf node arr \<longleftrightarrow> length arr = FILES_STRUCT_NENTRY \<and> (\<forall>i < FILES_STRUCT_NENTRY. entry_wf node i (arr ! i))"

text \<open>The counts of the inodes cover the open entries of the table, and whoever lets go of the last reference can
  reclaim the inode.\<close>

definition counts_ok :: "'a fs_state_scheme drv \<Rightarrow> (iptr \<Rightarrow> bool) \<Rightarrow> nat \<Rightarrow> 'a fs_state_scheme \<Rightarrow> bool" where
  "counts_ok D node t s \<longleftrightarrow> (\<forall>n. node n \<longrightarrow>
     int (entries n (fd_array (tables s t))) \<le> open_count (inodes s n) \<and> open_count (inodes s n) \<le> ref_count (inodes s n) \<and>
     ref_count (inodes s n) < MAX_INODE_COUNT \<and>
     (op_reclaim D n \<noteq> None \<or> int (entries n (fd_array (tables s t))) < ref_count (inodes s n)))"

definition surplus :: "nat \<Rightarrow> 'a fs_state_scheme \<Rightarrow> iptr \<Rightarrow> int \<times> int" where
  "surplus t s n = (open_count (inodes s n) - int (entries n (fd_array (tables s t))),
     ref_count (inodes s n) - int (entries n (fd_array (tables s t))))"

lemma array_wf_upd:
  assumes "array_wf node arr" "i < FILES_STRUCT_NENTRY" "entry_wf node i y" shows "array_wf node (arr[i := y])"
  using assms by (auto simp: array_wf_def nth_list_update)

lemma counts_ok_surplus:
  assumes "counts_ok D node t s" "surplus t s' = surplus t s" "\<And>n. ref_count (inodes s' n) \<le> ref_count (inodes s n)"
  shows "counts_ok D node t s'"
proof -
  have e: "open_count (inodes s' n) - int (entries n (fd_array (tables s' t))) = open_count (inodes s n) - int (entries n (fd_array (tables s t)))"
    "ref_count (inodes s' n) - int (entries n (fd_array (tables s' t))) = ref_count (inodes s n) - int (entries n (fd_array (tables s t)))" for n
    using fun_cong[OF assms(2), of n] by (simp_all add: surplus_def)
  show ?thesis unfolding counts_ok_def
  proof (intro allI impI)
    fix n assume "node n"
    then show "int (entries n (fd_array (tables s' t))) \<le> open_count (inodes s' n) \<and> open_count (inodes s' n) \<le> ref_count (inodes s' n) \<and>
       ref_count (inodes s' n) < MAX_INODE_COUNT \<and> (op_reclaim D n \<noteq> None \<or> int (entries n (fd_array (tables s' t))) < ref_count (inodes s' n))"
      using assms(1)[unfolded counts_ok_def, rule_format, of n] e[of n] assms(3)[of n] by auto
  qed
qed


context inode_driver
begin

lemma fd_array_close_ok:
  assumes wf: "array_wf node (fd_array (tables s t))" and c: "counts_ok D node t s" and i: "i < FILES_STRUCT_NENTRY"
    and x: "fstatus (entry t i s) = FD_OPENED" "fnode (entry t i s) = Some n"
  shows "\<exists>s'. fd_array_close D t i s = Some s' \<and>
    tables s' = (tables s)(t := (tables s t)\<lparr>fd_array := (fd_array (tables s t))[i := (entry t i s)\<lparr>fopen_count := 0, fstatus := FD_NONE\<rparr>]\<rparr>) \<and>
    inodes s' = (inodes s)(n := (inodes s n)\<lparr>open_count := open_count (inodes s n) - 1, ref_count := ref_count (inodes s n) - 1\<rparr>)"
proof -
  have len: "i < length (fd_array (tables s t))" using wf i by (simp add: array_wf_def)
  have e: "entry_wf node i (entry t i s)" using wf i by (simp add: array_wf_def)
  then have oc: "fopen_count (entry t i s) = 1" and nn: "node n" using x by (auto simp: entry_wf_def)
  define s1 where "s1 = upd_file t i (\<lambda>x. x\<lparr>fstatus := FD_CLOSED, fopen_count := fopen_count x - 1\<rparr>) s"
  have s1: "inodes s1 = inodes s" "entry t i s1 = (entry t i s)\<lparr>fstatus := FD_CLOSED, fopen_count := 0\<rparr>"
    "tables s1 = (tables s)(t := (tables s t)\<lparr>fd_array := (fd_array (tables s t))[i := (entry t i s)\<lparr>fstatus := FD_CLOSED, fopen_count := 0\<rparr>]\<rparr>)"
    using len oc by (simp_all add: s1_def fun_eq_iff)
  have "0 < entries n (fd_array (tables s t))" using entries_pos[OF len x] .
  then have b: "0 < open_count (inodes s n)" "open_count (inodes s n) \<le> ref_count (inodes s n)" "ref_count (inodes s n) < MAX_INODE_COUNT"
    "1 < ref_count (inodes s n) \<or> op_reclaim D n \<noteq> None"
    using c[unfolded counts_ok_def, rule_format, OF nn] by auto
  from vfs_close_ok[OF nn, of s1] b obtain s2 where s2: "vfs_close D n s1 = Some s2" "tables s2 = tables s1"
    "inodes s2 = (inodes s1)(n := (inodes s1 n)\<lparr>open_count := open_count (inodes s1 n) - 1, ref_count := ref_count (inodes s1 n) - 1\<rparr>)"
    by (auto simp: s1)
  let ?s3 = "upd_file t i (\<lambda>x. x\<lparr>fstatus := FD_NONE\<rparr>) s2"
  have "fd_array_close D t i s = Some ?s3"
    using x oc s1(2) s2(1) by (simp add: fd_array_close_def fd_array_free_def s1_def[symmetric])
  moreover have "tables ?s3 = (tables s)(t := (tables s t)\<lparr>fd_array := (fd_array (tables s t))[i := (entry t i s)\<lparr>fopen_count := 0, fstatus := FD_NONE\<rparr>]\<rparr>)"
    using len by (simp add: fun_eq_iff s2 s1)
  ultimately show ?thesis using s2(3) s1(1) by (intro exI[of _ ?s3]) simp
qed

lemma close_surplus:
  assumes wf: "array_wf node (fd_array (tables s t))" and i: "i < FILES_STRUCT_NENTRY"
    and x: "fstatus (entry t i s) = FD_OPENED" "fnode (entry t i s) = Some n"
    and s': "tables s' = (tables s)(t := (tables s t)\<lparr>fd_array := (fd_array (tables s t))[i := (entry t i s)\<lparr>fopen_count := 0, fstatus := FD_NONE\<rparr>]\<rparr>)"
      "inodes s' = (inodes s)(n := (inodes s n)\<lparr>open_count := open_count (inodes s n) - 1, ref_count := ref_count (inodes s n) - 1\<rparr>)"
  shows "surplus t s' = surplus t s" "array_wf node (fd_array (tables s' t))"
proof -
  have len: "i < length (fd_array (tables s t))" using wf i by (simp add: array_wf_def)
  show "surplus t s' = surplus t s" using x by (auto simp: fun_eq_iff surplus_def s' entries_update[OF len])
  have "entry_wf node i (entry t i s)" using wf i by (simp add: array_wf_def)
  then show "array_wf node (fd_array (tables s' t))" using array_wf_upd[OF wf i] by (simp add: s' entry_wf_def)
qed

lemma file_close_ok:
  assumes wf: "array_wf node (fd_array (tables s t))" and c: "counts_ok D node t s" and u: "0 < files_count (tables s t)"
  shows "\<exists>s'. if testfd i \<and> fstatus (entry t (nat i) s) = FD_OPENED
    then file_close D t i s = Some (0, s') \<and> array_wf node (fd_array (tables s' t)) \<and> counts_ok D node t s' \<and>
      surplus t s' = surplus t s \<and> fstatus (entry t (nat i) s') = FD_NONE \<and>
      (\<forall>j. j \<noteq> nat i \<longrightarrow> entry t j s' = entry t j s) \<and> (\<forall>v. v \<noteq> t \<longrightarrow> tables s' v = tables s v)
    else file_close D t i s = Some (err E_INVAL, s)"
proof (cases "testfd i \<and> fstatus (entry t (nat i) s) = FD_OPENED")
  case True
  then have i: "nat i < FILES_STRUCT_NENTRY" "int (nat i) = i" by (auto simp: testfd_def)
  have len: "nat i < length (fd_array (tables s t))" using wf i by (simp add: array_wf_def)
  have e: "entry_wf node (nat i) (entry t (nat i) s)" using wf i by (simp add: array_wf_def)
  then obtain n where n: "fnode (entry t (nat i) s) = Some n" using True by (auto simp: entry_wf_def)
  obtain s' where s': "fd_array_close D t (nat i) s = Some s'"
    "tables s' = (tables s)(t := (tables s t)\<lparr>fd_array := (fd_array (tables s t))[nat i := (entry t (nat i) s)\<lparr>fopen_count := 0, fstatus := FD_NONE\<rparr>]\<rparr>)"
    "inodes s' = (inodes s)(n := (inodes s n)\<lparr>open_count := open_count (inodes s n) - 1, ref_count := ref_count (inodes s n) - 1\<rparr>)"
    using fd_array_close_ok[OF wf c i(1) _ n] True by blast
  have sp: "surplus t s' = surplus t s" "array_wf node (fd_array (tables s' t))"
    using close_surplus[OF wf i(1) _ n s'(2,3)] True by blast+
  have "counts_ok D node t s'" using counts_ok_surplus[OF c sp(1)] by (simp add: s'(3))
  moreover have "file_close D t i s = Some (0, s')"
    using True u e i(2) s'(1) by (simp add: file_close_def fd2file_def get_fd_array_def entry_wf_def)
  ultimately show ?thesis using True sp len by (intro exI[of _ s']) (auto simp: s'(2) nth_list_update)
next
  case False
  then show ?thesis using u by (auto simp: file_close_def fd2file_def get_fd_array_def)
qed

end

subsection \<open>Duplicating\<close>

definition dup_entry :: "fd_entry \<Rightarrow> fd_entry \<Rightarrow> fd_entry" where
  "dup_entry x y = x\<lparr>fstatus := FD_OPENED, readable := readable y, writable := writable y, fpos := fpos y, fnode := fnode y,
     fopen_count := fopen_count x + 1\<rparr>"

lemma fd_array_dup_ok:
  assumes i: "i < length (fd_array (tables s t))" "fstatus (entry t i s) = FD_INIT"
    and j: "fstatus (entry u j s) = FD_OPENED" "fnode (entry u j s) = Some n"
  shows "\<exists>s'. fd_array_dup t i u j s = Some s' \<and>
    tables s' = (tables s)(t := (tables s t)\<lparr>fd_array := (fd_array (tables s t))[i := dup_entry (entry t i s) (entry u j s)]\<rparr>) \<and>
    inodes s' = (inodes s)(n := (inodes s n)\<lparr>open_count := open_count (inodes s n) + 1, ref_count := ref_count (inodes s n) + 1\<rparr>)"
proof -
  define x where "x = entry u j s"
  have x: "fstatus x = FD_OPENED" "fnode x = Some n" using j by (simp_all add: x_def)
  let ?s1 = "inode_open_inc n (inode_ref_inc n (upd_file t i (\<lambda>y. y\<lparr>fpos := fpos x, readable := readable x, writable := writable x\<rparr>) s))"
  let ?s2 = "upd_file t i (\<lambda>y. y\<lparr>fnode := Some n\<rparr>) ?s1"
  let ?s3 = "upd_file t i (\<lambda>y. y\<lparr>fstatus := FD_OPENED, fopen_count := fopen_count y + 1\<rparr>) ?s2"
  have "fd_array_dup t i u j s = Some ?s3"
    using i x by (simp add: fd_array_dup_def fd_array_open_def x_def[symmetric] Let_def)
  moreover have "tables ?s3 = (tables s)(t := (tables s t)\<lparr>fd_array := (fd_array (tables s t))[i := dup_entry (entry t i s) x]\<rparr>)"
    using i(1) x(2) by (cases "entry t i s") (simp add: fun_eq_iff dup_entry_def)
  moreover have "inodes ?s3 = (inodes s)(n := (inodes s n)\<lparr>open_count := open_count (inodes s n) + 1, ref_count := ref_count (inodes s n) + 1\<rparr>)"
    by (cases "inodes s n") (simp add: fun_eq_iff)
  ultimately show ?thesis unfolding x_def[symmetric] by blast
qed

lemma fd_array_alloc_ok:
  assumes wf: "array_wf node (fd_array (tables s t))" and u: "0 < files_count (tables s t)"
  defines "arr \<equiv> fd_array (tables s t)"
  obtains (found) k where "fd_array_alloc t i s = Some (Inr k, upd_file t k (\<lambda>x. x\<lparr>fstatus := FD_INIT, fnode := None\<rparr>) s)"
      "k < FILES_STRUCT_NENTRY" "fstatus (arr ! k) = FD_NONE" "i = NO_FD \<or> i = int k"
    | (busy) e where "fd_array_alloc t i s = Some (Inl (err e), s)"
      "if i = NO_FD then e = E_MAX_OPEN \<and> (\<forall>k < FILES_STRUCT_NENTRY. fstatus (arr ! k) \<noteq> FD_NONE)
       else if testfd i then e = E_BUSY \<and> fstatus (arr ! nat i) \<noteq> FD_NONE else e = E_INVAL"
proof -
  have oc: "fopen_count (arr ! k) = 0" if "k < FILES_STRUCT_NENTRY" "fstatus (arr ! k) = FD_NONE" for k
    using wf that unfolding array_wf_def entry_wf_def arr_def by fastforce
  show thesis
  proof (cases "i = NO_FD")
    case True
    show thesis
    proof (cases "List.find (\<lambda>k. fstatus (arr ! k) = FD_NONE) [0 ..< FILES_STRUCT_NENTRY]")
      case None
      then have "\<forall>k < FILES_STRUCT_NENTRY. fstatus (arr ! k) \<noteq> FD_NONE" by (auto simp: find_None_iff)
      moreover have "fd_array_alloc t i s = Some (Inl (err E_MAX_OPEN), s)"
        using True u None by (simp add: fd_array_alloc_def get_fd_array_def arr_def)
      ultimately show thesis using True busy[of E_MAX_OPEN] by simp
    next
      case (Some k)
      then have "k < FILES_STRUCT_NENTRY" "fstatus (arr ! k) = FD_NONE" by (auto simp: find_Some_iff)
      then show thesis using True u Some oc found[of k] by (auto simp: fd_array_alloc_def get_fd_array_def fd_found_def arr_def)
    qed
  next
    case False
    then show thesis
      using u oc[of "nat i"] found[of "nat i"] busy[of E_BUSY] busy[of E_INVAL]
      by (cases "testfd i"; cases "fstatus (arr ! nat i) = FD_NONE")
        (auto simp: fd_array_alloc_def get_fd_array_def fd_found_def arr_def testfd_def)
  qed
qed

lemma file_dup_ok:
  assumes wf: "array_wf node (fd_array (tables s t))" and u: "0 < files_count (tables s t)"
  shows "\<exists>r s'. file_dup t fd1 fd2 s = Some (r, s') \<and> array_wf node (fd_array (tables s' t)) \<and>
    surplus t s' = surplus t s \<and> (\<forall>v. v \<noteq> t \<longrightarrow> tables s' v = tables s v) \<and> (r < 0 \<longrightarrow> s' = s) \<and>
    (0 \<le> r \<longleftrightarrow> testfd fd1 \<and> fstatus (entry t (nat fd1) s) = FD_OPENED \<and>
       (if fd2 = NO_FD then \<exists>k < FILES_STRUCT_NENTRY. fstatus (entry t k s) = FD_NONE
        else testfd fd2 \<and> fstatus (entry t (nat fd2) s) = FD_NONE)) \<and>
    (0 \<le> r \<longrightarrow> testfd r \<and> (fd2 \<noteq> NO_FD \<longrightarrow> r = fd2) \<and> fstatus (entry t (nat r) s) = FD_NONE \<and>
       (let x = entry t (nat r) s'; y = entry t (nat fd1) s in fstatus x = FD_OPENED \<and> fnode x = fnode y \<and> fpos x = fpos y \<and>
          readable x = readable y \<and> writable x = writable y))"
proof (cases "testfd fd1 \<and> fstatus (entry t (nat fd1) s) = FD_OPENED")
  case False
  then have "file_dup t fd1 fd2 s = Some (err E_INVAL, s)" using u by (auto simp: file_dup_def fd2file_def get_fd_array_def)
  then show ?thesis using wf False by (intro exI[of _ "err E_INVAL"] exI[of _ s]) auto
next
  case True
  define j where "j = nat fd1"
  have j: "j < FILES_STRUCT_NENTRY" "int j = fd1" "fstatus (entry t j s) = FD_OPENED" using True by (auto simp: j_def testfd_def)
  have je: "entry_wf node j (entry t j s)" using wf j by (simp add: array_wf_def)
  then obtain n where n: "fnode (entry t j s) = Some n" "node n" "fd (entry t j s) = fd1" using j by (auto simp: entry_wf_def)
  have f: "fd2file t fd1 s = Some (Inr j)" using True u n(3) j by (simp add: fd2file_def get_fd_array_def j_def)
  show ?thesis
  proof (cases rule: fd_array_alloc_ok[OF wf u, of fd2, case_names found busy])
    case (busy e)
    then have "file_dup t fd1 fd2 s = Some (err e, s)" using f by (simp add: file_dup_def)
    then show ?thesis using wf busy(2) errno_code_pos[of e] by (intro exI[of _ "err e"] exI[of _ s]) (auto split: if_splits)
  next
    case (found k)
    define s1 where "s1 = upd_file t k (\<lambda>x. x\<lparr>fstatus := FD_INIT, fnode := None\<rparr>) s"
    have kj: "k \<noteq> j" using found(3) j(3) by auto
    have len: "k < length (fd_array (tables s t))" "j < length (fd_array (tables s t))" using wf found(2) j(1) by (auto simp: array_wf_def)
    have s1: "inodes s1 = inodes s" "entry t k s1 = (entry t k s)\<lparr>fstatus := FD_INIT, fnode := None\<rparr>" "entry t j s1 = entry t j s"
      "k < length (fd_array (tables s1 t))" "\<And>v. v \<noteq> t \<Longrightarrow> tables s1 v = tables s v"
      "fd_array (tables s1 t) = (fd_array (tables s t))[k := (entry t k s)\<lparr>fstatus := FD_INIT, fnode := None\<rparr>]"
      using len kj by (simp_all add: s1_def)
    from fd_array_dup_ok[of k s1 t t j n] obtain s' where s': "fd_array_dup t k t j s1 = Some s'"
      "tables s' = (tables s1)(t := (tables s1 t)\<lparr>fd_array := (fd_array (tables s1 t))[k := dup_entry (entry t k s1) (entry t j s1)]\<rparr>)"
      "inodes s' = (inodes s1)(n := (inodes s1 n)\<lparr>open_count := open_count (inodes s1 n) + 1, ref_count := ref_count (inodes s1 n) + 1\<rparr>)"
      using s1(2-4) j(3) n(1) by auto
    have ke: "entry_wf node k (entry t k s)" using wf found(2) by (simp add: array_wf_def)
    define y where "y = dup_entry (entry t k s1) (entry t j s1)"
    have y: "fstatus y = FD_OPENED" "fnode y = Some n" "fd y = int k" "fopen_count y = 1" "fpos y = fpos (entry t j s)"
      "readable y = readable (entry t j s)" "writable y = writable (entry t j s)"
      using ke found(3) n(1) by (simp_all add: y_def dup_entry_def s1(2,3) entry_wf_def)
    have arr: "fd_array (tables s' t) = (fd_array (tables s t))[k := y]" unfolding s'(2) y_def[symmetric] by (simp add: s1(6))
    have "file_dup t fd1 fd2 s = Some (int k, s')" using f found(1) s'(1) y(3) len arr by (simp add: file_dup_def s1_def)
    moreover have "array_wf node (fd_array (tables s' t))"
      unfolding arr using array_wf_upd[OF wf found(2), of y] y n(2) by (simp add: entry_wf_def)
    moreover have "surplus t s' = surplus t s"
      using y found(3) unfolding fun_eq_iff surplus_def arr entries_update[OF len(1)] by (auto simp: s'(3) s1(1))
    moreover have "\<forall>v. v \<noteq> t \<longrightarrow> tables s' v = tables s v" using s1(5) by (simp add: s'(2))
    moreover have "testfd (int k)" using found(2) by (simp add: testfd_def)
    ultimately show ?thesis using True found y len j_def n(1)
      by (intro exI[of _ "int k"] exI[of _ s']) (auto simp: arr testfd_def Let_def)
  qed
qed

subsection \<open>Copying and destroying a table\<close>

lemma entries_index: "length arr = k \<Longrightarrow> entries n arr = length (filter (\<lambda>i. fstatus (arr ! i) = FD_OPENED \<and> fnode (arr ! i) = Some n) [0 ..< k])"
proof -
  assume k: "length arr = k"
  have "entries n arr = length (filter (\<lambda>x. fstatus x = FD_OPENED \<and> fnode x = Some n) (map (\<lambda>i. arr ! i) [0 ..< length arr]))"
    by (simp only: entries_def map_nth)
  then show ?thesis using k by (simp add: filter_map o_def)
qed

definition opened :: "iptr \<Rightarrow> fd_entry list \<Rightarrow> nat list \<Rightarrow> int" where
  "opened n arr ks = int (length (filter (\<lambda>i. fstatus (arr ! i) = FD_OPENED \<and> fnode (arr ! i) = Some n) ks))"

lemma dup_loop_ok:
  assumes "t \<noteq> u" "distinct ks" "\<forall>i \<in> set ks. i < length (fd_array (tables s t))"
    "\<forall>i \<in> set ks. fstatus (entry u i s) = FD_OPENED \<longrightarrow> fnode (entry u i s) \<noteq> None"
  shows "\<exists>s'. dup_loop t u ks s = Some s' \<and> (\<forall>v. v \<noteq> t \<longrightarrow> tables s' v = tables s v) \<and>
    length (fd_array (tables s' t)) = length (fd_array (tables s t)) \<and>
    pwd (tables s' t) = pwd (tables s t) \<and> files_count (tables s' t) = files_count (tables s t) \<and>
    (\<forall>i. entry t i s' = (if i \<in> set ks \<and> fstatus (entry u i s) = FD_OPENED
       then dup_entry ((entry t i s)\<lparr>fstatus := FD_INIT\<rparr>) (entry u i s) else entry t i s)) \<and>
    (\<forall>n. open_count (inodes s' n) = open_count (inodes s n) + opened n (fd_array (tables s u)) ks \<and>
       ref_count (inodes s' n) = ref_count (inodes s n) + opened n (fd_array (tables s u)) ks)"
  using assms(2-4)
proof (induction "ks" arbitrary: s)
  case Nil
  then show ?case by (simp add: opened_def)
next
  case step: (Cons i ks)
  have i: "i < length (fd_array (tables s t))" "i \<notin> set ks" using step.prems by auto
  show ?case
  proof (cases "fstatus (entry u i s) = FD_OPENED")
    case False
    from step.IH[of s] step.prems obtain s' where s': "dup_loop t u ks s = Some s'" "\<forall>v. v \<noteq> t \<longrightarrow> tables s' v = tables s v"
      "length (fd_array (tables s' t)) = length (fd_array (tables s t))"
      "pwd (tables s' t) = pwd (tables s t)" "files_count (tables s' t) = files_count (tables s t)"
      "\<forall>i. entry t i s' = (if i \<in> set ks \<and> fstatus (entry u i s) = FD_OPENED
         then dup_entry ((entry t i s)\<lparr>fstatus := FD_INIT\<rparr>) (entry u i s) else entry t i s)"
      "\<forall>n. open_count (inodes s' n) = open_count (inodes s n) + opened n (fd_array (tables s u)) ks \<and>
         ref_count (inodes s' n) = ref_count (inodes s n) + opened n (fd_array (tables s u)) ks" by auto
    show ?thesis using s' False by (intro exI[of _ s']) (auto simp: opened_def)
  next
    case True
    then obtain n where n: "fnode (entry u i s) = Some n" using step.prems(3) by auto
    define s0 where "s0 = upd_file t i (\<lambda>x. x\<lparr>fstatus := FD_INIT\<rparr>) s"
    have s0: "inodes s0 = inodes s" "entry t i s0 = (entry t i s)\<lparr>fstatus := FD_INIT\<rparr>" "entry u i s0 = entry u i s"
      "\<And>v. v \<noteq> t \<Longrightarrow> tables s0 v = tables s v" "length (fd_array (tables s0 t)) = length (fd_array (tables s t))"
      using i assms(1) by (simp_all add: s0_def)
    from fd_array_dup_ok[of i s0 t u i n] obtain s1 where s1: "fd_array_dup t i u i s0 = Some s1"
      "tables s1 = (tables s0)(t := (tables s0 t)\<lparr>fd_array := (fd_array (tables s0 t))[i := dup_entry (entry t i s0) (entry u i s0)]\<rparr>)"
      "inodes s1 = (inodes s0)(n := (inodes s0 n)\<lparr>open_count := open_count (inodes s0 n) + 1, ref_count := ref_count (inodes s0 n) + 1\<rparr>)"
      using i(1) s0(2,3,5) True n by auto
    have tu: "tables s1 v = tables s v" if "v \<noteq> t" for v using s0(4)[OF that] that by (simp add: s1(2))
    have e1: "entry t k s1 = (if k = i then dup_entry ((entry t i s)\<lparr>fstatus := FD_INIT\<rparr>) (entry u i s) else entry t k s)" for k
      using i(1) unfolding s1(2) s0(2,3) by (simp add: s0_def)
    have l1: "length (fd_array (tables s1 t)) = length (fd_array (tables s t))" "pwd (tables s1 t) = pwd (tables s t)"
      "files_count (tables s1 t) = files_count (tables s t)" using s0(5) by (simp_all add: s1(2)) (simp_all add: s0_def)
    from step.IH[of s1] step.prems obtain s' where s': "dup_loop t u ks s1 = Some s'" "\<forall>v. v \<noteq> t \<longrightarrow> tables s' v = tables s1 v"
      "length (fd_array (tables s' t)) = length (fd_array (tables s1 t))"
      "pwd (tables s' t) = pwd (tables s1 t)" "files_count (tables s' t) = files_count (tables s1 t)"
      "\<forall>i. entry t i s' = (if i \<in> set ks \<and> fstatus (entry u i s1) = FD_OPENED
         then dup_entry ((entry t i s1)\<lparr>fstatus := FD_INIT\<rparr>) (entry u i s1) else entry t i s1)"
      "\<forall>n. open_count (inodes s' n) = open_count (inodes s1 n) + opened n (fd_array (tables s1 u)) ks \<and>
         ref_count (inodes s' n) = ref_count (inodes s1 n) + opened n (fd_array (tables s1 u)) ks"
      using tu[OF assms(1)[symmetric]] l1(1) by auto
    have "dup_loop t u (i # ks) s = Some s'" using True s1(1) s'(1) by (simp add: s0_def[symmetric])
    moreover have "entry t k s' = (if k \<in> set (i # ks) \<and> fstatus (entry u k s) = FD_OPENED
        then dup_entry ((entry t k s)\<lparr>fstatus := FD_INIT\<rparr>) (entry u k s) else entry t k s)" for k
      using s'(6) i(2) True unfolding e1 tu[OF assms(1)[symmetric]] by auto
    moreover have "open_count (inodes s' m) = open_count (inodes s m) + opened m (fd_array (tables s u)) (i # ks) \<and>
        ref_count (inodes s' m) = ref_count (inodes s m) + opened m (fd_array (tables s u)) (i # ks)" for m
      using s'(7) n True unfolding tu[OF assms(1)[symmetric]] s1(3) s0(1) by (auto simp: opened_def)
    ultimately show ?thesis using s'(2-5) tu l1 by (intro exI[of _ s']) auto
  qed
qed

context inode_driver
begin

lemma destroy_loop_ok:
  assumes "array_wf node (fd_array (tables s t))" "counts_ok D node t s" "\<forall>i \<in> set ks. i < FILES_STRUCT_NENTRY"
  shows "\<exists>s'. destroy_loop D t ks s = Some s' \<and> array_wf node (fd_array (tables s' t)) \<and> counts_ok D node t s' \<and>
    surplus t s' = surplus t s \<and> (\<forall>v. v \<noteq> t \<longrightarrow> tables s' v = tables s v) \<and>
    (\<forall>i < FILES_STRUCT_NENTRY. i \<in> set ks \<or> fstatus (entry t i s) = FD_NONE \<longrightarrow> fstatus (entry t i s') = FD_NONE)"
  using assms
proof (induction "ks" arbitrary: s)
  case step: (Cons i ks)
  have i: "i < FILES_STRUCT_NENTRY" "i < length (fd_array (tables s t))" using step.prems by (auto simp: array_wf_def)
  have e: "entry_wf node i (entry t i s)" using step.prems(1) i by (simp add: array_wf_def)
  have "\<exists>s1. (if fstatus (entry t i s) = FD_OPENED then fd_array_close D t i s else Some s) = Some s1 \<and>
    array_wf node (fd_array (tables s1 t)) \<and> counts_ok D node t s1 \<and> surplus t s1 = surplus t s \<and>
    (\<forall>v. v \<noteq> t \<longrightarrow> tables s1 v = tables s v) \<and> fstatus (entry t i s1) = FD_NONE \<and>
    (\<forall>k. k \<noteq> i \<longrightarrow> entry t k s1 = entry t k s)"
  proof (cases "fstatus (entry t i s) = FD_OPENED")
    case True
    then obtain n where n: "fnode (entry t i s) = Some n" using e by (auto simp: entry_wf_def)
    obtain s1 where s1: "fd_array_close D t i s = Some s1"
      "tables s1 = (tables s)(t := (tables s t)\<lparr>fd_array := (fd_array (tables s t))[i := (entry t i s)\<lparr>fopen_count := 0, fstatus := FD_NONE\<rparr>]\<rparr>)"
      "inodes s1 = (inodes s)(n := (inodes s n)\<lparr>open_count := open_count (inodes s n) - 1, ref_count := ref_count (inodes s n) - 1\<rparr>)"
      using fd_array_close_ok[OF step.prems(1,2) i(1) True n] by blast
    note sp = close_surplus[OF step.prems(1) i(1) True n s1(2,3)]
    have "counts_ok D node t s1" using counts_ok_surplus[OF step.prems(2) sp(1)] by (simp add: s1(3))
    then show ?thesis using s1(1) sp True i(2) by (intro exI[of _ s1]) (simp add: s1(2))
  next
    case False
    then show ?thesis using e step.prems by (auto simp: entry_wf_def)
  qed
  then obtain s1 where s1: "(if fstatus (entry t i s) = FD_OPENED then fd_array_close D t i s else Some s) = Some s1"
    "array_wf node (fd_array (tables s1 t))" "counts_ok D node t s1" "surplus t s1 = surplus t s"
    "\<forall>v. v \<noteq> t \<longrightarrow> tables s1 v = tables s v" "fstatus (entry t i s1) = FD_NONE" "\<forall>k. k \<noteq> i \<longrightarrow> entry t k s1 = entry t k s" by blast
  from step.IH[OF s1(2,3)] step.prems(3) obtain s' where s': "destroy_loop D t ks s1 = Some s'" "array_wf node (fd_array (tables s' t))"
    "counts_ok D node t s'" "surplus t s' = surplus t s1" "\<forall>v. v \<noteq> t \<longrightarrow> tables s' v = tables s1 v"
    "\<forall>i < FILES_STRUCT_NENTRY. i \<in> set ks \<or> fstatus (entry t i s1) = FD_NONE \<longrightarrow> fstatus (entry t i s') = FD_NONE" by auto
  have "fstatus (entry t k s') = FD_NONE" if "k < FILES_STRUCT_NENTRY" "k \<in> set (i # ks) \<or> fstatus (entry t k s) = FD_NONE" for k
    using s'(6) s1(6,7) that by (cases "k = i") auto
  then show ?case using s1 s' by (intro exI[of _ s']) simp
qed simp

end

text \<open>C29: \<^verbatim>\<open>file_close\<close> and \<^verbatim>\<open>file_dup\<close> keep the books of the file system: for every inode the open count and
  the reference count change by exactly the number of descriptors gained or lost, so no reference is leaked and none is
  dropped twice; the table stays well formed and other tables are not touched. Neither panics. \<^verbatim>\<open>file_close\<close>
  frees exactly the given open descriptor and rejects every other number. \<^verbatim>\<open>file_dup\<close> succeeds exactly when the
  source is open and there is a free target (the given one, or any), the copy shares inode, position and permissions,
  and an error changes nothing.\<close>

theorem file_table_balanced:
  assumes drv: "inode_driver D node" and wf: "array_wf node (fd_array (tables s t))" and c: "counts_ok D node t s"
    and u: "0 < files_count (tables s t)"
  shows "(\<exists>s'. if testfd i \<and> fstatus (entry t (nat i) s) = FD_OPENED
      then file_close D t i s = Some (0, s') \<and> array_wf node (fd_array (tables s' t)) \<and> counts_ok D node t s' \<and>
        surplus t s' = surplus t s \<and> fstatus (entry t (nat i) s') = FD_NONE \<and>
        (\<forall>j. j \<noteq> nat i \<longrightarrow> entry t j s' = entry t j s) \<and> (\<forall>v. v \<noteq> t \<longrightarrow> tables s' v = tables s v)
      else file_close D t i s = Some (err E_INVAL, s)) \<and>
    (\<exists>r s'. file_dup t fd1 fd2 s = Some (r, s') \<and> array_wf node (fd_array (tables s' t)) \<and>
      surplus t s' = surplus t s \<and> (\<forall>v. v \<noteq> t \<longrightarrow> tables s' v = tables s v) \<and> (r < 0 \<longrightarrow> s' = s) \<and>
      (0 \<le> r \<longleftrightarrow> testfd fd1 \<and> fstatus (entry t (nat fd1) s) = FD_OPENED \<and>
         (if fd2 = NO_FD then \<exists>k < FILES_STRUCT_NENTRY. fstatus (entry t k s) = FD_NONE
          else testfd fd2 \<and> fstatus (entry t (nat fd2) s) = FD_NONE)) \<and>
      (0 \<le> r \<longrightarrow> testfd r \<and> (fd2 \<noteq> NO_FD \<longrightarrow> r = fd2) \<and> fstatus (entry t (nat r) s) = FD_NONE \<and>
         (let x = entry t (nat r) s'; y = entry t (nat fd1) s in fstatus x = FD_OPENED \<and> fnode x = fnode y \<and> fpos x = fpos y \<and>
            readable x = readable y \<and> writable x = writable y)))"
  using inode_driver.file_close_ok[OF drv wf c u] file_dup_ok[OF wf u] by (rule conjI)

text \<open>A table as \<^verbatim>\<open>files_create\<close> makes it.\<close>

definition fresh_table :: "files_struct \<Rightarrow> bool" where
  "fresh_table tb \<longleftrightarrow> files_count tb = 0 \<and> pwd tb = None \<and> length (fd_array tb) = FILES_STRUCT_NENTRY \<and>
     (\<forall>i < FILES_STRUCT_NENTRY. fd (fd_array tb ! i) = int i \<and> fstatus (fd_array tb ! i) = FD_NONE \<and> fopen_count (fd_array tb ! i) = 0)"

lemma files_create_fresh: "fresh_table (tables (snd (files_create (Some t) s)) t)"
  by (simp add: files_create_def fresh_table_def fd_array_init_def)

lemma entries_none: "\<forall>i < length arr. fstatus (arr ! i) = FD_NONE \<Longrightarrow> entries n arr = 0"
  by (auto simp: entries_def filter_empty_conv in_set_conv_nth)

lemma dup_files_ok:
  assumes tu: "t \<noteq> u" and fr: "fresh_table (tables s t)" and wf: "array_wf node (fd_array (tables s u))" and fc: "0 < files_count (tables s u)"
  shows "\<exists>s'. dup_files t u s = Some (0, s') \<and> tables s' u = tables s u \<and> array_wf node (fd_array (tables s' t)) \<and>
    pwd (tables s' t) = pwd (tables s u) \<and> files_count (tables s' t) = 0 \<and>
    (\<forall>i < FILES_STRUCT_NENTRY. let x = entry t i s'; y = entry u i s in fstatus x = fstatus y \<and>
       (fstatus y = FD_OPENED \<longrightarrow> fnode x = fnode y \<and> fpos x = fpos y \<and> readable x = readable y \<and> writable x = writable y)) \<and>
    (\<forall>n. open_count (inodes s' n) = open_count (inodes s n) + int (entries n (fd_array (tables s u))) \<and>
       ref_count (inodes s' n) = ref_count (inodes s n) + int (entries n (fd_array (tables s u))) + of_bool (pwd (tables s u) = Some n)) \<and>
    (\<forall>n. entries n (fd_array (tables s' t)) = entries n (fd_array (tables s u)))"
proof -
  let ?A = "fd_array (tables s u)"
  define s1 where "s1 = set_cwd t (pwd (tables s u)) s"
  define s2 where "s2 = (case pwd (tables s1 u) of None \<Rightarrow> s1 | Some n \<Rightarrow> inode_ref_inc n s1)"
  have s2: "tables s2 v = (if v = t then (tables s t)\<lparr>pwd := pwd (tables s u)\<rparr> else tables s v)"
    "open_count (inodes s2 n) = open_count (inodes s n)" "ref_count (inodes s2 n) = ref_count (inodes s n) + of_bool (pwd (tables s u) = Some n)" for v n
    using tu by (auto simp: s2_def s1_def split: option.splits)
  have len: "length (fd_array (tables s t)) = FILES_STRUCT_NENTRY" "length ?A = FILES_STRUCT_NENTRY"
    using fr wf by (auto simp: fresh_table_def array_wf_def)
  have ew: "entry_wf node i (?A ! i)" if "i < FILES_STRUCT_NENTRY" for i using wf that by (simp add: array_wf_def)
  have "fnode (entry u i s2) \<noteq> None" if "i < FILES_STRUCT_NENTRY" "fstatus (entry u i s2) = FD_OPENED" for i
    using ew[OF that(1)] that(2) tu by (auto simp: s2(1) entry_wf_def)
  then obtain s' where s': "dup_loop t u [0 ..< FILES_STRUCT_NENTRY] s2 = Some s'" "\<forall>v. v \<noteq> t \<longrightarrow> tables s' v = tables s2 v"
    "length (fd_array (tables s' t)) = length (fd_array (tables s2 t))"
    "pwd (tables s' t) = pwd (tables s2 t)" "files_count (tables s' t) = files_count (tables s2 t)"
    "\<forall>i. entry t i s' = (if i \<in> set [0 ..< FILES_STRUCT_NENTRY] \<and> fstatus (entry u i s2) = FD_OPENED
       then dup_entry ((entry t i s2)\<lparr>fstatus := FD_INIT\<rparr>) (entry u i s2) else entry t i s2)"
    "\<forall>n. open_count (inodes s' n) = open_count (inodes s2 n) + opened n (fd_array (tables s2 u)) [0 ..< FILES_STRUCT_NENTRY] \<and>
       ref_count (inodes s' n) = ref_count (inodes s2 n) + opened n (fd_array (tables s2 u)) [0 ..< FILES_STRUCT_NENTRY]"
    using dup_loop_ok[OF tu, of "[0 ..< FILES_STRUCT_NENTRY]" s2] len(1) by (auto simp: s2(1))
  have ent: "entry t i s' = (if fstatus (?A ! i) = FD_OPENED then dup_entry ((entry t i s)\<lparr>fstatus := FD_INIT\<rparr>) (?A ! i) else entry t i s)"
    if "i < FILES_STRUCT_NENTRY" for i using s'(6) that tu by (simp add: s2(1))
  have fe: "fd (entry t i s) = int i" "fstatus (entry t i s) = FD_NONE" "fopen_count (entry t i s) = 0" if "i < FILES_STRUCT_NENTRY" for i
    using fr that by (auto simp: fresh_table_def)
  have l': "length (fd_array (tables s' t)) = FILES_STRUCT_NENTRY" using s'(3) len by (simp add: s2(1))
  have "entry_wf node i (entry t i s')" if "i < FILES_STRUCT_NENTRY" for i
    using ent[OF that] fe[OF that] ew[OF that] by (auto simp: entry_wf_def dup_entry_def)
  then have "array_wf node (fd_array (tables s' t))" using l' by (simp add: array_wf_def)
  moreover have "entries n (fd_array (tables s' t)) = entries n ?A" for n
    unfolding entries_index[OF l'] entries_index[OF len(2)]
    by (intro arg_cong[where f = length] filter_cong refl) (use ent fe in \<open>auto simp: dup_entry_def\<close>)
  moreover have "dup_files t u s = Some (0, s')"
    using fr fc s'(1) tu by (simp add: dup_files_def fresh_table_def s1_def[symmetric] s2_def[symmetric])
  moreover have "opened n (fd_array (tables s2 u)) [0 ..< FILES_STRUCT_NENTRY] = int (entries n ?A)" for n
    using tu by (simp add: opened_def entries_index[OF len(2)] s2(1))
  moreover have "fstatus (entry t i s') = fstatus (?A ! i) \<and> (fstatus (?A ! i) = FD_OPENED \<longrightarrow> fnode (entry t i s') = fnode (?A ! i) \<and>
      fpos (entry t i s') = fpos (?A ! i) \<and> readable (entry t i s') = readable (?A ! i) \<and> writable (entry t i s') = writable (?A ! i))"
    if "i < FILES_STRUCT_NENTRY" for i using ent[OF that] fe[OF that] ew[OF that] by (auto simp: dup_entry_def entry_wf_def)
  ultimately show ?thesis using s' tu fr by (intro exI[of _ s']) (auto simp: s2 Let_def fresh_table_def)
qed


context inode_driver
begin

lemma files_destroy_ok:
  assumes wf: "array_wf node (fd_array (tables s t))" and c: "counts_ok D node t s" and z: "files_count (tables s t) = 0"
    and p: "\<And>d. pwd (tables s t) = Some d \<Longrightarrow> node d \<and> open_count (inodes s d) < ref_count (inodes s d) \<and>
      (op_reclaim D d \<noteq> None \<or> int (entries d (fd_array (tables s t))) + 1 < ref_count (inodes s d))"
  shows "\<exists>s'. files_destroy D t s = Some s' \<and> (\<forall>v. v \<noteq> t \<longrightarrow> tables s' v = tables s v) \<and>
    (\<forall>n. open_count (inodes s' n) = open_count (inodes s n) - int (entries n (fd_array (tables s t))) \<and>
       ref_count (inodes s' n) = ref_count (inodes s n) - int (entries n (fd_array (tables s t))) - of_bool (pwd (tables s t) = Some n))"
proof -
  have "\<exists>s1. (case pwd (tables s t) of None \<Rightarrow> Some s | Some n \<Rightarrow> do { (_, s) \<leftarrow> inode_ref_dec D n s; Some s }) = Some s1 \<and>
    tables s1 = tables s \<and> (\<forall>n. open_count (inodes s1 n) = open_count (inodes s n) \<and>
      ref_count (inodes s1 n) = ref_count (inodes s n) - of_bool (pwd (tables s t) = Some n))"
  proof (cases "pwd (tables s t)")
    case (Some d)
    note p' = p[OF Some]
    have cd: "int (entries d (fd_array (tables s t))) \<le> open_count (inodes s d)" "ref_count (inodes s d) < MAX_INODE_COUNT"
      using c[unfolded counts_ok_def, rule_format, of d] p' by auto
    have "\<exists>s'. inode_ref_dec D d s = Some (ref_count (inodes s d) - 1, s') \<and> tables s' = tables s \<and>
      inodes s' = (inodes s)(d := (inodes s d)\<lparr>ref_count := ref_count (inodes s d) - 1\<rparr>)"
      by (rule ref_dec_ok) (use p' cd in auto)
    then show ?thesis using Some by auto
  qed simp
  then obtain s1 where s1: "(case pwd (tables s t) of None \<Rightarrow> Some s | Some n \<Rightarrow> do { (_, s) \<leftarrow> inode_ref_dec D n s; Some s }) = Some s1"
    "tables s1 = tables s" "\<And>n. open_count (inodes s1 n) = open_count (inodes s n)"
    "\<And>n. ref_count (inodes s1 n) = ref_count (inodes s n) - of_bool (pwd (tables s t) = Some n)" by blast
  have c1: "counts_ok D node t s1" unfolding counts_ok_def
  proof (intro allI impI)
    fix n assume "node n"
    then show "int (entries n (fd_array (tables s1 t))) \<le> open_count (inodes s1 n) \<and> open_count (inodes s1 n) \<le> ref_count (inodes s1 n) \<and>
        ref_count (inodes s1 n) < MAX_INODE_COUNT \<and> (op_reclaim D n \<noteq> None \<or> int (entries n (fd_array (tables s1 t))) < ref_count (inodes s1 n))"
      using c[unfolded counts_ok_def, rule_format, of n] p[of n] unfolding s1 by auto
  qed
  obtain s' where s': "destroy_loop D t [0 ..< FILES_STRUCT_NENTRY] s1 = Some s'" "array_wf node (fd_array (tables s' t))"
    "surplus t s' = surplus t s1" "\<forall>v. v \<noteq> t \<longrightarrow> tables s' v = tables s1 v" "\<forall>i < FILES_STRUCT_NENTRY. fstatus (entry t i s') = FD_NONE"
    using destroy_loop_ok[of s1 t "[0 ..< FILES_STRUCT_NENTRY]"] wf c1 s1(2) by auto
  have z': "entries n (fd_array (tables s' t)) = 0" for n using entries_none s'(2,5) by (auto simp: array_wf_def)
  have "open_count (inodes s' n) = open_count (inodes s n) - int (entries n (fd_array (tables s t))) \<and>
       ref_count (inodes s' n) = ref_count (inodes s n) - int (entries n (fd_array (tables s t))) - of_bool (pwd (tables s t) = Some n)" for n
    using fun_cong[OF s'(3), of n] by (simp add: surplus_def z' s1)
  moreover have "files_destroy D t s = Some s'" using z s1(1) s'(1) by (simp add: files_destroy_def)
  ultimately show ?thesis using s'(4) s1(2) by (intro exI[of _ s']) simp
qed

end

text \<open>C30: \<^verbatim>\<open>dup_files\<close> gives a forked process the same open descriptors (inode, position, permissions) and working
  directory, and accounts for each of them in the counts of its inode; \<^verbatim>\<open>files_destroy\<close>, run when the process
  exits, undoes this exactly: afterwards every count is what it was before the fork, and the table of the parent
  has not changed. Both return without panicking as long as no count reaches \<^verbatim>\<open>MAX_INODE_COUNT\<close>.\<close>

theorem fork_exit_files_round_trip:
  assumes drv: "inode_driver D node" and tu: "t \<noteq> u" and fr: "fresh_table (tables s t)"
    and wf: "array_wf node (fd_array (tables s u))" and c: "counts_ok D node u s" and fc: "0 < files_count (tables s u)"
    and room: "\<And>n. node n \<Longrightarrow> ref_count (inodes s n) + int FILES_STRUCT_NENTRY + 1 < MAX_INODE_COUNT"
    and p: "\<And>d. pwd (tables s u) = Some d \<Longrightarrow> node d"
  shows "\<exists>s1 s2. dup_files t u s = Some (0, s1) \<and> pwd (tables s1 t) = pwd (tables s u) \<and>
    (\<forall>i < FILES_STRUCT_NENTRY. let x = entry t i s1; y = entry u i s in fstatus x = fstatus y \<and>
       (fstatus y = FD_OPENED \<longrightarrow> fnode x = fnode y \<and> fpos x = fpos y \<and> readable x = readable y \<and> writable x = writable y)) \<and>
    (\<forall>n. open_count (inodes s1 n) = open_count (inodes s n) + int (entries n (fd_array (tables s u))) \<and>
       ref_count (inodes s1 n) = ref_count (inodes s n) + int (entries n (fd_array (tables s u))) + of_bool (pwd (tables s u) = Some n)) \<and>
    files_destroy D t s1 = Some s2 \<and> tables s2 u = tables s u \<and>
    (\<forall>n. open_count (inodes s2 n) = open_count (inodes s n) \<and> ref_count (inodes s2 n) = ref_count (inodes s n))"
proof -
  let ?e = "\<lambda>n. int (entries n (fd_array (tables s u)))"
  obtain s1 where s1: "dup_files t u s = Some (0, s1)" "tables s1 u = tables s u" "array_wf node (fd_array (tables s1 t))"
    "pwd (tables s1 t) = pwd (tables s u)" "files_count (tables s1 t) = 0"
    "\<forall>i < FILES_STRUCT_NENTRY. let x = entry t i s1; y = entry u i s in fstatus x = fstatus y \<and>
       (fstatus y = FD_OPENED \<longrightarrow> fnode x = fnode y \<and> fpos x = fpos y \<and> readable x = readable y \<and> writable x = writable y)"
    "\<And>n. open_count (inodes s1 n) = open_count (inodes s n) + ?e n"
    "\<And>n. ref_count (inodes s1 n) = ref_count (inodes s n) + ?e n + of_bool (pwd (tables s u) = Some n)"
    "\<And>n. entries n (fd_array (tables s1 t)) = entries n (fd_array (tables s u))" using dup_files_ok[OF tu fr wf fc] by blast
  have le: "?e n \<le> int FILES_STRUCT_NENTRY" for n using wf by (simp add: array_wf_def entries_def) (metis length_filter_le)
  note cu = c[unfolded counts_ok_def, rule_format]
  have c1: "counts_ok D node t s1" unfolding counts_ok_def
  proof (intro allI impI)
    fix n assume n: "node n"
    show "int (entries n (fd_array (tables s1 t))) \<le> open_count (inodes s1 n) \<and> open_count (inodes s1 n) \<le> ref_count (inodes s1 n) \<and>
        ref_count (inodes s1 n) < MAX_INODE_COUNT \<and> (op_reclaim D n \<noteq> None \<or> int (entries n (fd_array (tables s1 t))) < ref_count (inodes s1 n))"
      using cu[OF n] room[OF n] le[of n] unfolding s1 by auto
  qed
  have "\<exists>s2. files_destroy D t s1 = Some s2 \<and> (\<forall>v. v \<noteq> t \<longrightarrow> tables s2 v = tables s1 v) \<and>
    (\<forall>n. open_count (inodes s2 n) = open_count (inodes s1 n) - int (entries n (fd_array (tables s1 t))) \<and>
       ref_count (inodes s2 n) = ref_count (inodes s1 n) - int (entries n (fd_array (tables s1 t))) - of_bool (pwd (tables s1 t) = Some n))"
  proof (rule inode_driver.files_destroy_ok[OF drv s1(3) c1 s1(5)])
    fix d assume d: "pwd (tables s1 t) = Some d"
    then have "node d" using p s1(4) by simp
    from this cu[OF this] show "node d \<and> open_count (inodes s1 d) < ref_count (inodes s1 d) \<and>
      (op_reclaim D d \<noteq> None \<or> int (entries d (fd_array (tables s1 t))) + 1 < ref_count (inodes s1 d))"
      using d unfolding s1 by auto
  qed
  then show ?thesis using s1 tu by auto
qed

end
