(* ===== verification/Proc.thy ===== *)
theory Proc
  imports Sync Vmm File_Table
begin

text \<open>
  The life cycle of processes, \<^verbatim>\<open>src/kern/process/proc.c\<close>: kernel stacks, page directories, \<^verbatim>\<open>copy_mm\<close>,
  \<^verbatim>\<open>copy_thread\<close>, \<^verbatim>\<open>copy_files\<close>, \<^verbatim>\<open>do_fork\<close>, \<^verbatim>\<open>do_exit\<close>, \<^verbatim>\<open>do_wait\<close>, \<^verbatim>\<open>do_kill\<close>, \<^verbatim>\<open>do_yield\<close>, \<^verbatim>\<open>do_sleep\<close>
  and \<^verbatim>\<open>lab6_set_priority\<close>, with \<^verbatim>\<open>dup_mmap\<close> and \<^verbatim>\<open>exit_mmap\<close> of \<^verbatim>\<open>src/kern/mm/vmm.c\<close>. The state \<open>os\<close> joins the
  process table and the scheduler (theory \<open>Proc_Table\<close>) with physical memory (theory \<open>Page_Table\<close>), the address spaces (\<open>mms\<close>,
  numbered by the address of \<^verbatim>\<open>struct mm_struct\<close>) and the file state (theory \<open>File_Table\<close>). What \<^verbatim>\<open>kmalloc\<close> returns
  is an argument. \<^verbatim>\<open>do_exit\<close> ends in \<^verbatim>\<open>schedule\<close> and does not come back: its result is the state in which the
  next process runs. \<^verbatim>\<open>do_wait\<close> and \<^verbatim>\<open>do_sleep\<close> are split at their call of \<^verbatim>\<open>schedule\<close>.
\<close>

record 'f os = kernel +
  okmem :: kmem
  mms :: "nat \<Rightarrow> mm"
  ofs :: "'f fs_state_scheme"
  boot_cr3 :: "64 word"
  boot_pgdir :: nat

definition KSTACKPAGE :: nat where "KSTACKPAGE = 2"
definition KSTACKSIZE :: "64 word" where "KSTACKSIZE = 2 * PGSIZE"
definition CLONE_VM :: "32 word" where "CLONE_VM = 0x100"
definition CLONE_FS :: "32 word" where "CLONE_FS = 0x800"
definition va_pa_offset :: "64 word" where "va_pa_offset = 0xFFFFFFFF40000000"
definition PADDR :: "64 word \<Rightarrow> 64 word option" where
  "PADDR kva = do { kassert (KERNBASE \<le> kva); Some (kva - va_pa_offset) }"
definition kva2page :: "64 word \<Rightarrow> nat option" where
  "kva2page kva = do { pa \<leftarrow> PADDR kva; pa2page pa }"

text \<open>The address of a frame: \<^verbatim>\<open>page2kva\<close> where its value and not the memory behind it is used.\<close>

definition page_address :: "nat \<Rightarrow> 64 word" where "page_address page = page2pa page + va_pa_offset"

subsection \<open>Kernel stacks and page directories\<close>

definition setup_kstack :: "pptr \<Rightarrow> ('f, 'a) os_scheme \<Rightarrow> (int \<times> ('f, 'a) os_scheme) option" where
  "setup_kstack p s = do {
     (page, k) \<leftarrow> alloc_pages KSTACKPAGE (okmem s);
     let s = s\<lparr>okmem := k\<rparr>;
     case page of
       Some g \<Rightarrow> do { page2kva g; Some (0, upd p (\<lambda>x. x\<lparr>kstack := page_address g\<rparr>) s) }
     | None \<Rightarrow> Some (err E_NO_MEM, s) }"

definition put_kstack :: "pptr \<Rightarrow> ('f, 'a) os_scheme \<Rightarrow> ('f, 'a) os_scheme option" where
  "put_kstack p s = do {
     page \<leftarrow> kva2page (kstack (procs s p));
     k \<leftarrow> free_pages page KSTACKPAGE (okmem s);
     Some (s\<lparr>okmem := k\<rparr>) }"

definition upd_mm :: "nat \<Rightarrow> (mm \<Rightarrow> mm) \<Rightarrow> ('f, 'a) os_scheme \<Rightarrow> ('f, 'a) os_scheme" where
  "upd_mm m f s = s\<lparr>mms := (mms s)(m := f (mms s m))\<rparr>"

definition setup_pgdir :: "nat \<Rightarrow> ('f, 'a) os_scheme \<Rightarrow> (int \<times> ('f, 'a) os_scheme) option" where
  "setup_pgdir m s = do {
     (page, k) \<leftarrow> alloc_pages 1 (okmem s);
     case page of
       None \<Rightarrow> Some (err E_NO_MEM, s\<lparr>okmem := k\<rparr>)
     | Some g \<Rightarrow> do {
         d \<leftarrow> page2kva g;
         Some (0, upd_mm m (\<lambda>x. x\<lparr>pgdir := Some d\<rparr>) (s\<lparr>okmem := copy_frame d (boot_pgdir s) k\<rparr>)) } }"

definition put_pgdir :: "nat \<Rightarrow> ('f, 'a) os_scheme \<Rightarrow> ('f, 'a) os_scheme option" where
  "put_pgdir m s = do {
     d \<leftarrow> pgdir (mms s m);
     page \<leftarrow> kva2page (page_address d);
     k \<leftarrow> free_pages page 1 (okmem s);
     Some (s\<lparr>okmem := k\<rparr>) }"

subsection \<open>Address spaces\<close>

text \<open>\<open>oks\<close> says for each area whether \<^verbatim>\<open>kmalloc\<close> found memory for the copy.\<close>

fun dup_mmap_loop :: "bool list \<Rightarrow> vma list \<Rightarrow> nat \<Rightarrow> nat \<Rightarrow> ('f, 'a) os_scheme \<Rightarrow> (int \<times> ('f, 'a) os_scheme) option" where
  "dup_mmap_loop oks [] to from s = Some (0, s)"
| "dup_mmap_loop oks (v # vs) to from s =
     (case vma_create (oks \<noteq> [] \<and> hd oks) (vm_start v) (vm_end v) (vm_flags v) of
        None \<Rightarrow> Some (err E_NO_MEM, s)
      | Some nvma \<Rightarrow> do {
          m \<leftarrow> insert_vma_struct nvma (mms s to);
          let s = upd_mm to (\<lambda>_. m) s;
          d \<leftarrow> pgdir (mms s to);
          d' \<leftarrow> pgdir (mms s from);
          (r, k) \<leftarrow> copy_range d d' (vm_start v) (vm_end v) (okmem s);
          let s = s\<lparr>okmem := k\<rparr>;
          if r \<noteq> Inr () then Some (err E_NO_MEM, s) else dup_mmap_loop (tl oks) vs to from s })"

definition dup_mmap :: "bool list \<Rightarrow> nat \<Rightarrow> nat \<Rightarrow> ('f, 'a) os_scheme \<Rightarrow> (int \<times> ('f, 'a) os_scheme) option" where
  "dup_mmap oks to from s = dup_mmap_loop oks (rev (mmap_list (mms s from))) to from s"

fun range_loop :: "(nat \<Rightarrow> 64 word \<Rightarrow> 64 word \<Rightarrow> kmem \<Rightarrow> kmem option) \<Rightarrow> nat \<Rightarrow> vma list \<Rightarrow> kmem \<Rightarrow> kmem option" where
  "range_loop f d [] k = Some k"
| "range_loop f d (v # vs) k = do { k \<leftarrow> f d (vm_start v) (vm_end v) k; range_loop f d vs k }"

definition exit_mmap :: "nat \<Rightarrow> ('f, 'a) os_scheme \<Rightarrow> ('f, 'a) os_scheme option" where
  "exit_mmap m s = do {
     kassert (mm_count (mms s m) = 0);
     d \<leftarrow> pgdir (mms s m);
     k \<leftarrow> range_loop unmap_range d (mmap_list (mms s m)) (okmem s);
     k \<leftarrow> range_loop exit_range d (mmap_list (mms s m)) k;
     Some (s\<lparr>okmem := k\<rparr>) }"

text \<open>\<open>blk\<close> is the new \<^verbatim>\<open>mm_struct\<close>.\<close>

definition copy_mm_done :: "nat \<Rightarrow> pptr \<Rightarrow> ('f, 'a) os_scheme \<Rightarrow> (int \<times> ('f, 'a) os_scheme) option" where
  "copy_mm_done m p s = do {
     let s = upd_mm m mm_count_inc s;
     let s = upd p (\<lambda>x. x\<lparr>proc_mm := Some m\<rparr>) s;
     d \<leftarrow> pgdir (mms s m);
     pa \<leftarrow> PADDR (page_address d);
     Some (0, upd p (\<lambda>x. x\<lparr>cr3 := pa\<rparr>) s) }"

definition copy_mm :: "nat option \<Rightarrow> bool list \<Rightarrow> 32 word \<Rightarrow> pptr \<Rightarrow> ('f, 'a) os_scheme \<Rightarrow> (int \<times> ('f, 'a) os_scheme) option" where
  "copy_mm blk oks clone_flags p s = (case proc_mm (procs s (current s)) of
       None \<Rightarrow> Some (0, s)
     | Some oldmm \<Rightarrow>
         if clone_flags AND CLONE_VM \<noteq> 0 then copy_mm_done oldmm p s
         else (case (blk, mm_create (blk \<noteq> None)) of
           (Some m, Some fresh) \<Rightarrow> do {
             (ret, s) \<leftarrow> setup_pgdir m (upd_mm m (\<lambda>_. fresh) s);
             if ret \<noteq> 0 then do { mm_destroy (mms s m); Some (err E_NO_MEM, s) }
             else do {
               (ret, s) \<leftarrow> dup_mmap oks m oldmm s;
               if ret \<noteq> 0 then do {
                 s \<leftarrow> exit_mmap m s;
                 s \<leftarrow> put_pgdir m s;
                 mm_destroy (mms s m);
                 Some (ret, s) }
               else copy_mm_done m p s } }
         | _ \<Rightarrow> Some (err E_NO_MEM, s)))"

subsection \<open>Threads and files\<close>

text \<open>The trap frame is on top of the kernel stack, 36 words; \<open>forkret\<close> is the address of that function.\<close>

definition copy_thread :: "64 word \<Rightarrow> pptr \<Rightarrow> 64 word \<Rightarrow> trapframe \<Rightarrow> ('f, 'a) os_scheme \<Rightarrow> ('f, 'a) os_scheme" where
  "copy_thread forkret p esp tf s =
     (let tfa = kstack (procs s p) + KSTACKSIZE - 36 * 8;
          t = tf\<lparr>gpr := (gpr tf)(A0 := 0, Sp := if esp = 0 then tfa else esp)\<rparr> in
      upd p (\<lambda>x. x\<lparr>proc_tf := Some t, pcontext := (pcontext x)\<lparr>ctx_ra := forkret, ctx_sp := tfa\<rparr>\<rparr>) s)"

definition add_files_count :: "int \<Rightarrow> nat \<Rightarrow> 'f fs_state_scheme \<Rightarrow> 'f fs_state_scheme" where
  "add_files_count d t f = f\<lparr>tables := (fs_state.tables f)(t := (fs_state.tables f t)\<lparr>files_count := files_count (fs_state.tables f t) + d\<rparr>)\<rparr>"

definition copy_files ::
  "'f fs_state_scheme drv \<Rightarrow> nat option \<Rightarrow> 32 word \<Rightarrow> pptr \<Rightarrow> ('f, 'a) os_scheme \<Rightarrow> (int \<times> ('f, 'a) os_scheme) option" where
  "copy_files D blk clone_flags p s = do {
     old \<leftarrow> filesp (procs s (current s));
     if clone_flags AND CLONE_FS \<noteq> 0
     then Some (0, upd p (\<lambda>x. x\<lparr>filesp := Some old\<rparr>) (s\<lparr>ofs := add_files_count 1 old (ofs s)\<rparr>))
     else (case files_create blk (ofs s) of
         (None, f) \<Rightarrow> Some (err E_NO_MEM, s\<lparr>ofs := f\<rparr>)
       | (Some t, f) \<Rightarrow> do {
           (ret, f) \<leftarrow> dup_files t old f;
           if ret \<noteq> 0 then do { f \<leftarrow> files_destroy D t f; Some (ret, s\<lparr>ofs := f\<rparr>) }
           else Some (0, upd p (\<lambda>x. x\<lparr>filesp := Some t\<rparr>) (s\<lparr>ofs := add_files_count 1 t f\<rparr>)) }) }"

definition put_files :: "'f fs_state_scheme drv \<Rightarrow> pptr \<Rightarrow> ('f, 'a) os_scheme \<Rightarrow> ('f, 'a) os_scheme option" where
  "put_files D p s = (case filesp (procs s p) of
       None \<Rightarrow> Some s
     | Some t \<Rightarrow> do {
         let f = add_files_count (-1) t (ofs s);
         f \<leftarrow> (if files_count (fs_state.tables f t) = 0 then files_destroy D t f else Some f);
         Some (s\<lparr>ofs := f\<rparr>) })"

subsection \<open>do_fork\<close>

text \<open>The blocks \<^verbatim>\<open>kmalloc\<close> returns during a fork: the process, the \<^verbatim>\<open>mm_struct\<close>, one flag per copied area and
  the file table.\<close>

record fork_blocks =
  fb_proc :: "pptr option"
  fb_mm :: "nat option"
  fb_vmas :: "bool list"
  fb_files :: "nat option"

text \<open>The labels of \<^verbatim>\<open>do_fork\<close>; \<^verbatim>\<open>bad_fork_cleanup_fs\<close> is not reached by any \<^verbatim>\<open>goto\<close>. \<^verbatim>\<open>ret\<close> is still
  \<open>E_NO_MEM\<close> there.\<close>

definition fork_cleanup_kstack :: "pptr \<Rightarrow> ('f, 'a) os_scheme \<Rightarrow> (int \<times> ('f, 'a) os_scheme) option" where
  "fork_cleanup_kstack p s = do { s \<leftarrow> put_kstack p s; Some (err E_NO_MEM, s) }"

definition fork_register :: "pptr \<Rightarrow> ('f, 'a) os_scheme \<Rightarrow> ('f, 'a) os_scheme option" where
  "fork_register p s = do {
     (i, s) \<leftarrow> get_pid s;
     set_links p (hash_proc p (upd p (\<lambda>x. x\<lparr>pid := i\<rparr>) s)) }"

definition do_fork ::
  "'f fs_state_scheme drv \<Rightarrow> 64 word \<Rightarrow> fork_blocks \<Rightarrow> 32 word \<Rightarrow> 64 word \<Rightarrow> trapframe \<Rightarrow> ('f, 'a) os_scheme \<Rightarrow>
   (int \<times> ('f, 'a) os_scheme) option" where
  "do_fork D forkret B clone_flags stack tf s =
     (if nr_process s \<ge> MAX_PROCESS then Some (err E_NO_FREE_PROC, s)
      else case alloc_proc (fb_proc B) (boot_cr3 s) s of
        (None, s) \<Rightarrow> Some (err E_NO_MEM, s)
      | (Some p, s) \<Rightarrow> do {
          let s = upd p (\<lambda>x. x\<lparr>proc_parent := Some (current s)\<rparr>) s;
          kassert (wait_state (procs s (current s)) = 0);
          (ret, s) \<leftarrow> setup_kstack p s;
          if ret = err E_NO_MEM then Some (err E_NO_MEM, s)
          else do {
            (ret, s) \<leftarrow> copy_mm (fb_mm B) (fb_vmas B) clone_flags p s;
            if ret \<noteq> 0 then fork_cleanup_kstack p s
            else do {
              (ret, s) \<leftarrow> copy_files D (fb_files B) clone_flags p s;
              if ret \<noteq> 0 then fork_cleanup_kstack p s
              else do {
                let s = copy_thread forkret p stack tf s;
                s \<leftarrow> fork_register p s;
                s \<leftarrow> wakeup_proc p s;
                Some (pid (procs s p), s) } } } })"

text \<open>\<^verbatim>\<open>kernel_thread\<close>: \<open>sstatus\<close> is the value of the register, \<open>kentry\<close> the address of \<^verbatim>\<open>kernel_thread_entry\<close>.\<close>

definition SSTATUS_SIE :: "64 word" where "SSTATUS_SIE = 2"
definition SSTATUS_SPIE :: "64 word" where "SSTATUS_SPIE = 0x20"
definition SSTATUS_SPP :: "64 word" where "SSTATUS_SPP = 0x100"

definition kernel_thread ::
  "'f fs_state_scheme drv \<Rightarrow> 64 word \<Rightarrow> 64 word \<Rightarrow> 64 word \<Rightarrow> fork_blocks \<Rightarrow> 64 word \<Rightarrow> 64 word \<Rightarrow> 32 word \<Rightarrow> ('f, 'a) os_scheme \<Rightarrow>
   (int \<times> ('f, 'a) os_scheme) option" where
  "kernel_thread D forkret kentry sstatus B fn arg clone_flags s =
     do_fork D forkret B (clone_flags OR CLONE_VM) 0
       \<lparr>gpr = (\<lambda>_. 0)(S0 := fn, S1 := arg), tf_status = (sstatus OR SSTATUS_SPP OR SSTATUS_SPIE) AND NOT SSTATUS_SIE,
        epc = kentry, tval = 0, cause = 0\<rparr> s"

subsection \<open>do_exit\<close>

text \<open>The loop that gives the children to \<^verbatim>\<open>initproc\<close>, and the links of one of them.\<close>

definition reparent_one :: "pptr \<Rightarrow> ('f, 'a) os_scheme \<Rightarrow> ('f, 'a) os_scheme" where
  "reparent_one p s =
     (let ini = initproc s;
          s = upd (current s) (\<lambda>x. x\<lparr>cptr := optr (procs s p)\<rparr>) s;
          s = upd p (\<lambda>x. x\<lparr>yptr := None\<rparr>) s;
          s = upd p (\<lambda>x. x\<lparr>optr := cptr (procs s ini)\<rparr>) s;
          s = (case optr (procs s p) of None \<Rightarrow> s | Some c \<Rightarrow> upd c (\<lambda>x. x\<lparr>yptr := Some p\<rparr>) s);
          s = upd p (\<lambda>x. x\<lparr>proc_parent := Some ini\<rparr>) s in
      upd ini (\<lambda>x. x\<lparr>cptr := Some p\<rparr>) s)"

partial_function (option) reparent_loop :: "('f, 'a) os_scheme \<Rightarrow> ('f, 'a) os_scheme option" where
  "reparent_loop s = (case cptr (procs s (current s)) of
       None \<Rightarrow> Some s
     | Some p \<Rightarrow> do {
         let s = reparent_one p s;
         s \<leftarrow> (if pstate (procs s p) = PROC_ZOMBIE \<and> wait_state (procs s (initproc s)) = WT_CHILD
              then wakeup_proc (initproc s) s else Some s);
         reparent_loop s })"

declare reparent_loop.simps [code]

definition exit_mm :: "'f fs_state_scheme drv \<Rightarrow> ('f, 'a) os_scheme \<Rightarrow> ('f, 'a) os_scheme option" where
  "exit_mm D s = (case proc_mm (procs s (current s)) of
       None \<Rightarrow> Some s
     | Some m \<Rightarrow> do {
         let s = s\<lparr>satp := boot_cr3 s\<rparr>;
         let s = upd_mm m mm_count_dec s;
         s \<leftarrow> (if mm_count (mms s m) = 0 then do {
             s \<leftarrow> exit_mmap m s;
             s \<leftarrow> put_pgdir m s;
             mm_destroy (mms s m);
             Some s }
           else Some s);
         let s = upd (current s) (\<lambda>x. x\<lparr>proc_mm := None\<rparr>) s;
         put_files D (current s) s })"

text \<open>\<open>exit_links\<close> is the critical section.\<close>

definition exit_links :: "('f, 'a) os_scheme \<Rightarrow> ('f, 'a) os_scheme option" where
  "exit_links s = do {
     q \<leftarrow> proc_parent (procs s (current s));
     s \<leftarrow> (if wait_state (procs s q) = WT_CHILD then wakeup_proc q s else Some s);
     reparent_loop s }"

definition do_exit :: "'f fs_state_scheme drv \<Rightarrow> int \<Rightarrow> ('f, 'a) os_scheme \<Rightarrow> ('f, 'a) os_scheme option" where
  "do_exit D error_code s = do {
     kassert (current s \<noteq> idleproc s);
     kassert (current s \<noteq> initproc s);
     s \<leftarrow> exit_mm D s;
     let s = upd (current s) (\<lambda>x. x\<lparr>pstate := PROC_ZOMBIE, exit_code := error_code\<rparr>) s;
     s \<leftarrow> exit_links s;
     schedule s }"

subsection \<open>do_wait\<close>

partial_function (option) zombie_scan :: "(pptr \<Rightarrow> proc_struct) \<Rightarrow> pptr option \<Rightarrow> bool \<Rightarrow> (bool \<times> pptr option) option" where
  "zombie_scan P po h = (case po of None \<Rightarrow> Some (h, None)
     | Some p \<Rightarrow> if pstate (P p) = PROC_ZOMBIE then Some (True, Some p) else zombie_scan P (optr (P p)) True)"

declare zombie_scan.simps [code]

text \<open>Whether the caller has a child of the kind it waits for, and a zombie among them.\<close>

definition find_zombie :: "int \<Rightarrow> ('f, 'a) os_scheme \<Rightarrow> (bool \<times> pptr option) option" where
  "find_zombie i s =
     (if i \<noteq> 0 then
        (case find_proc i s of
           Some p \<Rightarrow> Some (if proc_parent (procs s p) = Some (current s)
             then (True, if pstate (procs s p) = PROC_ZOMBIE then Some p else None) else (False, None))
         | None \<Rightarrow> Some (False, None))
      else zombie_scan (procs s) (cptr (procs s (current s))) False)"

text \<open>Freeing the zombie; the exit code is what is stored for the caller.\<close>

definition wait_reap :: "pptr \<Rightarrow> ('f, 'a) os_scheme \<Rightarrow> (int \<times> ('f, 'a) os_scheme) option" where
  "wait_reap p s = do {
     kassert (p \<noteq> idleproc s \<and> p \<noteq> initproc s);
     let code = exit_code (procs s p);
     s \<leftarrow> remove_links p (unhash_proc p s);
     s \<leftarrow> put_kstack p s;
     Some (code, s) }"

text \<open>From the label \<^verbatim>\<open>repeat\<close> to the next call of \<^verbatim>\<open>schedule\<close>: an error, the exit code of the child that is gone,
  or \<open>None\<close> for a caller that sleeps now.\<close>

definition do_wait_repeat :: "int \<Rightarrow> ('f, 'a) os_scheme \<Rightarrow> ((int + int) option \<times> ('f, 'a) os_scheme) option" where
  "do_wait_repeat i s = do {
     (haskid, z) \<leftarrow> find_zombie i s;
     case z of
       Some p \<Rightarrow> do { (code, s) \<leftarrow> wait_reap p s; Some (Some (Inr code), s) }
     | None \<Rightarrow>
         if haskid then do {
           let s = upd (current s) (\<lambda>x. x\<lparr>pstate := PROC_SLEEPING, wait_state := WT_CHILD\<rparr>) s;
           s \<leftarrow> schedule s;
           Some (None, s) }
         else Some (Some (Inl (err E_BAD_PROC)), s) }"

text \<open>\<open>store\<close> is the user address for the exit code, \<open>None\<close> for NULL.\<close>

definition do_wait :: "int \<Rightarrow> 64 word option \<Rightarrow> ('f, 'a) os_scheme \<Rightarrow> ((int + int) option \<times> ('f, 'a) os_scheme) option" where
  "do_wait i store s = (case store of
       None \<Rightarrow> do_wait_repeat i s
     | Some a \<Rightarrow>
         (case proc_mm (procs s (current s)) of
            None \<Rightarrow> if fst (user_mem_check None a 4 True) then do_wait_repeat i s else Some (Some (Inl (err E_INVAL)), s)
          | Some m \<Rightarrow> (case user_mem_check (Some (mms s m)) a 4 True of
                (ok, m') \<Rightarrow> do {
                  x \<leftarrow> m';
                  let s = upd_mm m (\<lambda>_. x) s;
                  if ok then do_wait_repeat i s else Some (Some (Inl (err E_INVAL)), s) })))"

text \<open>After \<^verbatim>\<open>schedule\<close>; the exit of a killed caller has no result.\<close>

definition do_wait_resume ::
  "'f fs_state_scheme drv \<Rightarrow> int \<Rightarrow> ('f, 'a) os_scheme \<Rightarrow> ((int + int) option \<times> ('f, 'a) os_scheme) option" where
  "do_wait_resume D i s =
     (if proc_struct.flags (procs s (current s)) AND PF_EXITING \<noteq> 0 then do { s \<leftarrow> do_exit D (err E_KILLED) s; Some (None, s) }
      else do_wait_repeat i s)"

subsection \<open>The other calls\<close>

definition do_yield :: "('f, 'a) os_scheme \<Rightarrow> int \<times> ('f, 'a) os_scheme" where
  "do_yield s = (0, upd (current s) (\<lambda>x. x\<lparr>need_resched := True\<rparr>) s)"

definition do_kill :: "int \<Rightarrow> ('f, 'a) os_scheme \<Rightarrow> (int \<times> ('f, 'a) os_scheme) option" where
  "do_kill i s = (case find_proc i s of
       Some p \<Rightarrow>
         if proc_struct.flags (procs s p) AND PF_EXITING = 0 then do {
           let s = upd p (\<lambda>x. x\<lparr>proc_struct.flags := proc_struct.flags x OR PF_EXITING\<rparr>) s;
           s \<leftarrow> (if wait_state (procs s p) AND WT_INTERRUPTED \<noteq> 0 then wakeup_proc p s else Some s);
           Some (0, s) }
         else Some (err E_KILLED, s)
     | None \<Rightarrow> Some (err E_INVAL, s))"

definition lab6_set_priority :: "32 word \<Rightarrow> ('f, 'a) os_scheme \<Rightarrow> ('f, 'a) os_scheme" where
  "lab6_set_priority priority s = upd (current s) (\<lambda>x. x\<lparr>lab6_priority := if priority = 0 then 1 else priority\<rparr>) s"

text \<open>\<^verbatim>\<open>do_sleep\<close> up to \<^verbatim>\<open>schedule\<close>, with the timer \<open>t\<close> on its stack, and the rest.\<close>

definition do_sleep :: "nat \<Rightarrow> nat \<Rightarrow> ('f, 'a) os_scheme \<Rightarrow> (int option \<times> ('f, 'a) os_scheme) option" where
  "do_sleep t time s =
     (if time = 0 then Some (Some 0, s)
      else do {
        let s = timer_init t (current s) time s;
        let s = upd (current s) (\<lambda>x. x\<lparr>pstate := PROC_SLEEPING, wait_state := WT_TIMER\<rparr>) s;
        s \<leftarrow> add_timer t s;
        s \<leftarrow> schedule s;
        Some (None, s) })"

definition do_sleep_resume :: "nat \<Rightarrow> ('f, 'a) os_scheme \<Rightarrow> int \<times> ('f, 'a) os_scheme" where
  "do_sleep_resume t s = (0, del_timer t s)"

subsection \<open>What the invariants depend on\<close>

lemma ptree_cong_on:
  assumes "\<And>x. x \<in> insert root (set l) \<Longrightarrow>
    proc_parent (P' x) = proc_parent (P x) \<and> cptr (P' x) = cptr (P x) \<and> yptr (P' x) = yptr (P x) \<and> optr (P' x) = optr (P x)"
  shows "ptree P' root l = ptree P root l"
proof -
  have k: "kids P' r xs = kids P r xs" if "r \<in> insert root (set l)" "set xs \<subseteq> set l" for r xs
    using kids_cong[of xs P' P r] assms that by blast
  have c: "children P' l r = children P l r" for r using assms by (auto simp: children_def)
  have "(\<exists>xs. kids P' r xs \<and> distinct xs \<and> set xs = children P' l r) = (\<exists>xs. kids P r xs \<and> distinct xs \<and> set xs = children P l r)"
    if r: "r \<in> insert root (set l)" for r
  proof -
    have "kids P' r xs = kids P r xs" if "set xs = children P l r" for xs using k[OF r] that by (auto simp: children_def)
    then show ?thesis unfolding c by blast
  qed
  then show ?thesis using assms by (simp add: ptree_def)
qed

text \<open>Members the process table reads.\<close>

definition table_eq :: "'a kernel_scheme \<Rightarrow> 'a kernel_scheme \<Rightarrow> bool" where
  "table_eq s s' \<longleftrightarrow> proc_list s' = proc_list s \<and> hash_list s' = hash_list s \<and> nr_process s' = nr_process s \<and>
     last_pid s' = last_pid s \<and> next_safe s' = next_safe s \<and> idleproc s' = idleproc s \<and>
     (\<forall>x \<in> insert (idleproc s) (set (proc_list s)). pid (procs s' x) = pid (procs s x) \<and> proc_parent (procs s' x) = proc_parent (procs s x) \<and>
        cptr (procs s' x) = cptr (procs s x) \<and> yptr (procs s' x) = yptr (procs s x) \<and> optr (procs s' x) = optr (procs s x))"

lemma table_ok_eq: assumes "table_eq s s'" "table_ok s" shows "table_ok s'"
proof -
  have p: "ptree (procs s') (idleproc s') (proc_list s') = ptree (procs s) (idleproc s) (proc_list s)"
  proof -
    have "ptree (procs s') (idleproc s) (proc_list s) = ptree (procs s) (idleproc s) (proc_list s)"
      by (rule ptree_cong_on) (use assms(1) in \<open>auto simp: table_eq_def\<close>)
    then show ?thesis using assms(1) by (simp add: table_eq_def)
  qed
  have pd: "map (\<lambda>p. pid (procs s' p)) (proc_list s') = map (\<lambda>p. pid (procs s p)) (proc_list s)"
    using assms(1) by (simp add: table_eq_def)
  have "{p \<in> set (proc_list s). pid_hashfn (pid (procs s' p)) = i} = {p \<in> set (proc_list s). pid_hashfn (pid (procs s p)) = i}" for i
    using assms(1) by (auto simp: table_eq_def)
  then have "hash_ok s'" using assms by (simp add: table_ok_def hash_ok_def table_eq_def)
  then show ?thesis using assms unfolding table_ok_def pid_window_def p pd by (auto simp: table_eq_def)
qed

lemma core_table_eq:
  assumes "kstate.more s' = kstate.more s" "idleproc s' = idleproc s" "\<And>x. core (procs s' x) = core (procs s x)"
  shows "table_eq s s'"
proof -
  have "proc_list s' = proc_list s \<and> hash_list s' = hash_list s \<and> nr_process s' = nr_process s \<and> last_pid s' = last_pid s \<and> next_safe s' = next_safe s"
    using assms(1) by (cases s; cases s') simp
  then show ?thesis using assms(2) core_eqD(2,4,13,14,15)[OF assms(3)] by (simp add: table_eq_def)
qed

text \<open>The scheduler reads only these members of the processes.\<close>

lemma sched_ok_keep:
  assumes "sched_ok s" "nodes s' = nodes s" "rq s' = rq s" "current s' = current s" "idleproc s' = idleproc s"
    "\<And>p. on_rq (procs s' p) = on_rq (procs s p) \<and> time_slice (procs s' p) = time_slice (procs s p) \<and> pstate (procs s' p) = pstate (procs s p)"
  shows "sched_ok s'"
proof -
  obtain t where t: "sched_at t s" using assms(1) by (auto simp: sched_ok_def)
  have "rq_ok t s'" using t rq_ok_cong[of t s s'] assms by (simp add: sched_at_def)
  moreover have "runnable s' = runnable s" using assms by (simp add: runnable_def)
  ultimately show ?thesis using t assms by (auto simp: sched_at_def sched_ok_def)
qed

text \<open>A block that is not in use can become a process that does not run yet.\<close>

lemma sched_ok_fresh:
  assumes s: "sched_ok s" and p: "pstate (procs s p) \<noteq> PROC_RUNNABLE" "p \<noteq> current s"
    and e: "rq s' = rq s" "current s' = current s" "idleproc s' = idleproc s" "\<And>x. x \<noteq> p \<Longrightarrow> nodes s' x = nodes s x"
    "\<And>x. x \<noteq> p \<Longrightarrow> procs s' x = procs s x" "pstate (procs s' p) \<noteq> PROC_RUNNABLE" "0 \<le> time_slice (procs s' p)"
  shows "sched_ok s'"
proof -
  obtain t where t: "sched_at t s" using s by (auto simp: sched_ok_def)
  have r: "runnable s' = runnable s" using p e unfolding runnable_def by (metis (mono_tags, lifting))
  have np: "p \<notin> set_tree t" using t p by (auto simp: sched_at_def runnable_def)
  have "sk (nodes s') t = sk (nodes s) t" using np e(4) by (intro sk_frame) metis
  moreover have "child_root (nodes s') None t = child_root (nodes s) None t"
    using np e(4) by (cases t) (auto simp: child_root_def)
  moreover have "procs s' x = procs s x" if "x \<in> set_tree t" for x using that np e(5) by metis
  ultimately have "rq_ok t s'" using t e(1) by (simp add: sched_at_def rq_ok_def)
  moreover have "0 \<le> time_slice (procs s' x)" for x using t e(5,7) by (cases "x = p") (auto simp: sched_at_def)
  ultimately show ?thesis using t r e by (auto simp: sched_ok_def sched_at_def)
qed

subsection \<open>Giving the children away\<close>

text \<open>During the loop the children of \<open>c\<close> are \<open>zs\<close>; the first one points back to a child that is gone.\<close>

definition orphans :: "(pptr \<Rightarrow> proc_struct) \<Rightarrow> pptr \<Rightarrow> pptr list \<Rightarrow> pptr \<Rightarrow> pptr list \<Rightarrow> bool" where
  "orphans P root l c zs \<longleftrightarrow> distinct l \<and> root \<notin> set l \<and>
     (\<forall>x \<in> set l. \<exists>r \<in> insert root (set l). proc_parent (P x) = Some r) \<and>
     (\<forall>r \<in> insert root (set l) - {c}. \<exists>xs. kids P r xs \<and> distinct xs \<and> set xs = children P l r) \<and>
     (\<exists>y z. kseg P (cptr (P c)) y zs None z) \<and> distinct zs \<and> set zs = children P l c"

lemma ptree_orphans:
  assumes "ptree P root l" "c \<in> insert root (set l)" obtains zs where "orphans P root l c zs"
proof -
  obtain zs where zs: "kids P c zs" "distinct zs" "set zs = children P l c" using ptreeD[OF assms] .
  then have "orphans P root l c zs" using assms(1) by (auto simp: orphans_def ptree_def kids_def)
  then show ?thesis using that by blast
qed

lemma orphans_ptree: assumes "orphans P root l c []" shows "ptree P root l"
proof -
  have "kids P c []" "children P l c = {}" using assms by (auto simp: orphans_def kids_def)
  then have "\<exists>xs. kids P r xs \<and> distinct xs \<and> set xs = children P l r" if "r \<in> insert root (set l)" for r
    using assms that by (cases "r = c") (auto simp: orphans_def intro: exI[of _ "[]"])
  then show ?thesis using assms by (simp add: ptree_def orphans_def)
qed

lemma orphans_step:
  assumes o: "orphans P root l c (x # zs)" and i: "ini \<in> insert root (set l)" "ini \<noteq> c" "x \<noteq> ini" "x \<noteq> c"
    and p1: "P1 = P(c := (P c)\<lparr>cptr := optr (P x)\<rparr>)" and ln: "link_in x ini P1 P'"
  shows "orphans P' root l c zs" "children P' l ini = insert x (children P l ini)"
    "r \<noteq> c \<Longrightarrow> r \<noteq> ini \<Longrightarrow> children P' l r = children P l r"
proof -
  have x: "x \<in> set l" "proc_parent (P x) = Some c" "x \<notin> set zs" using o by (auto simp: orphans_def children_def)
  have par: "proc_parent (P' y) = (if y = x then Some ini else proc_parent (P y))" for y
    using ln by (simp add: link_in_def p1)
  have ch: "children P' l r = (if r = ini then insert x (children P l ini) else children P l r - {x})" for r
    using x(1,2) i(2) by (auto simp: children_def par)
  show "children P' l ini = insert x (children P l ini)" by (simp add: ch)
  have nr: "x \<notin> children P l r" if "r \<noteq> c" for r using x(2) that by (simp add: children_def)
  then show "r \<noteq> c \<Longrightarrow> r \<noteq> ini \<Longrightarrow> children P' l r = children P l r" by (simp add: ch)
  have k1: "kids P1 r ys = kids P r ys" if "r \<noteq> c" for r ys using that by (intro kids_cong) (auto simp: p1)
  have oth: "\<exists>xs. kids P r xs \<and> distinct xs \<and> set xs = children P l r" if "r \<in> insert root (set l)" "r \<noteq> c" for r
    using o that by (simp add: orphans_def)
  obtain ys where ys: "kids P ini ys" "distinct ys" "set ys = children P l ini" using oth i(1,2) by blast
  have ci: "cptr (P1 ini) = cptr (P ini)" using i(2) by (simp add: p1)
  have first: "y \<in> children P l ini" if "cptr (P ini) = Some y" for y using kids_first[OF ys(1) that] ys(3) by simp
  have "\<exists>xs. kids P' r xs \<and> distinct xs \<and> set xs = children P' l r" if r: "r \<in> insert root (set l) - {c}" for r
  proof (cases "r = ini")
    case True
    have "kids P' ini (x # ys)" by (rule link_in_kids[OF ln]) (use ys k1 i nr in \<open>auto\<close>)
    then show ?thesis using True ys nr[OF i(2)] ch by (intro exI[of _ "x # ys"]) auto
  next
    case False
    obtain xs where xs: "kids P r xs" "distinct xs" "set xs = children P l r" using oth r by blast
    have "kids P' r xs"
      by (rule link_in_other[OF ln]) (use xs k1 r nr False first ci in \<open>auto simp: children_def\<close>)
    then show ?thesis using xs ch False nr r by (intro exI[of _ xs]) auto
  qed
  moreover have "\<exists>y z. kseg P' (cptr (P' c)) y zs None z"
  proof -
    obtain y z where z: "kseg P (cptr (P c)) y (x # zs) None z" using o by (auto simp: orphans_def)
    have "kseg P' (optr (P x)) (Some x) zs None z = kseg P (optr (P x)) (Some x) zs None z"
    proof (rule kseg_cong)
      fix v assume v: "v \<in> set zs"
      then have "v \<noteq> x" "v \<notin> children P l ini" using o i(2) by (auto simp: orphans_def children_def)
      then show "yptr (P' v) = yptr (P v) \<and> optr (P' v) = optr (P v)" using ln ci first by (auto simp: link_in_def p1)
    qed
    moreover have "cptr (P' c) = optr (P x)" using ln i by (simp add: link_in_def p1)
    ultimately show ?thesis using z by auto
  qed
  moreover have "\<exists>r \<in> insert root (set l). proc_parent (P' y) = Some r" if "y \<in> set l" for y
    using o i(1) that by (auto simp: orphans_def par)
  ultimately show "orphans P' root l c zs" using o ch i(2) by (auto simp: orphans_def)
qed

lemma orphans_cong:
  assumes "\<And>x. proc_parent (P' x) = proc_parent (P x) \<and> cptr (P' x) = cptr (P x) \<and> yptr (P' x) = yptr (P x) \<and> optr (P' x) = optr (P x)"
  shows "orphans P' root l c zs = orphans P root l c zs"
proof -
  have "kids P' r xs = kids P r xs" "kseg P' a y xs b z = kseg P a y xs b z" for r xs a y b z
    using kids_cong[of xs P' P r] kseg_cong[of xs P' P a y b z] assms by blast+
  moreover have "children P' l r = children P l r" for r using assms by (simp add: children_def)
  ultimately show ?thesis using assms by (simp add: orphans_def)
qed

text \<open>A process without its links and the members of the scheduler.\<close>

definition bare :: "proc_struct \<Rightarrow> proc_struct" where
  "bare x = (core (nolinks x))\<lparr>proc_parent := None\<rparr>"

lemma bare_simps:
  "pstate (bare x) = pstate x" "pid (bare x) = pid x" "kstack (bare x) = kstack x" "proc_mm (bare x) = proc_mm x" "cr3 (bare x) = cr3 x"
  "exit_code (bare x) = exit_code x" "wait_state (bare x) = wait_state x" "filesp (bare x) = filesp x" "proc_tf (bare x) = proc_tf x"
  "proc_struct.flags (bare x) = proc_struct.flags x"
  by (simp_all add: bare_def core_def nolinks_def)

lemma bare_eqD:
  assumes "bare x = bare y"
  shows "pstate x = pstate y" "pid x = pid y" "kstack x = kstack y" "proc_mm x = proc_mm y" "exit_code x = exit_code y"
    "wait_state x = wait_state y" "filesp x = filesp y" "proc_struct.flags x = proc_struct.flags y"
  using assms bare_simps by metis+

lemma bare_core: "core x = core y \<Longrightarrow> bare x = bare y"
  by (cases x; cases y) (simp add: bare_def core_def nolinks_def)

lemma bare_links [simp]:
  "bare (x\<lparr>cptr := v\<rparr>) = bare x" "bare (x\<lparr>yptr := v\<rparr>) = bare x" "bare (x\<lparr>optr := v\<rparr>) = bare x" "bare (x\<lparr>proc_parent := v\<rparr>) = bare x"
  by (simp_all add: bare_def core_def nolinks_def)

lemma bare_woken: "bare x = bare y \<Longrightarrow> bare (woken x) = bare (woken y)"
  using bare_eqD(1)[of x y] by (cases x; cases y) (simp add: bare_def core_def nolinks_def woken_def)

lemma bare_if: "bare x = bare y \<Longrightarrow> bare (if b then woken x else x) = bare (if b then woken y else y)"
  using bare_woken[of x y] by simp

definition same_os :: "('f, 'a) os_scheme \<Rightarrow> ('f, 'a) os_scheme \<Rightarrow> bool" where
  "same_os s s' \<longleftrightarrow> current s' = current s \<and> idleproc s' = idleproc s \<and> initproc s' = initproc s \<and> kstate.more s' = kstate.more s"

lemma same_os_more:
  assumes "same_os s s'"
  shows "proc_list s' = proc_list s" "hash_list s' = hash_list s" "nr_process s' = nr_process s" "last_pid s' = last_pid s"
    "next_safe s' = next_safe s" "okmem s' = okmem s" "mms s' = mms s" "ofs s' = ofs s"
  using assms unfolding same_os_def by (cases s; cases s'; simp)+

lemma reparent_one_ok:
  assumes d: "p \<noteq> initproc s" "p \<noteq> current s" "initproc s \<noteq> current s" "cptr (procs s (initproc s)) \<noteq> Some p"
  shows "link_in p (initproc s) ((procs s)(current s := (procs s (current s))\<lparr>cptr := optr (procs s p)\<rparr>)) (procs (reparent_one p s))"
    "same_os s (reparent_one p s)" "nodes (reparent_one p s) = nodes s" "rq (reparent_one p s) = rq s"
    "bare (procs (reparent_one p s) x) = bare (procs s x)"
    "on_rq (procs (reparent_one p s) x) = on_rq (procs s x) \<and> time_slice (procs (reparent_one p s) x) = time_slice (procs s x)"
proof -
  define s1 where "s1 = upd (current s) (\<lambda>x. x\<lparr>cptr := optr (procs s p)\<rparr>) s"
  define s3 where "s3 = upd p (\<lambda>x. x\<lparr>optr := cptr (procs s1 (initproc s))\<rparr>) (upd p (\<lambda>x. x\<lparr>yptr := None\<rparr>) s1)"
  define s4 where "s4 = (case cptr (procs s1 (initproc s)) of None \<Rightarrow> s3 | Some c \<Rightarrow> upd c (\<lambda>x. x\<lparr>yptr := Some p\<rparr>) s3)"
  define s6 where "s6 = upd (initproc s) (\<lambda>x. x\<lparr>cptr := Some p\<rparr>) (upd p (\<lambda>x. x\<lparr>proc_parent := Some (initproc s)\<rparr>) s4)"
  have r: "reparent_one p s = s6"
    using d by (simp add: reparent_one_def s6_def s4_def s1_def[symmetric]) (simp add: Let_def s3_def split: option.split)
  have c: "cptr (procs s1 (initproc s)) = cptr (procs s (initproc s))" using d by (simp add: s1_def)
  have p1: "procs s1 x = ((procs s)(current s := (procs s (current s))\<lparr>cptr := optr (procs s p)\<rparr>)) x" for x by (simp add: s1_def)
  have p3: "procs s3 x = (if x = p then (procs s1 p)\<lparr>yptr := None, optr := cptr (procs s (initproc s))\<rparr> else procs s1 x)" for x
    by (simp add: s3_def c)
  have p4: "procs s4 x = (if cptr (procs s (initproc s)) = Some x then (procs s3 x)\<lparr>yptr := Some p\<rparr> else procs s3 x)" for x
    by (cases "cptr (procs s (initproc s))") (simp_all add: s4_def c)
  have p6: "procs s6 x = (if x = initproc s then (procs s4 x)\<lparr>cptr := Some p\<rparr> else if x = p then (procs s4 x)\<lparr>proc_parent := Some (initproc s)\<rparr> else procs s4 x)" for x
    using d by (simp add: s6_def)
  show "link_in p (initproc s) ((procs s)(current s := (procs s (current s))\<lparr>cptr := optr (procs s p)\<rparr>)) (procs (reparent_one p s))"
    unfolding r link_in_def using d by (simp add: p6 p4 p3 p1)
  have f: "same_os s s1" "nodes s1 = nodes s" "rq s1 = rq s" by (simp_all add: s1_def same_os_def)
  then have "same_os s s3" "nodes s3 = nodes s" "rq s3 = rq s" by (simp_all add: s3_def same_os_def)
  then have "same_os s s4" "nodes s4 = nodes s" "rq s4 = rq s" by (simp_all add: s4_def same_os_def split: option.split)
  then show "same_os s (reparent_one p s)" "nodes (reparent_one p s) = nodes s" "rq (reparent_one p s) = rq s"
    unfolding r by (simp_all add: s6_def same_os_def)
  show "bare (procs (reparent_one p s) x) = bare (procs s x)"
    "on_rq (procs (reparent_one p s) x) = on_rq (procs s x) \<and> time_slice (procs (reparent_one p s) x) = time_slice (procs s x)"
    unfolding r by (simp_all add: p6 p4 p3 p1)
qed

lemma reparent_loop_ok:
  assumes "orphans (procs s) (idleproc s) (proc_list s) (current s) zs" "sched_ok s"
    "initproc s \<in> insert (idleproc s) (set (proc_list s))" "initproc s \<noteq> current s" "pstate (procs s (initproc s)) \<noteq> PROC_ZOMBIE"
    "proc_parent (procs s (initproc s)) \<noteq> Some (current s)" "proc_parent (procs s (current s)) \<noteq> Some (current s)"
  shows "\<exists>s'. reparent_loop s = Some s' \<and> orphans (procs s') (idleproc s) (proc_list s) (current s) [] \<and> sched_ok s' \<and> same_os s s' \<and>
    (\<forall>x. proc_parent (procs s' x) = (if x \<in> set zs then Some (initproc s) else proc_parent (procs s x))) \<and>
    (\<forall>x. bare (procs s' x) = bare (if x = initproc s \<and> wait_state (procs s x) = WT_CHILD \<and> (\<exists>z \<in> set zs. pstate (procs s z) = PROC_ZOMBIE)
       then woken (procs s x) else procs s x))"
  using assms
proof (induction zs arbitrary: s)
  case Nil
  then have "cptr (procs s (current s)) = None" by (auto simp: orphans_def)
  then show ?case using Nil by (intro exI[of _ s]) (subst reparent_loop.simps, simp add: same_os_def)
next
  case (Cons x zs)
  let ?ini = "initproc s" let ?c = "current s"
  have x: "cptr (procs s ?c) = Some x" "x \<in> set (proc_list s)" "proc_parent (procs s x) = Some ?c" "x \<notin> set zs"
    using Cons.prems(1) by (auto simp: orphans_def children_def)
  have ne: "x \<noteq> ?ini" "x \<noteq> ?c" using x(3) Cons.prems(6,7) by auto
  have ci: "cptr (procs s ?ini) \<noteq> Some x"
  proof
    assume a: "cptr (procs s ?ini) = Some x"
    obtain ys where ys: "kids (procs s) ?ini ys" "set ys = children (procs s) (proc_list s) ?ini"
      using Cons.prems(1,3,4) unfolding orphans_def by blast
    then show False using kids_first[OF ys(1) a] x(3) Cons.prems(4) by (simp add: children_def)
  qed
  define s1 where "s1 = reparent_one x s"
  note r = reparent_one_ok[OF ne Cons.prems(4) ci, folded s1_def]
  note m1 = same_os_more[OF r(2)]
  have e1: "current s1 = ?c" "initproc s1 = ?ini" "idleproc s1 = idleproc s" using r(2) by (auto simp: same_os_def)
  have st: "pstate (procs s1 y) = pstate (procs s y)" "wait_state (procs s1 y) = wait_state (procs s y)" for y
    using bare_eqD(1,6)[OF r(5)] by blast+
  have sc1: "sched_ok s1" by (rule sched_ok_keep[OF Cons.prems(2)]) (use r e1 st in auto)
  have o1: "orphans (procs s1) (idleproc s) (proc_list s) ?c zs"
    using orphans_step(1)[OF Cons.prems(1,3,4) ne refl r(1)] .
  have par: "proc_parent (procs s1 y) = (if y = x then Some ?ini else proc_parent (procs s y))" for y using r(1) by (simp add: link_in_def)
  define z where "z \<longleftrightarrow> pstate (procs s x) = PROC_ZOMBIE \<and> wait_state (procs s ?ini) = WT_CHILD"
  have "\<exists>s2. (if z then wakeup_proc ?ini s1 else Some s1) = Some s2 \<and> sched_ok s2 \<and> same_os s1 s2 \<and>
    (\<forall>y. core (procs s2 y) = core (if y = ?ini \<and> z then woken (procs s1 y) else procs s1 y))"
  proof (cases z)
    case True
    obtain s2 where "wakeup_proc ?ini s1 = Some s2" "sched_ok s2" "sched_frame s1 s2" "current s2 = current s1"
      "\<forall>q. core (procs s2 q) = core (if q = ?ini then woken (procs s1 ?ini) else procs s1 q)"
      using wakeup_any[OF sc1, of ?ini] Cons.prems(5) st(1) by auto
    then show ?thesis using True by (intro exI[of _ s2]) (auto simp: same_os_def sched_frame_def)
  qed (use sc1 in \<open>auto simp: same_os_def\<close>)
  then obtain s2 where s2: "(if z then wakeup_proc ?ini s1 else Some s1) = Some s2" "sched_ok s2" "same_os s1 s2"
    "\<And>y. core (procs s2 y) = core (if y = ?ini \<and> z then woken (procs s1 y) else procs s1 y)" by blast
  have lk: "proc_parent (procs s2 y) = proc_parent (procs s1 y) \<and> cptr (procs s2 y) = cptr (procs s1 y) \<and> yptr (procs s2 y) = yptr (procs s1 y) \<and> optr (procs s2 y) = optr (procs s1 y)" for y
    using core_eqD(4,13,14,15)[OF s2(4), of y] by (auto simp: woken_def split: if_splits)
  have b2: "bare (procs s2 y) = bare (if y = ?ini \<and> z then woken (procs s y) else procs s y)" for y
    using bare_core[OF s2(4), of y] bare_woken[OF r(5), of y] r(5)[of y] by (auto split: if_splits)
  have ps: "pstate (procs s2 y) = (if y = ?ini \<and> z then PROC_RUNNABLE else pstate (procs s y))" for y
    using bare_eqD(1)[OF b2, of y] by (auto simp: woken_def split: if_splits)
  have e2: "current s2 = ?c" "initproc s2 = ?ini" "idleproc s2 = idleproc s" "proc_list s2 = proc_list s"
    using s2(3) e1 same_os_more(1)[OF s2(3)] m1(1) by (auto simp: same_os_def)
  obtain s' where s': "reparent_loop s2 = Some s'" "orphans (procs s') (idleproc s2) (proc_list s2) (current s2) []" "sched_ok s'" "same_os s2 s'"
    "\<forall>y. proc_parent (procs s' y) = (if y \<in> set zs then Some (initproc s2) else proc_parent (procs s2 y))"
    "\<forall>y. bare (procs s' y) = bare (if y = initproc s2 \<and> wait_state (procs s2 y) = WT_CHILD \<and> (\<exists>z \<in> set zs. pstate (procs s2 z) = PROC_ZOMBIE)
       then woken (procs s2 y) else procs s2 y)"
  proof -
    have "orphans (procs s2) (idleproc s2) (proc_list s2) (current s2) zs" using o1 orphans_cong[of "procs s2" "procs s1", OF lk] by (simp add: e2)
    moreover have "initproc s2 \<in> insert (idleproc s2) (set (proc_list s2))" "initproc s2 \<noteq> current s2" using Cons.prems(3,4) by (simp_all add: e2)
    moreover have "pstate (procs s2 (initproc s2)) \<noteq> PROC_ZOMBIE" using Cons.prems(5) by (simp add: e2 ps)
    moreover have "proc_parent (procs s2 (initproc s2)) \<noteq> Some (current s2)" "proc_parent (procs s2 (current s2)) \<noteq> Some (current s2)"
      using Cons.prems(6,7) ne by (simp_all add: e2 lk par)
    ultimately show ?thesis using Cons.IH[of s2] s2(2) that by blast
  qed
  have "reparent_loop s = Some s'"
    using s'(1) s2(1) by (subst reparent_loop.simps) (auto simp: x(1) s1_def[symmetric] st e1(2) z_def split: if_splits)
  moreover have "same_os s s'" using r(2) s2(3) s'(4) by (simp add: same_os_def)
  moreover have "proc_parent (procs s' y) = (if y \<in> set (x # zs) then Some ?ini else proc_parent (procs s y))" for y
    using s'(5) lk par x(4) by (auto simp: e2)
  moreover have "bare (procs s' y) = bare (if y = ?ini \<and> wait_state (procs s y) = WT_CHILD \<and> (\<exists>z \<in> set (x # zs). pstate (procs s z) = PROC_ZOMBIE)
       then woken (procs s y) else procs s y)" for y
  proof -
    have zs: "?ini \<notin> set zs" using Cons.prems(1,6) by (auto simp: orphans_def children_def)
    then have zz: "(\<exists>v \<in> set zs. pstate (procs s2 v) = PROC_ZOMBIE) = (\<exists>v \<in> set zs. pstate (procs s v) = PROC_ZOMBIE)"
      using ps by (metis (full_types))
    show ?thesis
    proof (cases "y = ?ini \<and> z")
      case True
      then have "bare (procs s2 y) = bare (woken (procs s y))" using b2 by simp
      then have "bare (procs s' y) = bare (woken (procs s y))" using s'(6)[rule_format, of y] bare_woken[of "procs s2 y" "woken (procs s y)"] by (auto split: if_splits)
      then show ?thesis using True by (auto simp: z_def)
    next
      case False
      have "bare (procs s2 y) = bare (procs s y)" unfolding b2 if_not_P[OF False] ..
      note b = this
      have c: "(y = ?ini \<and> wait_state (procs s2 y) = WT_CHILD \<and> (\<exists>v \<in> set zs. pstate (procs s2 v) = PROC_ZOMBIE)) =
        (y = ?ini \<and> wait_state (procs s y) = WT_CHILD \<and> (\<exists>v \<in> set (x # zs). pstate (procs s v) = PROC_ZOMBIE))"
        unfolding zz bare_eqD(6)[OF b] using False by (auto simp: z_def)
      show ?thesis unfolding s'(6)[rule_format, of y, unfolded e2] c by (rule bare_if[OF b])
    qed
  qed
  ultimately show ?case using s'(2,3) by (intro exI[of _ s']) (simp add: e2)
qed

subsection \<open>do_exit\<close>

lemma exit_mmap_frame: "exit_mmap m s = Some s' \<Longrightarrow> \<exists>k. s' = s\<lparr>okmem := k\<rparr>"
  by (auto simp: exit_mmap_def bind_eq_Some_conv split: if_splits)

lemma put_pgdir_frame: "put_pgdir m s = Some s' \<Longrightarrow> \<exists>k. s' = s\<lparr>okmem := k\<rparr>"
  by (auto simp: put_pgdir_def bind_eq_Some_conv)

lemma put_files_frame: "put_files D p s = Some s' \<Longrightarrow> \<exists>f. s' = s\<lparr>ofs := f\<rparr>"
proof (cases "filesp (procs s p)")
  case None
  moreover assume "put_files D p s = Some s'"
  ultimately have "s' = s\<lparr>ofs := ofs s\<rparr>" by (simp add: put_files_def)
  then show ?thesis by blast
qed (auto simp: put_files_def Let_def bind_eq_Some_conv)

definition sched_eq :: "('f, 'a) os_scheme \<Rightarrow> ('f, 'a) os_scheme \<Rightarrow> bool" where
  "sched_eq s s' \<longleftrightarrow> nodes s' = nodes s \<and> rq s' = rq s \<and> current s' = current s \<and> idleproc s' = idleproc s \<and> initproc s' = initproc s \<and>
     proc_list s' = proc_list s \<and> hash_list s' = hash_list s \<and> nr_process s' = nr_process s \<and> last_pid s' = last_pid s \<and> next_safe s' = next_safe s"

lemma exit_mm_frame:
  assumes "exit_mm D s = Some s0"
  shows "sched_eq s s0" "procs s0 x = (if x = current s then (procs s x)\<lparr>proc_mm := None\<rparr> else procs s x)"
proof -
  have "sched_eq s s0 \<and> procs s0 = (procs s)(current s := (procs s (current s))\<lparr>proc_mm := None\<rparr>)"
  proof (cases "proc_mm (procs s (current s))")
    case None
    then have "procs s (current s) = (procs s (current s))\<lparr>proc_mm := None\<rparr>" by simp
    then have "(procs s)(current s := (procs s (current s))\<lparr>proc_mm := None\<rparr>) = procs s" by (rule fun_upd_idem)
    moreover have "s0 = s" using assms None by (simp add: exit_mm_def)
    ultimately show ?thesis by (simp only:) (simp add: sched_eq_def)
  next
    case (Some m)
    define s1 where "s1 = upd_mm m mm_count_dec (s\<lparr>satp := boot_cr3 s\<rparr>)"
    have "sched_eq s s1 \<and> procs s1 = procs s" by (simp add: s1_def upd_mm_def sched_eq_def)
    moreover obtain s2 where s2: "(if mm_count (mms s1 m) = 0 then do { s \<leftarrow> exit_mmap m s1; s \<leftarrow> put_pgdir m s; mm_destroy (mms s m); Some s } else Some s1) = Some s2"
      "put_files D (current s2) (upd (current s2) (\<lambda>x. x\<lparr>proc_mm := None\<rparr>) s2) = Some s0"
      using assms Some by (auto simp: exit_mm_def Let_def s1_def[symmetric] bind_eq_Some_conv split: if_splits)
    have "sched_eq s1 s2 \<and> procs s2 = procs s1"
    proof (cases "mm_count (mms s1 m) = 0")
      case True
      then obtain a where a: "exit_mmap m s1 = Some a" "put_pgdir m a = Some s2" using s2(1) by (auto simp: bind_eq_Some_conv mm_destroy_def split: if_splits)
      then show ?thesis using exit_mmap_frame[OF a(1)] put_pgdir_frame[OF a(2)] by (auto simp: sched_eq_def)
    qed (use s2(1) in \<open>simp add: sched_eq_def\<close>)
    moreover obtain f where "s0 = (upd (current s2) (\<lambda>x. x\<lparr>proc_mm := None\<rparr>) s2)\<lparr>ofs := f\<rparr>" using put_files_frame[OF s2(2)] by blast
    ultimately show ?thesis by (simp add: sched_eq_def upd_def)
  qed
  then show "sched_eq s s0" "procs s0 x = (if x = current s then (procs s x)\<lparr>proc_mm := None\<rparr> else procs s x)" by auto
qed

lemma table_ok_tree:
  assumes "table_ok s" "same_os s s'" "\<And>x. pid (procs s' x) = pid (procs s x)" "ptree (procs s') (idleproc s) (proc_list s)"
  shows "table_ok s'"
proof -
  note m = same_os_more[OF assms(2)]
  have "idleproc s' = idleproc s" using assms(2) by (simp add: same_os_def)
  then show ?thesis using assms(1,3,4) by (simp add: table_ok_def hash_ok_def pid_window_def m)
qed

lemma exit_links_ok:
  assumes t: "table_ok s" and sc: "sched_ok s" and c: "current s \<in> set (proc_list s)" "current s \<noteq> initproc s"
    and ini: "initproc s \<in> set (proc_list s)" "pstate (procs s (initproc s)) \<noteq> PROC_ZOMBIE" "proc_parent (procs s (initproc s)) \<noteq> Some (current s)"
    and q: "proc_parent (procs s (current s)) = Some q" "q \<noteq> current s" "wait_state (procs s q) = WT_CHILD \<Longrightarrow> pstate (procs s q) \<noteq> PROC_ZOMBIE"
  shows "\<exists>s'. exit_links s = Some s' \<and> table_ok s' \<and> sched_ok s' \<and> same_os s s' \<and> children (procs s') (proc_list s) (current s) = {} \<and>
    children (procs s') (proc_list s) (initproc s) = children (procs s) (proc_list s) (initproc s) \<union> children (procs s) (proc_list s) (current s) \<and>
    (\<forall>r. r \<noteq> current s \<and> r \<noteq> initproc s \<longrightarrow> children (procs s') (proc_list s) r = children (procs s) (proc_list s) r) \<and>
    (\<forall>x. x \<noteq> q \<and> x \<noteq> initproc s \<longrightarrow> bare (procs s' x) = bare (procs s x)) \<and>
    (wait_state (procs s q) = WT_CHILD \<longrightarrow> pstate (procs s' q) = PROC_RUNNABLE)"
proof -
  let ?w = "wait_state (procs s q) = WT_CHILD"
  have "\<exists>s2. (if ?w then wakeup_proc q s else Some s) = Some s2 \<and> sched_ok s2 \<and> same_os s s2 \<and>
    (\<forall>y. core (procs s2 y) = core (if y = q \<and> ?w then woken (procs s y) else procs s y))"
  proof (cases ?w)
    case True
    then obtain s2 where "wakeup_proc q s = Some s2" "sched_ok s2" "sched_frame s s2" "current s2 = current s"
      "\<forall>y. core (procs s2 y) = core (if y = q then woken (procs s q) else procs s y)"
      using wakeup_any[OF sc, of q] q(3) by auto
    then show ?thesis using True by (intro exI[of _ s2]) (auto simp: same_os_def sched_frame_def)
  qed (use sc in \<open>auto simp: same_os_def\<close>)
  then obtain s2 where s2: "(if ?w then wakeup_proc q s else Some s) = Some s2" "sched_ok s2" "same_os s s2"
    "\<And>y. core (procs s2 y) = core (if y = q \<and> ?w then woken (procs s y) else procs s y)" by blast
  note m2 = same_os_more[OF s2(3)]
  have e2: "current s2 = current s" "initproc s2 = initproc s" "idleproc s2 = idleproc s" "proc_list s2 = proc_list s"
    using s2(3) m2(1) by (auto simp: same_os_def)
  have lk: "proc_parent (procs s2 y) = proc_parent (procs s y)" "cptr (procs s2 y) = cptr (procs s y)" "yptr (procs s2 y) = yptr (procs s y)"
    "optr (procs s2 y) = optr (procs s y)" "pid (procs s2 y) = pid (procs s y)" for y
    using core_eqD(2,4,13,14,15)[OF s2(4), of y] by (auto simp: woken_def split: if_splits)
  have ps: "pstate (procs s2 y) = (if y = q \<and> ?w then PROC_RUNNABLE else pstate (procs s y))" for y
    using core_eqD(1)[OF s2(4), of y] by (auto simp: woken_def split: if_splits)
  have "table_eq s s2" using m2 e2 lk by (simp add: table_eq_def)
  then have t2: "table_ok s2" using table_ok_eq t by blast
  then obtain zs where zs: "orphans (procs s2) (idleproc s2) (proc_list s2) (current s2) zs"
    using ptree_orphans[of "procs s2" "idleproc s2" "proc_list s2" "current s2"] c(1) e2 by (auto simp: table_ok_def)
  have zset: "set zs = children (procs s) (proc_list s) (current s)" using zs by (simp add: orphans_def children_def e2 lk)
  obtain s' where s': "reparent_loop s2 = Some s'" "orphans (procs s') (idleproc s2) (proc_list s2) (current s2) []" "sched_ok s'" "same_os s2 s'"
    "\<forall>x. proc_parent (procs s' x) = (if x \<in> set zs then Some (initproc s2) else proc_parent (procs s2 x))"
    "\<forall>x. bare (procs s' x) = bare (if x = initproc s2 \<and> wait_state (procs s2 x) = WT_CHILD \<and> (\<exists>z \<in> set zs. pstate (procs s2 z) = PROC_ZOMBIE)
       then woken (procs s2 x) else procs s2 x)"
  proof -
    have "initproc s2 \<in> insert (idleproc s2) (set (proc_list s2))" "initproc s2 \<noteq> current s2" using ini(1) c(2) by (simp_all add: e2)
    moreover have "pstate (procs s2 (initproc s2)) \<noteq> PROC_ZOMBIE" using ini(2) by (simp add: e2 ps)
    moreover have "proc_parent (procs s2 (initproc s2)) \<noteq> Some (current s2)" "proc_parent (procs s2 (current s2)) \<noteq> Some (current s2)"
      using ini(3) q(1,2) by (simp_all add: e2 lk)
    ultimately show ?thesis using reparent_loop_ok[OF zs s2(2)] that by blast
  qed
  have so: "same_os s s'" using s2(3) s'(4) by (simp add: same_os_def)
  have b: "bare (procs s' x) = bare (procs s x)" if "x \<noteq> q" "x \<noteq> initproc s" for x
    using that s'(6)[rule_format, of x] bare_core[OF s2(4), of x] by (simp add: e2)
  have par: "proc_parent (procs s' x) = (if x \<in> set zs then Some (initproc s) else proc_parent (procs s x))" for x using s'(5) by (simp add: e2 lk)
  have pid': "pid (procs s' x) = pid (procs s x)" for x
    using bare_eqD(2)[OF s'(6)[rule_format, of x]] lk(5)[of x] by (auto simp: woken_def split: if_splits)
  have t': "table_ok s'"
    by (rule table_ok_tree[OF t so pid']) (use orphans_ptree[OF s'(2)] in \<open>simp add: e2\<close>)
  have "wait_state (procs s q) = WT_CHILD \<Longrightarrow> pstate (procs s' q) = PROC_RUNNABLE"
    using bare_eqD(1)[OF s'(6)[rule_format, of q]] ps[of q] by (auto simp: woken_def split: if_splits)
  moreover have "exit_links s = Some s'" using q(1) s2(1) s'(1) by (simp add: exit_links_def)
  moreover have "children (procs s') (proc_list s) (current s) = {}" using c(2) by (auto simp: children_def par zset)
  ultimately show ?thesis using t' s'(3) so b zset by (intro exI[of _ s']) (auto simp: children_def par)
qed

text \<open>C33: \<^verbatim>\<open>do_exit\<close> of a process other than \<^verbatim>\<open>idleproc\<close> and \<^verbatim>\<open>initproc\<close>, once its memory is released, does not
  panic and leaves the process table and the run queue consistent. The process is a zombie with the given exit code and without
  children, and another process runs. Its children are children of \<^verbatim>\<open>initproc\<close> now, in addition to those it had. A
  parent that waits for a child is runnable again. Apart from their links, no other processes are changed.\<close>

theorem do_exit_correct:
  assumes t: "table_ok s" and sc: "sched_ok s" and c: "current s \<in> set (proc_list s)" "current s \<noteq> initproc s"
    and ini: "initproc s \<in> set (proc_list s)" "pstate (procs s (initproc s)) \<noteq> PROC_ZOMBIE" "proc_parent (procs s (initproc s)) \<noteq> Some (current s)"
    and q: "proc_parent (procs s (current s)) = Some q" "q \<noteq> current s" "wait_state (procs s q) = WT_CHILD \<longrightarrow> pstate (procs s q) \<noteq> PROC_ZOMBIE"
    and mm: "exit_mm D s = Some s0"
  shows "\<exists>s'. do_exit D code s = Some s' \<and> table_ok s' \<and> sched_ok s' \<and> proc_list s' = proc_list s \<and> current s' \<noteq> current s \<and>
    pstate (procs s' (current s)) = PROC_ZOMBIE \<and> exit_code (procs s' (current s)) = code \<and>
    children (procs s') (proc_list s) (current s) = {} \<and>
    children (procs s') (proc_list s) (initproc s) = children (procs s) (proc_list s) (initproc s) \<union> children (procs s) (proc_list s) (current s) \<and>
    (\<forall>r. r \<noteq> current s \<and> r \<noteq> initproc s \<longrightarrow> children (procs s') (proc_list s) r = children (procs s) (proc_list s) r) \<and>
    (wait_state (procs s q) = WT_CHILD \<longrightarrow> pstate (procs s' q) = PROC_RUNNABLE) \<and>
    (\<forall>x. x \<noteq> current s \<and> x \<noteq> q \<and> x \<noteq> initproc s \<longrightarrow> bare (procs s' x) = bare (procs s x))"
proof -
  let ?c = "current s"
  note fr = exit_mm_frame[OF mm]
  have e0: "current s0 = ?c" "initproc s0 = initproc s" "idleproc s0 = idleproc s" "proc_list s0 = proc_list s" using fr(1) by (simp_all add: sched_eq_def)
  define s1 where "s1 = upd ?c (\<lambda>x. x\<lparr>pstate := PROC_ZOMBIE, exit_code := code\<rparr>) s0"
  have p1: "procs s1 x = (if x = ?c then (procs s x)\<lparr>proc_mm := None, pstate := PROC_ZOMBIE, exit_code := code\<rparr> else procs s x)" for x
    by (simp add: s1_def fr(2))
  have e1: "current s1 = ?c" "initproc s1 = initproc s" "idleproc s1 = idleproc s" "proc_list s1 = proc_list s" by (simp_all add: s1_def e0)
  have "sched_ok s0" by (rule sched_ok_keep[OF sc]) (use fr in \<open>auto simp: sched_eq_def\<close>)
  then have sc1: "sched_ok s1" using sched_ok_current[of s0] by (simp add: s1_def e0)
  have "sched_eq s s1" using fr(1) by (simp add: s1_def sched_eq_def)
  then have "table_eq s s1" by (simp add: table_eq_def sched_eq_def p1)
  then have t1: "table_ok s1" using t table_ok_eq by blast
  have ch1: "children (procs s1) l r = children (procs s) l r" for l r by (auto simp: children_def p1)
  obtain s2 where s2: "exit_links s1 = Some s2" "table_ok s2" "sched_ok s2" "same_os s1 s2" "children (procs s2) (proc_list s) ?c = {}"
    "children (procs s2) (proc_list s) (initproc s) = children (procs s) (proc_list s) (initproc s) \<union> children (procs s) (proc_list s) ?c"
    "\<forall>r. r \<noteq> ?c \<and> r \<noteq> initproc s \<longrightarrow> children (procs s2) (proc_list s) r = children (procs s) (proc_list s) r"
    "\<forall>x. x \<noteq> q \<and> x \<noteq> initproc s \<longrightarrow> bare (procs s2 x) = bare (procs s1 x)" "wait_state (procs s1 q) = WT_CHILD \<longrightarrow> pstate (procs s2 q) = PROC_RUNNABLE"
    using exit_links_ok[OF t1 sc1, of q] c ini q unfolding e1 ch1 p1 by (auto simp: c(2)[symmetric])
  have z: "pstate (procs s2 ?c) = PROC_ZOMBIE" "exit_code (procs s2 ?c) = code"
    using bare_eqD(1,5)[of "procs s2 ?c" "procs s1 ?c"] s2(8) q(2) c(2) by (auto simp: p1)
  obtain s' p where s': "schedule s2 = Some s'" "sched_ok s'" "switched s2 p s'" "p \<in> insert (idleproc s2) (runnable s2)"
    using schedule_any[OF s2(3)] by blast
  have co: "core (procs s' x) = core (procs s2 x)" for x using s'(3) by (simp add: switched_def)
  have mo: "kstate.more s' = kstate.more s2" "idleproc s' = idleproc s2" "current s' = p" using s'(3) by (auto simp: switched_def sched_frame_def)
  have te: "table_eq s2 s'" using core_table_eq[OF mo(1,2) co] .
  have "p \<noteq> ?c"
  proof
    assume "p = ?c"
    moreover have "?c \<noteq> idleproc s" using t c(1) by (auto simp: table_ok_def ptree_def)
    ultimately show False using s'(4) z(1) s2(4) e1(3) by (auto simp: runnable_def same_os_def)
  qed
  moreover have "do_exit D code s = Some s'"
    using c t mm s2(1) s'(1) by (auto simp: do_exit_def e0 s1_def table_ok_def ptree_def)
  moreover have "children (procs s') l r = children (procs s2) l r" for l r using core_eqD(4)[OF co] by (simp add: children_def)
  moreover have "proc_list s' = proc_list s" using te same_os_more(1)[OF s2(4)] e1 by (simp add: table_eq_def)
  moreover have "bare (procs s' x) = bare (procs s x)" if "x \<noteq> ?c \<and> x \<noteq> q \<and> x \<noteq> initproc s" for x
    using bare_core[OF co, of x] s2(8) that by (simp add: p1)
  ultimately show ?thesis using s2 z s'(2) mo(3) table_ok_eq[OF te s2(2)] core_eqD(1,11)[OF co] q(2) by (auto simp: p1)
qed

subsection \<open>do_wait\<close>

lemma zombie_scan_kids:
  "kseg P a y xs None z \<Longrightarrow> zombie_scan P a h = Some (h \<or> xs \<noteq> [], List.find (\<lambda>p. pstate (P p) = PROC_ZOMBIE) xs)"
proof (induction xs arbitrary: a y h)
  case Nil
  then show ?case by (subst zombie_scan.simps) simp
next
  case (Cons x xs)
  then show ?case by (subst zombie_scan.simps) auto
qed

lemma nolinks_kstack: "kstack (nolinks x) = kstack x" by (simp add: nolinks_def)

text \<open>The children the caller waits for.\<close>

definition awaited :: "int \<Rightarrow> ('f, 'a) os_scheme \<Rightarrow> pptr set" where
  "awaited i s = {p \<in> children (procs s) (proc_list s) (current s). i = 0 \<or> pid (procs s p) = i}"

lemma find_zombie_ok:
  assumes t: "table_ok s" and c: "current s \<in> insert (idleproc s) (set (proc_list s))"
  shows "\<exists>z. find_zombie i s = Some (awaited i s \<noteq> {}, z) \<and>
    (case z of None \<Rightarrow> \<forall>p \<in> awaited i s. pstate (procs s p) \<noteq> PROC_ZOMBIE | Some p \<Rightarrow> p \<in> awaited i s \<and> pstate (procs s p) = PROC_ZOMBIE)"
proof (cases "i = 0")
  case True
  have "ptree (procs s) (idleproc s) (proc_list s)" using t by (simp add: table_ok_def)
  then obtain xs where xs: "kids (procs s) (current s) xs" "set xs = children (procs s) (proc_list s) (current s)" using ptreeD c by metis
  have a: "awaited i s = set xs" using True xs(2) by (auto simp: awaited_def)
  have "find_zombie i s = Some (xs \<noteq> [], List.find (\<lambda>p. pstate (procs s p) = PROC_ZOMBIE) xs)"
    using xs(1) zombie_scan_kids[of "procs s" "cptr (procs s (current s))" None xs] True by (auto simp: find_zombie_def kids_def)
  then show ?thesis unfolding a by (auto simp: find_None_iff find_Some_iff split: option.splits)
next
  case False
  have u: "p' = p" if "p' \<in> set (proc_list s)" "pid (procs s p') = i" "find_proc i s = Some p" for p p'
    using that find_proc_table[OF t, of i p'] by simp
  show ?thesis
  proof (cases "find_proc i s")
    case None
    then have "awaited i s = {}" using find_proc_table[OF t, of i] False by (auto simp: awaited_def children_def)
    then show ?thesis using None False by (auto simp: find_zombie_def)
  next
    case (Some p)
    then have p: "p \<in> set (proc_list s)" "pid (procs s p) = i" using find_proc_table[OF t, of i] by auto
    have "x \<in> awaited i s \<longleftrightarrow> x = p \<and> proc_parent (procs s p) = Some (current s)" for x
      using p u[of x p] Some False by (cases "x = p") (simp_all add: awaited_def children_def, blast)
    then have "awaited i s = (if proc_parent (procs s p) = Some (current s) then {p} else {})" by auto
    then show ?thesis using Some False by (simp add: find_zombie_def)
  qed
qed

text \<open>C34: One round of \<^verbatim>\<open>do_wait\<close>. With no child of the kind asked for it returns \<open>E_BAD_PROC\<close> and changes nothing. With
  such a child but no zombie among them the caller sleeps until a child exits, and another process runs. With a zombie
  among them, one of these is reaped: its exit code is returned, exactly this process disappears from the list, the tree and the hash
  table, which stay consistent, and every other process keeps its members apart from the links. (The kernel stack of
  a zombie can be given back, a zombie has no children, and \<^verbatim>\<open>initproc\<close> is not among those waited for.)\<close>

theorem do_wait_correct:
  assumes t: "table_ok s" and sc: "sched_ok s" and c: "current s \<in> insert (idleproc s) (set (proc_list s))"
    and z: "\<forall>p \<in> awaited i s. pstate (procs s p) = PROC_ZOMBIE \<longrightarrow> p \<noteq> initproc s \<and> children (procs s) (proc_list s) p = {} \<and>
      (\<exists>page k. kva2page (kstack (procs s p)) = Some page \<and> free_pages page KSTACKPAGE (okmem s) = Some k)"
  shows "if awaited i s = {} then do_wait_repeat i s = Some (Some (Inl (err E_BAD_PROC)), s)
    else if \<forall>p \<in> awaited i s. pstate (procs s p) \<noteq> PROC_ZOMBIE then
      \<exists>s'. do_wait_repeat i s = Some (None, s') \<and> table_ok s' \<and> sched_ok s' \<and> proc_list s' = proc_list s \<and>
        pstate (procs s' (current s)) = PROC_SLEEPING \<and> wait_state (procs s' (current s)) = WT_CHILD \<and>
        (\<forall>x. x \<noteq> current s \<longrightarrow> bare (procs s' x) = bare (procs s x))
    else \<exists>p \<in> awaited i s. \<exists>s'. pstate (procs s p) = PROC_ZOMBIE \<and> do_wait_repeat i s = Some (Some (Inr (exit_code (procs s p))), s') \<and>
        table_ok s' \<and> sched_ok s' \<and> proc_list s' = remove1 p (proc_list s) \<and> find_proc (pid (procs s p)) s' = None \<and>
        current s' = current s \<and> (\<forall>x. nolinks (procs s' x) = nolinks (procs s x))"
proof -
  obtain zo where zo: "find_zombie i s = Some (awaited i s \<noteq> {}, zo)"
    "case zo of None \<Rightarrow> \<forall>p \<in> awaited i s. pstate (procs s p) \<noteq> PROC_ZOMBIE | Some p \<Rightarrow> p \<in> awaited i s \<and> pstate (procs s p) = PROC_ZOMBIE"
    using find_zombie_ok[OF t c] by blast
  show ?thesis
  proof (cases zo)
    case None
    show ?thesis
    proof (cases "awaited i s = {}")
      case True
      then show ?thesis using zo None by (simp add: do_wait_repeat_def)
    next
      case False
      define s1 where "s1 = upd (current s) (\<lambda>x. x\<lparr>pstate := PROC_SLEEPING, wait_state := WT_CHILD\<rparr>) s"
      have "sched_ok s1" unfolding s1_def by (rule sched_ok_current[OF sc]) simp
      then obtain s' p where s': "schedule s1 = Some s'" "sched_ok s'" "switched s1 p s'" using schedule_any by blast
      have co: "core (procs s' x) = core (procs s1 x)" for x using s'(3) by (simp add: switched_def)
      have mo: "kstate.more s' = kstate.more s1" "idleproc s' = idleproc s1" using s'(3) by (auto simp: switched_def sched_frame_def)
      have te: "table_eq s1 s'" using core_table_eq[OF mo co] .
      have "table_eq s s1" by (simp add: table_eq_def s1_def)
      then have "table_ok s'" using table_ok_eq[OF te] table_ok_eq[of s s1] t by blast
      moreover have "do_wait_repeat i s = Some (None, s')" using zo(1) None False s'(1) by (simp add: do_wait_repeat_def s1_def)
      moreover have "proc_list s' = proc_list s" using te by (simp add: table_eq_def s1_def)
      moreover have "bare (procs s' x) = bare (procs s x)" if "x \<noteq> current s" for x using bare_core[OF co, of x] that by (simp add: s1_def)
      moreover have "pstate (procs s' (current s)) = PROC_SLEEPING" "wait_state (procs s' (current s)) = WT_CHILD"
        using core_eqD(1,12)[OF co, of "current s"] by (simp_all add: s1_def)
      ultimately show ?thesis using False None zo(2) s'(2) by auto
    qed
  next
    case (Some p)
    then have p: "p \<in> awaited i s" "pstate (procs s p) = PROC_ZOMBIE" using zo(2) by auto
    then have pl: "p \<in> set (proc_list s)" by (simp add: awaited_def children_def)
    obtain page k where k: "kva2page (kstack (procs s p)) = Some page" "free_pages page KSTACKPAGE (okmem s) = Some k"
      and ch: "p \<noteq> initproc s" "children (procs s) (proc_list s) p = {}" using z p by blast
    obtain s1 where s1: "remove_links p (unhash_proc p s) = Some s1" "table_ok s1" "proc_list s1 = remove1 p (proc_list s)" "table_frame s s1"
      "\<forall>x. nolinks (procs s1 x) = nolinks (procs s x)" using reap_ok[OF t pl ch(2)] by blast
    have m: "okmem s1 = okmem s" using s1(4) unfolding table_frame_def by (cases s; cases s1) simp
    have ks: "kstack (procs s1 p) = kstack (procs s p)" using s1(5) by (metis nolinks_kstack)
    define s' where "s' = s1\<lparr>okmem := k\<rparr>"
    have e: "current s1 = current s" "idleproc s1 = idleproc s" "nodes s1 = nodes s" "rq s1 = rq s" using s1(4) by (auto simp: table_frame_def)
    have "table_ok s'" using s1(2) table_ok_eq[of s1 s'] by (simp add: s'_def table_eq_def)
    moreover have "sched_ok s'"
      by (rule sched_ok_keep[OF sc]) (use e nolinks_eqD(1,4,5)[OF s1(5)[rule_format]] in \<open>simp_all add: s'_def\<close>)
    moreover have "p \<noteq> idleproc s" using t pl by (auto simp: table_ok_def ptree_def)
    then have "do_wait_repeat i s = Some (Some (Inr (exit_code (procs s p))), s')"
      using zo(1) Some ch(1) s1(1) k m ks by (simp add: do_wait_repeat_def wait_reap_def put_kstack_def s'_def)
    moreover have "find_proc (pid (procs s p)) s' = None"
    proof -
      have "x = p" if "x \<in> set (proc_list s)" "pid (procs s x) = pid (procs s p)" for x
        using find_proc_table[OF t, of "pid (procs s p)" x] find_proc_table[OF t, of "pid (procs s p)" p] that pl by simp
      moreover have "set (proc_list s') = set (proc_list s) - {p}" using t s1(3) by (simp add: s'_def table_ok_def ptree_def)
      moreover have "pid (procs s' x) = pid (procs s x)" for x using nolinks_eqD(2)[OF s1(5)[rule_format]] by (simp add: s'_def)
      ultimately have "\<not> (x \<in> set (proc_list s') \<and> pid (procs s' x) = pid (procs s p))" for x by auto
      then show ?thesis using find_proc_table[OF \<open>table_ok s'\<close>, of "pid (procs s p)"] by (cases "find_proc (pid (procs s p)) s'") auto
    qed
    ultimately show ?thesis using p s1(3,5) e(1) by (auto simp: s'_def)
  qed
qed

subsection \<open>do_fork\<close>

text \<open>What the steps before the child is entered into the table may change: memory, files, and these members of the
  child.\<close>

definition fork_bare :: "proc_struct \<Rightarrow> proc_struct" where
  "fork_bare x = x\<lparr>kstack := 0, proc_mm := None, cr3 := 0, filesp := None, proc_tf := None,
     pcontext := \<lparr>ctx_ra = 0, ctx_sp = 0, ctx_s = \<lambda>_. 0\<rparr>\<rparr>"

lemma fork_bare_upd [simp]:
  "fork_bare (x\<lparr>kstack := a\<rparr>) = fork_bare x" "fork_bare (x\<lparr>proc_mm := b\<rparr>) = fork_bare x" "fork_bare (x\<lparr>cr3 := c\<rparr>) = fork_bare x"
  "fork_bare (x\<lparr>filesp := d\<rparr>) = fork_bare x" "fork_bare (x\<lparr>proc_tf := e, pcontext := f\<rparr>) = fork_bare x"
  by (simp_all add: fork_bare_def)

lemma fork_bareD:
  assumes "fork_bare x = fork_bare y"
  shows "pstate x = pstate y" "pid x = pid y" "proc_parent x = proc_parent y" "cptr x = cptr y" "yptr x = yptr y" "optr x = optr y"
    "on_rq x = on_rq y" "time_slice x = time_slice y" "wait_state x = wait_state y"
proof -
  have "pstate (fork_bare x) = pstate x \<and> pid (fork_bare x) = pid x \<and> proc_parent (fork_bare x) = proc_parent x \<and> cptr (fork_bare x) = cptr x \<and>
    yptr (fork_bare x) = yptr x \<and> optr (fork_bare x) = optr x \<and> on_rq (fork_bare x) = on_rq x \<and> time_slice (fork_bare x) = time_slice x \<and>
    wait_state (fork_bare x) = wait_state x" for x by (simp add: fork_bare_def)
  then show "pstate x = pstate y" "pid x = pid y" "proc_parent x = proc_parent y" "cptr x = cptr y" "yptr x = yptr y" "optr x = optr y"
    "on_rq x = on_rq y" "time_slice x = time_slice y" "wait_state x = wait_state y" using assms by metis+
qed

definition prepares :: "pptr \<Rightarrow> ('f, 'a) os_scheme \<Rightarrow> ('f, 'a) os_scheme \<Rightarrow> bool" where
  "prepares p s s' \<longleftrightarrow> sched_eq s s' \<and> (\<forall>x. x \<noteq> p \<longrightarrow> procs s' x = procs s x) \<and> fork_bare (procs s' p) = fork_bare (procs s p)"

lemma prepares_trans: "prepares p a b \<Longrightarrow> prepares p b c \<Longrightarrow> prepares p a c"
  by (simp add: prepares_def sched_eq_def)

lemma prepares_same: "sched_eq s s' \<Longrightarrow> procs s' = procs s \<Longrightarrow> prepares p s s'" by (simp add: prepares_def)

lemma sched_eq_okmem [simp]: "sched_eq s (s\<lparr>okmem := k\<rparr>)" "sched_eq s (s\<lparr>ofs := f\<rparr>)" "sched_eq s (upd_mm m g s)" "sched_eq s s"
  by (simp_all add: sched_eq_def upd_mm_def)

lemma prepares_simps [simp]: "prepares p s (s\<lparr>okmem := k\<rparr>)" "prepares p s (s\<lparr>ofs := f\<rparr>)" "prepares p s (upd_mm m g s)" "prepares p s s"
  by (simp_all add: prepares_same upd_mm_def sched_eq_def)

lemma sched_eq_upd: "sched_eq s (upd p f s)" by (simp add: sched_eq_def upd_def)

lemma prepares_upd: "(\<And>x. fork_bare (f x) = fork_bare x) \<Longrightarrow> prepares p s (upd p f s)"
  by (simp add: prepares_def sched_eq_upd)

lemma setup_kstack_prepares: "setup_kstack p s = Some (r, s') \<Longrightarrow> prepares p s s' \<and> (r = 0 \<or> r = err E_NO_MEM)"
  by (auto simp: setup_kstack_def bind_eq_Some_conv Let_def split: option.splits intro!: prepares_trans[OF prepares_simps(1) prepares_upd])

lemma setup_pgdir_prepares: "setup_pgdir m s = Some (r, s') \<Longrightarrow> prepares p s s'"
  by (auto simp: setup_pgdir_def bind_eq_Some_conv Let_def split: option.splits intro!: prepares_trans[OF prepares_simps(1) prepares_simps(3)])

lemma dup_mmap_loop_prepares: "dup_mmap_loop oks vs t f s = Some (r, s') \<Longrightarrow> prepares p s s'"
proof (induction vs arbitrary: oks s)
  case (Cons v vs)
  show ?case
  proof (cases "vma_create (oks \<noteq> [] \<and> hd oks) (vm_start v) (vm_end v) (vm_flags v)")
    case (Some nvma)
    obtain m d d' q k where m: "insert_vma_struct nvma (mms s t) = Some m" "pgdir (mms (upd_mm t (\<lambda>_. m) s) t) = Some d"
      "pgdir (mms (upd_mm t (\<lambda>_. m) s) f) = Some d'" "copy_range d d' (vm_start v) (vm_end v) (okmem (upd_mm t (\<lambda>_. m) s)) = Some (q, k)"
      using Cons.prems Some by (simp add: Let_def bind_eq_Some_conv split_def del: split_paired_Ex) (metis prod.collapse)
    define s1 where "s1 = (upd_mm t (\<lambda>_. m) s)\<lparr>okmem := k\<rparr>"
    have "prepares p s s1" unfolding s1_def by (rule prepares_trans[OF prepares_simps(3) prepares_simps(1)])
    moreover have "prepares p s1 s'"
      using Cons.prems Some m Cons.IH[of "tl oks" s1] by (cases "q = Inr ()") (simp_all add: Let_def s1_def[symmetric])
    ultimately show ?thesis by (rule prepares_trans)
  qed (use Cons.prems in simp)
qed simp

lemma copy_mm_done_prepares: "copy_mm_done m p s = Some (r, s') \<Longrightarrow> prepares p s s'"
  by (auto simp: copy_mm_done_def bind_eq_Some_conv Let_def
      intro!: prepares_trans[OF prepares_trans[OF prepares_simps(3) prepares_upd] prepares_upd])

lemma copy_mm_prepares:
  assumes "copy_mm blk oks fl p s = Some (r, s')" shows "prepares p s s'"
proof -
  have e: "prepares p a c" if "exit_mmap m a = Some b" "put_pgdir m b = Some c" for m and a b c :: "('a, 'b) os_scheme"
    using exit_mmap_frame[OF that(1)] put_pgdir_frame[OF that(2)] by auto
  show ?thesis
  proof (cases "proc_mm (procs s (current s))")
    case (Some oldmm)
    show ?thesis
    proof (cases "fl AND CLONE_VM \<noteq> 0 \<or> blk = None \<or> mm_create (blk \<noteq> None) = None")
      case True
      then show ?thesis using assms Some copy_mm_done_prepares[of oldmm p s r s']
        by (auto simp: copy_mm_def split: option.splits if_splits)
    next
      case False
      then obtain m fresh where m: "blk = Some m" "mm_create True = Some fresh" by auto
      define s1 where "s1 = upd_mm m (\<lambda>_. fresh) s"
      obtain q s2 where s2: "setup_pgdir m s1 = Some (q, s2)" using assms Some m False by (auto simp: copy_mm_def s1_def bind_eq_Some_conv)
      have p2: "prepares p s s2" using prepares_trans[OF _ setup_pgdir_prepares[OF s2]] by (simp add: s1_def)
      show ?thesis
      proof (cases "q = 0")
        case True
        obtain q' s3 where s3: "dup_mmap oks m oldmm s2 = Some (q', s3)" using assms Some m False s2 True
          by (auto simp: copy_mm_def s1_def bind_eq_Some_conv)
        have p3: "prepares p s s3" by (rule prepares_trans[OF p2 dup_mmap_loop_prepares[OF s3[unfolded dup_mmap_def]]])
        show ?thesis using assms Some m False s2 True s3 copy_mm_done_prepares[of m p s3 r s'] e prepares_trans[OF p3]
          by (cases "q' = 0") (auto simp: copy_mm_def s1_def bind_eq_Some_conv dest: e)
      qed (use assms Some m False s2 p2 in \<open>auto simp: copy_mm_def s1_def bind_eq_Some_conv\<close>)
    qed
  qed (use assms in \<open>simp add: copy_mm_def\<close>)
qed

lemma copy_files_prepares: "copy_files D blk fl p s = Some (r, s') \<Longrightarrow> prepares p s s'"
  by (auto simp: copy_files_def bind_eq_Some_conv split: option.splits if_splits prod.splits
      intro!: prepares_trans[OF prepares_simps(2) prepares_upd])

lemma copy_thread_prepares: "prepares p s (copy_thread fr p sp tf s)"
  by (simp add: copy_thread_def Let_def prepares_upd)

lemma put_kstack_prepares: "put_kstack p s = Some s' \<Longrightarrow> prepares q s s'"
  by (auto simp: put_kstack_def bind_eq_Some_conv)

text \<open>A state prepared for \<open>p\<close> keeps the invariants, and the child can be entered and woken.\<close>

lemma prepares_ok:
  assumes "prepares p s s'" "table_ok s" "sched_ok s"
  shows "table_ok s'" "sched_ok s'"
proof -
  have f: "fork_bare (procs s' x) = fork_bare (procs s x)" for x using assms(1) by (cases "x = p") (simp_all add: prepares_def)
  have e: "sched_eq s s'" using assms(1) by (simp add: prepares_def)
  have "table_eq s s'" using e fork_bareD(2-6)[OF f] by (simp add: table_eq_def sched_eq_def)
  then show "table_ok s'" using assms(2) by (rule table_ok_eq)
  show "sched_ok s'" by (rule sched_ok_keep[OF assms(3)]) (use e fork_bareD(1,7,8)[OF f] in \<open>auto simp: sched_eq_def\<close>)
qed

lemma bare_nolinks: "nolinks x = nolinks y \<Longrightarrow> bare x = bare y" by (simp add: bare_def)

definition fork_finish :: "pptr \<Rightarrow> ('f, 'a) os_scheme \<Rightarrow> (int \<times> ('f, 'a) os_scheme) option" where
  "fork_finish p s = do { s \<leftarrow> fork_register p s; s \<leftarrow> wakeup_proc p s; Some (pid (procs s p), s) }"

lemma fork_finish_ok:
  assumes t: "table_ok s" and sc: "sched_ok s" and n: "nr_process s < MAX_PROCESS"
    and p: "p \<notin> set (proc_list s)" "p \<noteq> idleproc s" "cptr (procs s p) = None" "pstate (procs s p) = PROC_UNINIT"
    and q: "proc_parent (procs s p) = Some q" "q \<in> insert (idleproc s) (set (proc_list s))" "cptr (procs s q) \<noteq> Some q"
  shows "\<exists>i s'. fork_finish p s = Some (i, s') \<and> 0 < i \<and> i < MAX_PID \<and> i \<notin> set (pids s) \<and> table_ok s' \<and> sched_ok s' \<and>
    proc_list s' = p # proc_list s \<and> find_proc i s' = Some p \<and> current s' = current s \<and>
    bare (procs s' p) = bare ((procs s p)\<lparr>pid := i, pstate := PROC_RUNNABLE, wait_state := 0\<rparr>) \<and> proc_parent (procs s' p) = Some q \<and>
    (\<forall>x. x \<noteq> p \<longrightarrow> bare (procs s' x) = bare (procs s x))"
proof -
  obtain i s1 where i: "fork_register p s = Some s1" "table_ok s1" "i \<notin> set (pids s)" "0 < i" "i < MAX_PID" "proc_list s1 = p # proc_list s"
    "table_frame s s1" "\<forall>x. nolinks (procs s1 x) = (if x = p then (nolinks (procs s x))\<lparr>pid := i\<rparr> else nolinks (procs s x))"
    using register_ok[OF t n p(1-3) q] by (fastforce simp: fork_register_def)
  have np: "nolinks (procs s1 p) = nolinks ((procs s p)\<lparr>pid := i\<rparr>)" using i(8) by (simp add: nolinks_def)
  have nx: "nolinks (procs s1 x) = nolinks (procs s x)" if "x \<noteq> p" for x using i(8) that by simp
  have p1: "pstate (procs s1 p) = PROC_UNINIT" "pid (procs s1 p) = i" "proc_parent (procs s1 p) = Some q"
    using arg_cong[OF np, of pstate] arg_cong[OF np, of pid] arg_cong[OF np, of proc_parent] p q by (simp_all add: nolinks_simps)
  have f: "on_rq (procs s1 x) = on_rq (procs s x) \<and> time_slice (procs s1 x) = time_slice (procs s x) \<and> pstate (procs s1 x) = pstate (procs s x)" for x
    using nolinks_eqD[OF nx, of x] nolinks_eqD[OF np] by (cases "x = p") simp_all
  have sc1: "sched_ok s1" by (rule sched_ok_keep[OF sc]) (use i(7) f in \<open>auto simp: table_frame_def\<close>)
  obtain s' where s': "wakeup_proc p s1 = Some s'" "sched_ok s'" "sched_frame s1 s'" "current s' = current s1"
    "\<forall>x. core (procs s' x) = core (if x = p then woken (procs s1 p) else procs s1 x)"
    using wakeup_any[OF sc1, of p] p1 by auto
  have c: "pid (procs s' x) = pid (procs s1 x) \<and> proc_parent (procs s' x) = proc_parent (procs s1 x) \<and> cptr (procs s' x) = cptr (procs s1 x) \<and>
    yptr (procs s' x) = yptr (procs s1 x) \<and> optr (procs s' x) = optr (procs s1 x)" for x
    using core_eqD(2,4,13,14,15)[OF s'(5)[rule_format, of x]] by (simp add: woken_def)
  have m: "proc_list s' = proc_list s1 \<and> hash_list s' = hash_list s1 \<and> nr_process s' = nr_process s1 \<and> last_pid s' = last_pid s1 \<and>
    next_safe s' = next_safe s1 \<and> idleproc s' = idleproc s1" using s'(3) by (cases s1; cases s') (simp add: sched_frame_def)
  have t': "table_ok s'" by (rule table_ok_eq[OF _ i(2)]) (use c m in \<open>simp add: table_eq_def\<close>)
  have l: "proc_list s' = p # proc_list s" using m i(6) by simp
  have "find_proc i s' = Some p" using find_proc_table[OF t', of i p] l c p1 by simp
  moreover have "bare (procs s' x) = bare (procs s x)" if "x \<noteq> p" for x
    using bare_core[OF s'(5)[rule_format, of x]] bare_nolinks[OF nx[OF that]] that by simp
  moreover have "bare (procs s' p) = bare ((procs s p)\<lparr>pid := i, pstate := PROC_RUNNABLE, wait_state := 0\<rparr>)"
    using bare_core[OF s'(5)[rule_format, of p]] bare_woken[OF bare_nolinks[OF np]] p(4) by (simp add: woken_def)
  moreover have "fork_finish p s = Some (i, s')" using i(1) s'(1) c p1 by (simp add: fork_finish_def)
  moreover have "proc_parent (procs s' p) = Some q" using c p1 by simp
  moreover have "current s' = current s" using s'(4) i(7) by (simp add: table_frame_def)
  ultimately show ?thesis using i(3-5) t' s'(2) l by blast
qed

definition fork_start :: "pptr \<Rightarrow> ('f, 'a) os_scheme \<Rightarrow> ('f, 'a) os_scheme" where
  "fork_start p s = upd p (\<lambda>x. x\<lparr>proc_parent := Some (current s)\<rparr>) (snd (alloc_proc (Some p) (boot_cr3 s) s))"

lemma do_fork_steps:
  assumes "nr_process s < MAX_PROCESS" "fb_proc B = Some p" "wait_state (procs s (current s)) = 0" "p \<noteq> current s"
  shows "do_fork D forkret B fl stack tf s = do {
     (ret, s2) \<leftarrow> setup_kstack p (fork_start p s);
     if ret = err E_NO_MEM then Some (err E_NO_MEM, s2)
     else do {
       (ret, s3) \<leftarrow> copy_mm (fb_mm B) (fb_vmas B) fl p s2;
       if ret \<noteq> 0 then fork_cleanup_kstack p s3
       else do {
         (ret, s4) \<leftarrow> copy_files D (fb_files B) fl p s3;
         if ret \<noteq> 0 then fork_cleanup_kstack p s4
         else fork_finish p (copy_thread forkret p stack tf s4) } } }"
  using assms unfolding do_fork_def fork_start_def alloc_proc_def Let_def fork_finish_def by simp

lemma fork_start_ok:
  assumes t: "table_ok s" and sc: "sched_ok s" and c: "current s \<in> insert (idleproc s) (set (proc_list s))"
    and p: "p \<notin> set (proc_list s)" "p \<noteq> idleproc s" "pstate (procs s p) \<noteq> PROC_RUNNABLE"
  shows "table_ok (fork_start p s)" "sched_ok (fork_start p s)" "\<forall>x. x \<noteq> p \<longrightarrow> procs (fork_start p s) x = procs s x"
    "procs (fork_start p s) p = (new_proc (boot_cr3 s) (procs s p))\<lparr>proc_parent := Some (current s)\<rparr>"
    "proc_list (fork_start p s) = proc_list s" "current (fork_start p s) = current s" "idleproc (fork_start p s) = idleproc s"
    "nr_process (fork_start p s) = nr_process s"
proof -
  have e: "fork_start p s = (upd p (\<lambda>x. (new_proc (boot_cr3 s) x)\<lparr>proc_parent := Some (current s)\<rparr>) s)
    \<lparr>nodes := (nodes s)(p := \<lparr>sh_parent = None, sh_left = None, sh_right = None\<rparr>)\<rparr>"
    by (simp add: fork_start_def alloc_proc_def upd_def)
  have "table_eq s (fork_start p s)" using p by (auto simp: table_eq_def e upd_def)
  then show "table_ok (fork_start p s)" using t by (rule table_ok_eq)
  show "sched_ok (fork_start p s)" by (rule sched_ok_fresh[OF sc p(3)]) (use c p in \<open>auto simp: e new_proc_def\<close>)
  show "\<forall>x. x \<noteq> p \<longrightarrow> procs (fork_start p s) x = procs s x"
    "procs (fork_start p s) p = (new_proc (boot_cr3 s) (procs s p))\<lparr>proc_parent := Some (current s)\<rparr>"
    "proc_list (fork_start p s) = proc_list s" "current (fork_start p s) = current s" "idleproc (fork_start p s) = idleproc s"
    "nr_process (fork_start p s) = nr_process s" by (simp_all add: e upd_def)
qed

lemma fork_cleanup_prepares: "fork_cleanup_kstack p s = Some (r, s') \<Longrightarrow> prepares p s s' \<and> r = err E_NO_MEM"
  by (auto simp: fork_cleanup_kstack_def bind_eq_Some_conv dest: put_kstack_prepares)

lemma fork_made:
  assumes t: "table_ok s" and sc: "sched_ok s" and n: "nr_process s < MAX_PROCESS"
    and c: "current s \<in> insert (idleproc s) (set (proc_list s))" "proc_parent (procs s (current s)) \<noteq> Some (current s)"
    and p: "p \<notin> set (proc_list s)" "p \<noteq> idleproc s" "pstate (procs s p) \<noteq> PROC_RUNNABLE"
    and pr: "prepares p (fork_start p s) s4"
  shows "\<exists>r s'. fork_finish p (copy_thread forkret p stack tf s4) = Some (r, s') \<and> 0 < r \<and> r < MAX_PID \<and> r \<notin> set (pids s) \<and>
    table_ok s' \<and> sched_ok s' \<and> current s' = current s \<and> proc_list s' = p # proc_list s \<and> find_proc r s' = Some p \<and>
    pstate (procs s' p) = PROC_RUNNABLE \<and> proc_parent (procs s' p) = Some (current s) \<and>
    (\<exists>g. proc_tf (procs s' p) = Some (tf\<lparr>gpr := g\<rparr>) \<and> g A0 = 0) \<and> (\<forall>x. x \<noteq> p \<longrightarrow> bare (procs s' x) = bare (procs s x)) \<and>
    kstack (procs s' p) = kstack (procs s4 p) \<and> proc_mm (procs s' p) = proc_mm (procs s4 p) \<and> filesp (procs s' p) = filesp (procs s4 p)"
proof -
  let ?s5 = "copy_thread forkret p stack tf s4"
  have pc: "p \<noteq> current s" using c p by auto
  note st = fork_start_ok[OF t sc c(1) p]
  have p5: "prepares p (fork_start p s) ?s5" using pr copy_thread_prepares by (rule prepares_trans)
  note ok = prepares_ok[OF p5 st(1,2)]
  have e: "nr_process ?s5 = nr_process s" "proc_list ?s5 = proc_list s" "idleproc ?s5 = idleproc s" "current ?s5 = current s"
    "\<forall>x. x \<noteq> p \<longrightarrow> procs ?s5 x = procs s x" using p5 st(3,5-8) by (auto simp: prepares_def sched_eq_def)
  have b: "cptr (procs ?s5 p) = None" "pstate (procs ?s5 p) = PROC_UNINIT" "proc_parent (procs ?s5 p) = Some (current s)"
    using fork_bareD(4,1,3)[of "procs ?s5 p" "procs (fork_start p s) p"] p5 by (simp_all add: prepares_def st(4) new_proc_def)
  have tr: "ptree (procs s) (idleproc s) (proc_list s)" using t by (simp add: table_ok_def)
  have "cptr (procs ?s5 (current s)) \<noteq> Some (current s)" using kids_no_self(2)[OF tr c(1)] c(2) e(5) pc by auto
  then obtain r s' where r: "fork_finish p ?s5 = Some (r, s')" "0 < r" "r < MAX_PID" "r \<notin> set (pids ?s5)" "table_ok s'" "sched_ok s'"
    "proc_list s' = p # proc_list s" "find_proc r s' = Some p" "current s' = current s"
    "bare (procs s' p) = bare ((procs ?s5 p)\<lparr>pid := r, pstate := PROC_RUNNABLE, wait_state := 0\<rparr>)" "proc_parent (procs s' p) = Some (current s)"
    "\<forall>x. x \<noteq> p \<longrightarrow> bare (procs s' x) = bare (procs ?s5 x)"
    using fork_finish_ok[OF ok, of p "current s"] n p c b unfolding e by blast
  have "pids ?s5 = pids s" using e p(1) by (auto intro!: map_cong)
  moreover have "proc_tf (procs s' p) = proc_tf (procs ?s5 p)" using arg_cong[OF r(10), of proc_tf] by (simp add: bare_simps)
  moreover have "kstack (procs ?s5 p) = kstack (procs s4 p) \<and> proc_mm (procs ?s5 p) = proc_mm (procs s4 p) \<and> filesp (procs ?s5 p) = filesp (procs s4 p) \<and>
    (\<exists>g. proc_tf (procs ?s5 p) = Some (tf\<lparr>gpr := g\<rparr>) \<and> g A0 = 0)" by (auto simp: copy_thread_def Let_def)
  ultimately show ?thesis using r bare_eqD(1,3,4,7)[OF r(10)] e(5) by auto
qed

lemma fork_split:
  assumes "do {
     (ret, s2) \<leftarrow> setup_kstack p s1;
     if ret = err E_NO_MEM then Some (err E_NO_MEM, s2)
     else do {
       (ret, s3) \<leftarrow> copy_mm bm bv fl p s2;
       if ret \<noteq> 0 then fork_cleanup_kstack p s3
       else do {
         (ret, s4) \<leftarrow> copy_files D bf fl p s3;
         if ret \<noteq> 0 then fork_cleanup_kstack p s4
         else fork_finish p (copy_thread forkret p stack tf s4) } } } = Some (r, s')"
  obtains "prepares p s1 s'" "r = err E_NO_MEM" | s4 where "prepares p s1 s4" "fork_finish p (copy_thread forkret p stack tf s4) = Some (r, s')"
proof -
  obtain a s2 where 2: "setup_kstack p s1 = Some (a, s2)" using assms by (auto simp: bind_eq_Some_conv)
  note p2 = setup_kstack_prepares[OF 2]
  show thesis
  proof (cases "a = err E_NO_MEM")
    case False
    then obtain b s3 where 3: "copy_mm bm bv fl p s2 = Some (b, s3)" using assms 2 by (auto simp: bind_eq_Some_conv)
    have p3: "prepares p s1 s3" using p2 copy_mm_prepares[OF 3] prepares_trans by blast
    show thesis
    proof (cases "b = 0")
      case True
      then obtain d s4 where 4: "copy_files D bf fl p s3 = Some (d, s4)" using assms 2 3 False by (auto simp: bind_eq_Some_conv)
      have p4: "prepares p s1 s4" using p3 copy_files_prepares[OF 4] prepares_trans by blast
      show thesis
      proof (cases "d = 0")
        case True
        then show thesis using that(2)[OF p4] assms 2 3 4 False \<open>b = 0\<close> by simp
      next
        case d: False
        then have "fork_cleanup_kstack p s4 = Some (r, s')" using assms 2 3 4 False True by simp
        then show thesis using that(1) fork_cleanup_prepares prepares_trans[OF p4] by blast
      qed
    next
      case b: False
      then have "fork_cleanup_kstack p s3 = Some (r, s')" using assms 2 3 False by simp
      then show thesis using that(1) fork_cleanup_prepares prepares_trans[OF p3] by blast
    qed
  qed (use assms 2 p2 that(1) in simp)
qed

text \<open>C35: \<^verbatim>\<open>do_fork\<close>. With a full table it returns \<open>E_NO_FREE_PROC\<close> and changes nothing. Whatever it returns
  otherwise, the process table and the run queue are consistent, the caller keeps running and no other process is changed
  apart from its links. A positive result is a pid no process had: the block is now a process with that pid, the
  first of the list, runnable, a child of the caller, which returns from the system call with 0. Any other result is
  \<open>E_NO_MEM\<close>, and the list of processes is as before. If the stack, the address space and the files can be had, a
  child is made, with these.\<close>

theorem do_fork_correct:
  assumes t: "table_ok s" and sc: "sched_ok s"
    and c: "current s \<in> insert (idleproc s) (set (proc_list s))" "wait_state (procs s (current s)) = 0" "proc_parent (procs s (current s)) \<noteq> Some (current s)"
    and p: "fb_proc B = Some p" "p \<notin> set (proc_list s)" "p \<noteq> idleproc s" "pstate (procs s p) \<noteq> PROC_RUNNABLE"
  shows "if nr_process s \<ge> MAX_PROCESS then do_fork D forkret B fl stack tf s = Some (err E_NO_FREE_PROC, s)
    else (\<forall>r s'. do_fork D forkret B fl stack tf s = Some (r, s') \<longrightarrow>
      table_ok s' \<and> sched_ok s' \<and> current s' = current s \<and> (\<forall>x. x \<noteq> p \<longrightarrow> bare (procs s' x) = bare (procs s x)) \<and>
      (if 0 < r then r < MAX_PID \<and> r \<notin> set (pids s) \<and> proc_list s' = p # proc_list s \<and> find_proc r s' = Some p \<and>
         pstate (procs s' p) = PROC_RUNNABLE \<and> proc_parent (procs s' p) = Some (current s) \<and>
         (\<exists>g. proc_tf (procs s' p) = Some (tf\<lparr>gpr := g\<rparr>) \<and> g A0 = 0)
       else r = err E_NO_MEM \<and> proc_list s' = proc_list s)) \<and>
     (\<forall>s2 s3 s4. setup_kstack p (fork_start p s) = Some (0, s2) \<and> copy_mm (fb_mm B) (fb_vmas B) fl p s2 = Some (0, s3) \<and>
        copy_files D (fb_files B) fl p s3 = Some (0, s4) \<longrightarrow>
      (\<exists>r s'. do_fork D forkret B fl stack tf s = Some (r, s') \<and> 0 < r \<and> kstack (procs s' p) = kstack (procs s4 p) \<and>
        proc_mm (procs s' p) = proc_mm (procs s4 p) \<and> filesp (procs s' p) = filesp (procs s4 p)))"
proof (cases "nr_process s \<ge> MAX_PROCESS")
  case False
  have pc: "p \<noteq> current s" using c p by auto
  let ?s1 = "fork_start p s"
  note st = fork_start_ok[OF t sc c(1) p(2-4)]
  have eq: "do_fork D forkret B fl stack tf s = do {
     (ret, s2) \<leftarrow> setup_kstack p ?s1;
     if ret = err E_NO_MEM then Some (err E_NO_MEM, s2)
     else do {
       (ret, s3) \<leftarrow> copy_mm (fb_mm B) (fb_vmas B) fl p s2;
       if ret \<noteq> 0 then fork_cleanup_kstack p s3
       else do {
         (ret, s4) \<leftarrow> copy_files D (fb_files B) fl p s3;
         if ret \<noteq> 0 then fork_cleanup_kstack p s4
         else fork_finish p (copy_thread forkret p stack tf s4) } } }"
    by (rule do_fork_steps) (use False p c pc in auto)
  have pre: "table_ok a \<and> sched_ok a \<and> current a = current s \<and> proc_list a = proc_list s \<and> (\<forall>x. x \<noteq> p \<longrightarrow> procs a x = procs s x)"
    if "prepares p ?s1 a" for a
    using prepares_ok[OF that st(1,2)] that st(3,5,6) by (auto simp: prepares_def sched_eq_def)
  note mk = fork_made[OF t sc _ c(1,3) p(2-4), of _ forkret stack tf]
  have "table_ok s' \<and> sched_ok s' \<and> current s' = current s \<and> (\<forall>x. x \<noteq> p \<longrightarrow> bare (procs s' x) = bare (procs s x)) \<and>
      (if 0 < r then r < MAX_PID \<and> r \<notin> set (pids s) \<and> proc_list s' = p # proc_list s \<and> find_proc r s' = Some p \<and>
         pstate (procs s' p) = PROC_RUNNABLE \<and> proc_parent (procs s' p) = Some (current s) \<and>
         (\<exists>g. proc_tf (procs s' p) = Some (tf\<lparr>gpr := g\<rparr>) \<and> g A0 = 0)
       else r = err E_NO_MEM \<and> proc_list s' = proc_list s)"
    if r: "do_fork D forkret B fl stack tf s = Some (r, s')" for r s'
  proof -
    consider "prepares p ?s1 s'" "r = err E_NO_MEM" | s4 where "prepares p ?s1 s4" "fork_finish p (copy_thread forkret p stack tf s4) = Some (r, s')"
      using r fork_split unfolding eq by blast
    then show ?thesis
    proof cases
      case 1
      then show ?thesis using pre by simp
    next
      case 2
      then show ?thesis using mk[OF _ 2(1)] False by auto
    qed
  qed
  moreover have "\<exists>r s'. do_fork D forkret B fl stack tf s = Some (r, s') \<and> 0 < r \<and> kstack (procs s' p) = kstack (procs s4 p) \<and>
        proc_mm (procs s' p) = proc_mm (procs s4 p) \<and> filesp (procs s' p) = filesp (procs s4 p)"
    if "setup_kstack p ?s1 = Some (0, s2)" "copy_mm (fb_mm B) (fb_vmas B) fl p s2 = Some (0, s3)" "copy_files D (fb_files B) fl p s3 = Some (0, s4)" for s2 s3 s4
  proof -
    have "prepares p ?s1 s4"
      using setup_kstack_prepares[OF that(1)] copy_mm_prepares[OF that(2)] copy_files_prepares[OF that(3)] prepares_trans by blast
    then show ?thesis using mk[of s4] that False unfolding eq by auto
  qed
  ultimately show ?thesis unfolding if_not_P[OF False] by blast
qed (simp add: do_fork_def)

subsection \<open>Five processes\<close>

text \<open>\<^verbatim>\<open>idleproc\<close> 0, \<^verbatim>\<open>initproc\<close> 2, its child 4, which waits for a child, 4's child 1, which runs and shares its
  address space and its files, and 1's child 3, a zombie with its kernel stack in the first two pages above
  the kernel image.\<close>

definition sample_oprocs :: "pptr \<Rightarrow> proc_struct" where
  "sample_oprocs p =
     (if p = 0 then (sample_procs 0)\<lparr>cptr := Some 2\<rparr>
      else if p = 1 then (sample_procs 1)\<lparr>proc_parent := Some 4, cptr := Some 3, proc_mm := Some 0, filesp := Some 0\<rparr>
      else if p = 2 then (sample_procs 2)\<lparr>proc_parent := Some 0, cptr := Some 4\<rparr>
      else if p = 3 then blank_proc\<lparr>pstate := PROC_ZOMBIE, pid := 3, exit_code := 7, kstack := page_address 512, proc_parent := Some 1\<rparr>
      else if p = 4 then blank_proc\<lparr>pstate := PROC_SLEEPING, pid := 4, wait_state := WT_CHILD, proc_parent := Some 2, cptr := Some 1\<rparr>
      else blank_proc)"

definition sample_files :: fs_state where
  "sample_files = \<lparr>fmem = \<lambda>_. 0, inodes = \<lambda>_. \<lparr>ref_count = 1, open_count = 0, in_fs = None\<rparr>,
     tables = \<lambda>_. \<lparr>pwd = None, fd_array = [], files_count = 2\<rparr>, bootfs_node = None, vdev_list = []\<rparr>"

definition sample_opmm :: pmm where
  "sample_opmm = \<lparr>
     pg = (\<lambda>i. \<lparr>ref = 0, flags = (if i = 514 then 2 else 0), property = (if i = 514 then 4 else 0),
                pra_vaddr = 0, visited = 0\<rparr>),
     links = (\<lambda>l. case l of FreeHead \<Rightarrow> \<lparr>le_prev = PageLink 514, le_next = PageLink 514\<rparr>
                        | PageLink _ \<Rightarrow> \<lparr>le_prev = FreeHead, le_next = FreeHead\<rparr>),
     nr_free = 4\<rparr>"

definition sample_os :: "unit os" where
  "sample_os = kernel.extend (sample_kernel\<lparr>procs := sample_oprocs, initproc := 2, proc_list := [3, 1, 4, 2],
       hash_list := \<lambda>i. filter (\<lambda>p. pid_hashfn (pid (sample_oprocs p)) = i) [3, 1, 4, 2], nr_process := 5, last_pid := 4\<rparr>)
     (os.fields \<lparr>pm = sample_opmm, ram = \<lambda>_ _. 0, swap_init_ok = True\<rparr> (\<lambda>_. \<lparr>mmap_list = [], mmap_cache = None, pgdir = Some 600, map_count = 0, mm_count = 2\<rparr>) sample_files 0 0)"

lemma sample_os_simps [simp]:
  "procs sample_os = sample_oprocs" "nodes sample_os = nodes sample_k" "rq sample_os = rq sample_k"
  "current sample_os = 1" "idleproc sample_os = 0" "initproc sample_os = 2" "proc_list sample_os = [3, 1, 4, 2]"
  "hash_list sample_os = (\<lambda>i. filter (\<lambda>p. pid_hashfn (pid (sample_oprocs p)) = i) [3, 1, 4, 2])"
  "nr_process sample_os = 5" "last_pid sample_os = 4" "next_safe sample_os = MAX_PID" "okmem sample_os = \<lparr>pm = sample_opmm, ram = \<lambda>_ _. 0, swap_init_ok = True\<rparr>"
  "mms sample_os = (\<lambda>_. \<lparr>mmap_list = [], mmap_cache = None, pgdir = Some 600, map_count = 0, mm_count = 2\<rparr>)"
  "ofs sample_os = sample_files"
  by (simp_all add: sample_os_def sample_kernel_def sample_t_def sample_k_def kstate.defs tstate.defs kernel.defs os.defs)

lemma sample_oprocs_simps:
  "pid (sample_oprocs 0) = 0" "pid (sample_oprocs 1) = 1" "pid (sample_oprocs 2) = 2" "pid (sample_oprocs 3) = 3" "pid (sample_oprocs 4) = 4"
  "proc_parent (sample_oprocs 1) = Some 4" "proc_parent (sample_oprocs 2) = Some 0" "proc_parent (sample_oprocs 3) = Some 1" "proc_parent (sample_oprocs 4) = Some 2"
  "cptr (sample_oprocs 0) = Some 2" "cptr (sample_oprocs 1) = Some 3" "cptr (sample_oprocs 2) = Some 4" "cptr (sample_oprocs 3) = None" "cptr (sample_oprocs 4) = Some 1"
  "optr (sample_oprocs p) = None" "yptr (sample_oprocs p) = None"
  "pstate (sample_oprocs 2) = PROC_RUNNABLE" "pstate (sample_oprocs 3) = PROC_ZOMBIE" "pstate (sample_oprocs 4) = PROC_SLEEPING"
  "wait_state (sample_oprocs 4) = WT_CHILD" "exit_code (sample_oprocs 3) = 7" "kstack (sample_oprocs 3) = page_address 512"
  "proc_mm (sample_oprocs 1) = Some 0" "filesp (sample_oprocs 1) = Some 0"
  by (simp_all add: sample_oprocs_def sample_procs_def blank_proc_def)

lemma sample_os_ok: "table_ok sample_os" "sched_ok sample_os"
proof -
  have "ptree sample_oprocs 0 [3, 1, 4, 2]"
  proof -
    let ?ok = "\<lambda>r xs. kids sample_oprocs r xs \<and> distinct xs \<and> set xs = children sample_oprocs [3, 1, 4, 2] r"
    have "?ok 0 [2]" "?ok 1 [3]" "?ok 2 [4]" "?ok 3 []" "?ok 4 [1]"
      by (auto simp: kids_def children_def sample_oprocs_simps[simplified])
    then have "\<forall>r \<in> {0, 1, 2, 3, 4}. \<exists>xs. ?ok r xs" by blast
    then have "\<forall>r \<in> insert 0 (set [3, 1, 4, 2]). \<exists>xs. ?ok r xs" by auto
    moreover have "\<forall>x \<in> set [3, 1, 4, 2]. \<exists>r \<in> insert 0 (set [3, 1, 4, 2]). proc_parent (sample_oprocs x) = Some r"
      by (simp add: sample_oprocs_simps[simplified])
    ultimately show ?thesis unfolding ptree_def by simp
  qed
  moreover have "hash_ok sample_os" unfolding hash_ok_def by (auto simp: sample_oprocs_simps[simplified])
  ultimately show "table_ok sample_os"
    by (simp add: table_ok_def sample_oprocs_simps[simplified] pid_window_def MAX_PID_def MAX_PROCESS_def)
  have "pstate (sample_oprocs p) = PROC_RUNNABLE \<longleftrightarrow> p \<in> {0, 1, 2}" for p
    by (simp add: sample_oprocs_def sample_procs_def blank_proc_def)
  then have "runnable sample_os = {1, 2}" by (auto simp: runnable_def)
  moreover have "rq_ok (Node Leaf 2 Leaf) sample_os"
    by (simp add: rq_ok_def sample_k_def child_root_def child_of_def sample_oprocs_def sample_procs_def blank_proc_def)
  moreover have "0 \<le> time_slice (sample_oprocs p)" for p by (simp add: sample_oprocs_def sample_procs_def blank_proc_def)
  moreover have "0 < max_time_slice (rq sample_os)" by (simp add: sample_k_def)
  ultimately have "sched_at (Node Leaf 2 Leaf) sample_os" by (auto simp: sched_at_def)
  then show "sched_ok sample_os" unfolding sched_ok_def by blast
qed

lemma sample_opmm_wf: "fl_wf sample_opmm [514]"
  by (rule fl_wfI) (auto simp: sample_opmm_def ring_def page_flag_defs)

lemma sample_os_stack: "kva2page (page_address 512) = Some 512" "\<exists>k. free_pages 512 KSTACKPAGE (okmem sample_os) = Some k"
proof -
  have "page_address 512 - va_pa_offset = page2pa 512" by (simp add: page_address_def)
  moreover have "KERNBASE \<le> page_address 512"
    by (simp add: KERNBASE_def page_address_def va_pa_offset_def page2pa_def page2ppn_def nbase_def push_bit_eq_mult)
  ultimately show "kva2page (page_address 512) = Some 512"
    using frame_of_ppn(1)[of 512 "page2pa 512"] PPN_page2pa[of 512] by (simp add: kva2page_def PADDR_def nframes_def npage_def nbase_def)
  obtain p where "default_free_pages 512 2 sample_opmm = Some p"
    by (rule default_free_pages_wf[OF sample_opmm_wf, of 2 512]) (auto simp: sample_opmm_def page_flag_defs)
  then show "\<exists>k. free_pages 512 KSTACKPAGE (okmem sample_os) = Some k" by (simp add: free_pages_def KSTACKPAGE_def)
qed

theorem do_exit_correct_witness:
  "\<forall>D. \<exists>s'. do_exit D 9 sample_os = Some s' \<and> table_ok s' \<and> sched_ok s' \<and> pstate (procs s' 1) = PROC_ZOMBIE \<and>
     exit_code (procs s' 1) = 9 \<and> children (procs s') [3, 1, 4, 2] 1 = {} \<and> children (procs s') [3, 1, 4, 2] 2 = {3, 4} \<and>
     pstate (procs s' 4) = PROC_RUNNABLE"
proof
  fix D :: "fs_state drv"
  have e: "\<exists>s0. exit_mm D sample_os = Some s0"
    by (simp add: exit_mm_def sample_oprocs_simps[simplified] put_files_def upd_mm_def upd_def mm_count_dec_def add_files_count_def sample_files_def)
  then obtain s0 where s0: "exit_mm D sample_os = Some s0" by blast
  have c: "children sample_oprocs [3, 1, 4, 2] 2 \<union> children sample_oprocs [3, 1, 4, 2] 1 = {3, 4}"
    by (auto simp: children_def sample_oprocs_simps[simplified])
  show "\<exists>s'. do_exit D 9 sample_os = Some s' \<and> table_ok s' \<and> sched_ok s' \<and> pstate (procs s' 1) = PROC_ZOMBIE \<and>
     exit_code (procs s' 1) = 9 \<and> children (procs s') [3, 1, 4, 2] 1 = {} \<and> children (procs s') [3, 1, 4, 2] 2 = {3, 4} \<and>
     pstate (procs s' 4) = PROC_RUNNABLE"
    using do_exit_correct[OF sample_os_ok, of 4 D s0 9] s0 c
    by (auto simp: sample_oprocs_simps[simplified])
qed

theorem do_wait_correct_witness:
  "awaited 0 sample_os = {3} \<and> do_wait_repeat 5 sample_os = Some (Some (Inl (err E_BAD_PROC)), sample_os) \<and>
   (\<exists>s'. do_wait_repeat 0 sample_os = Some (Some (Inr 7), s') \<and> table_ok s' \<and> proc_list s' = [1, 4, 2] \<and> find_proc 3 s' = None)"
proof -
  have a: "awaited 0 sample_os = {3}" "awaited 5 sample_os = {}"
    by (auto simp: awaited_def children_def sample_oprocs_simps[simplified])
  have c: "children sample_oprocs [3, 1, 4, 2] 3 = {}" by (auto simp: children_def sample_oprocs_simps[simplified])
  note w = do_wait_correct[OF sample_os_ok]
  have "do_wait_repeat 5 sample_os = Some (Some (Inl (err E_BAD_PROC)), sample_os)" using w[of 5] a by simp
  moreover have "\<exists>s'. do_wait_repeat 0 sample_os = Some (Some (Inr 7), s') \<and> table_ok s' \<and> proc_list s' = [1, 4, 2] \<and> find_proc 3 s' = None"
    using w[of 0] a c sample_os_stack by (auto simp: sample_oprocs_simps[simplified])
  ultimately show ?thesis using a by simp
qed

lemma sample_os_fork:
  "\<exists>k. setup_kstack 5 (fork_start 5 sample_os) = Some (0, upd 5 (\<lambda>x. x\<lparr>kstack := page_address 514\<rparr>) ((fork_start 5 sample_os)\<lparr>okmem := k\<rparr>))"
  "\<exists>pa. PADDR (page_address 600) = Some pa"
proof -
  have "okmem (fork_start 5 sample_os) = okmem sample_os" by (simp add: fork_start_def alloc_proc_def upd_def)
  moreover have "\<exists>k. alloc_pages KSTACKPAGE (okmem sample_os) = Some (Some 514, k)"
    by (simp add: alloc_pages_def KSTACKPAGE_def default_alloc_pages_wf[OF sample_opmm_wf]) (simp add: sample_opmm_def)
  moreover have "page2kva 514 = Some 514" by (rule frame_simps(2)) (simp add: nframes_def npage_def nbase_def)
  ultimately show "\<exists>k. setup_kstack 5 (fork_start 5 sample_os) = Some (0, upd 5 (\<lambda>x. x\<lparr>kstack := page_address 514\<rparr>) ((fork_start 5 sample_os)\<lparr>okmem := k\<rparr>))"
    by (auto simp: setup_kstack_def Let_def)
  show "\<exists>pa. PADDR (page_address 600) = Some pa"
    by (simp add: PADDR_def KERNBASE_def page_address_def va_pa_offset_def page2pa_def page2ppn_def nbase_def push_bit_eq_mult)
qed

theorem do_fork_correct_witness:
  "\<forall>D tf. \<exists>r s'. do_fork D 0 \<lparr>fb_proc = Some 5, fb_mm = None, fb_vmas = [], fb_files = None\<rparr> (CLONE_VM OR CLONE_FS) 0 tf sample_os = Some (r, s') \<and>
     0 < r \<and> r \<notin> {1, 2, 3, 4} \<and> table_ok s' \<and> proc_list s' = [5, 3, 1, 4, 2] \<and> pstate (procs s' 5) = PROC_RUNNABLE \<and>
     proc_parent (procs s' 5) = Some 1 \<and> kstack (procs s' 5) = page_address 514 \<and> proc_mm (procs s' 5) = Some 0 \<and> filesp (procs s' 5) = Some 0"
proof (intro allI)
  fix D :: "fs_state drv" and tf :: trapframe
  let ?B = "\<lparr>fb_proc = Some 5, fb_mm = None, fb_vmas = [], fb_files = None\<rparr>" and ?fl = "CLONE_VM OR CLONE_FS"
  obtain k where k: "setup_kstack 5 (fork_start 5 sample_os) = Some (0, upd 5 (\<lambda>x. x\<lparr>kstack := page_address 514\<rparr>) ((fork_start 5 sample_os)\<lparr>okmem := k\<rparr>))"
    using sample_os_fork(1) by blast
  define s2 where "s2 = upd 5 (\<lambda>x. x\<lparr>kstack := page_address 514\<rparr>) ((fork_start 5 sample_os)\<lparr>okmem := k\<rparr>)"
  have f: "current s2 = 1" "procs s2 1 = sample_oprocs 1" "mms s2 = mms sample_os" "kstack (procs s2 5) = page_address 514"
    by (simp_all add: s2_def fork_start_def alloc_proc_def upd_def)
  have fl: "?fl AND CLONE_VM \<noteq> 0" "?fl AND CLONE_FS \<noteq> 0" by (simp_all add: CLONE_VM_def CLONE_FS_def)
  obtain pa where pa: "PADDR (page_address 600) = Some pa" using sample_os_fork(2) by blast
  define s3 where "s3 = upd 5 (\<lambda>x. x\<lparr>cr3 := pa\<rparr>) (upd 5 (\<lambda>x. x\<lparr>proc_mm := Some 0\<rparr>) (upd_mm 0 mm_count_inc s2))"
  have c3: "copy_mm None [] ?fl 5 s2 = Some (0, s3)"
    unfolding copy_mm_def f sample_oprocs_simps option.case if_P[OF fl(1)]
    using pa f(3) by (simp add: copy_mm_done_def s3_def upd_mm_def upd_def mm_count_inc_def)
  have g: "current s3 = 1" "procs s3 1 = sample_oprocs 1" "kstack (procs s3 5) = page_address 514" "proc_mm (procs s3 5) = Some 0"
    using f by (simp_all add: s3_def upd_mm_def)
  obtain s4 where c4: "copy_files D None ?fl 5 s3 = Some (0, s4)" "kstack (procs s4 5) = page_address 514" "proc_mm (procs s4 5) = Some 0" "filesp (procs s4 5) = Some 0"
    unfolding copy_files_def g sample_oprocs_simps if_P[OF fl(2)] using g(3,4) by simp
  show "\<exists>r s'. do_fork D 0 ?B ?fl 0 tf sample_os = Some (r, s') \<and>
     0 < r \<and> r \<notin> {1, 2, 3, 4} \<and> table_ok s' \<and> proc_list s' = [5, 3, 1, 4, 2] \<and> pstate (procs s' 5) = PROC_RUNNABLE \<and>
     proc_parent (procs s' 5) = Some 1 \<and> kstack (procs s' 5) = page_address 514 \<and> proc_mm (procs s' 5) = Some 0 \<and> filesp (procs s' 5) = Some 0"
  proof -
    have w: "current sample_os \<in> insert (idleproc sample_os) (set (proc_list sample_os))" "wait_state (procs sample_os (current sample_os)) = 0"
      "proc_parent (procs sample_os (current sample_os)) \<noteq> Some (current sample_os)" "fb_proc ?B = Some 5" "5 \<notin> set (proc_list sample_os)"
      "5 \<noteq> idleproc sample_os" "pstate (procs sample_os 5) \<noteq> PROC_RUNNABLE"
      by (simp_all add: sample_oprocs_def sample_procs_def blank_proc_def)
    have n: "\<not> nr_process sample_os \<ge> MAX_PROCESS" by (simp add: MAX_PROCESS_def)
    note d = do_fork_correct[OF sample_os_ok w, of D 0 ?fl 0 tf, unfolded if_not_P[OF n]]
    obtain r s' where r: "do_fork D 0 ?B ?fl 0 tf sample_os = Some (r, s')" "0 < r" "kstack (procs s' 5) = kstack (procs s4 5)"
        "proc_mm (procs s' 5) = proc_mm (procs s4 5)" "filesp (procs s' 5) = filesp (procs s4 5)"
      using conjunct2[OF d, rule_format, of s2 s3 s4] k[folded s2_def] c3 c4(1) by auto
    show ?thesis using conjunct1[OF d, rule_format, OF r(1)] r c4 by (auto simp: sample_oprocs_simps[simplified])
  qed
qed

end
