(* ===== verification/Swap.thy ===== *)
theory Swap
  imports Address_Space Vmm "HOL-Library.Multiset"
begin

text \<open>
  Swapping and page faults: \<^verbatim>\<open>src/kern/mm/swap.c\<close> with its managers \<^verbatim>\<open>swap_fifo.c\<close> and \<^verbatim>\<open>swap_clock.c\<close>,
  \<^verbatim>\<open>src/kern/fs/swap/swapfs.c\<close> and \<^verbatim>\<open>do_pgfault\<close> of \<^verbatim>\<open>src/kern/mm/vmm.c\<close>. The list \<^verbatim>\<open>pra_list_head\<close> is a ring in
  a store of links (theory \<open>Ring\<close>), the member \<^verbatim>\<open>sm_priv\<close> of an \<^verbatim>\<open>mm_struct\<close> is an argument (NULL or the
  head of that list), and the swap device is an array of page-sized slots: \<^verbatim>\<open>swap_offset\<close> panics outside of it, and the
  transfers inside do not fail. A manager is a record of functions, as \<^verbatim>\<open>struct swap_manager\<close> is; its promise
  is the locale \<open>swap_manager\<close>, which the FIFO manager satisfies. The clock manager, which is the one in
  use, chooses as the clock algorithm says but does not satisfy it: its hand stays on the page it took out.
\<close>

unbundle bit_operations_syntax

datatype pralink = PraHead | PraLink nat

record swap_state =
  skm :: kmem
  pra :: "pralink lstore"
  curr_ptr :: pralink
  slots :: "nat \<Rightarrow> nat \<Rightarrow> 64 word"
  max_swap_offset :: nat

definition upd_desc :: "nat \<Rightarrow> (Page \<Rightarrow> Page) \<Rightarrow> swap_state \<Rightarrow> swap_state" where
  "upd_desc p f s = s\<lparr>skm := (skm s)\<lparr>pm := upd_page p f (pm (skm s))\<rparr>\<rparr>"

subsection \<open>The swap device\<close>

definition MAX_SWAP_OFFSET_LIMIT :: nat where "MAX_SWAP_OFFSET_LIMIT = 2 ^ 24"

text \<open>\<open>secs\<close> is the size of the device in sectors, \<open>None\<close> for a device that is not valid.\<close>

definition swapfs_init :: "nat option \<Rightarrow> swap_state \<Rightarrow> swap_state option" where
  "swapfs_init secs s = do { n \<leftarrow> secs; Some (s\<lparr>max_swap_offset := n div 8\<rparr>) }"

definition swap_offset :: "64 word \<Rightarrow> swap_state \<Rightarrow> nat option" where
  "swap_offset entry s = (let off = unat (drop_bit 8 entry) in do { kassert (0 < off \<and> off < max_swap_offset s); Some off })"

definition swapfs_read :: "64 word \<Rightarrow> nat \<Rightarrow> swap_state \<Rightarrow> (int \<times> swap_state) option" where
  "swapfs_read entry page s = do {
     off \<leftarrow> swap_offset entry s;
     f \<leftarrow> page2kva page;
     Some (0, s\<lparr>skm := (skm s)\<lparr>ram := (ram (skm s))(f := slots s off)\<rparr>\<rparr>) }"

definition swapfs_write :: "64 word \<Rightarrow> nat \<Rightarrow> swap_state \<Rightarrow> (int \<times> swap_state) option" where
  "swapfs_write entry page s = do {
     off \<leftarrow> swap_offset entry s;
     f \<leftarrow> page2kva page;
     Some (0, s\<lparr>slots := (slots s)(off := ram (skm s) f)\<rparr>) }"

subsection \<open>First in, first out\<close>

text \<open>\<open>head\<close> is \<^verbatim>\<open>mm->sm_priv\<close>. Without a page in the list \<^verbatim>\<open>le2page\<close> is taken of the list head.\<close>

definition fifo_init_mm :: "swap_state \<Rightarrow> int \<times> pralink option \<times> swap_state" where
  "fifo_init_mm s = (0, Some PraHead, s\<lparr>pra := list_init PraHead (pra s)\<rparr>)"

definition fifo_map_swappable :: "pralink option \<Rightarrow> 64 word \<Rightarrow> nat \<Rightarrow> bool \<Rightarrow> swap_state \<Rightarrow> (int \<times> swap_state) option" where
  "fifo_map_swappable head addr page inp s = do {
     h \<leftarrow> head;
     Some (0, s\<lparr>pra := list_add_before h (PraLink page) (pra s)\<rparr>) }"

definition fifo_swap_out_victim :: "pralink option \<Rightarrow> bool \<Rightarrow> swap_state \<Rightarrow> (int \<times> nat \<times> swap_state) option" where
  "fifo_swap_out_victim head in_tick s = do {
     h \<leftarrow> head;
     kassert (\<not> in_tick);
     let e = list_next h (pra s);
     let s = s\<lparr>pra := list_del e (pra s)\<rparr>;
     case e of PraHead \<Rightarrow> None | PraLink p \<Rightarrow> Some (0, p, s) }"

subsection \<open>The clock\<close>

definition clock_init_mm :: "swap_state \<Rightarrow> int \<times> pralink option \<times> swap_state" where
  "clock_init_mm s = (0, Some PraHead, s\<lparr>pra := list_init PraHead (pra s), curr_ptr := PraHead\<rparr>)"

definition clock_map_swappable :: "pralink option \<Rightarrow> 64 word \<Rightarrow> nat \<Rightarrow> bool \<Rightarrow> swap_state \<Rightarrow> (int \<times> swap_state) option" where
  "clock_map_swappable head addr page inp s = do {
     h \<leftarrow> head;
     let s = s\<lparr>pra := list_add_before h (PraLink page) (pra s)\<rparr>;
     Some (0, upd_desc page (\<lambda>d. d\<lparr>visited := 1\<rparr>) s) }"

partial_function (option) clock_loop :: "pralink \<Rightarrow> swap_state \<Rightarrow> (int \<times> nat \<times> swap_state) option" where
  "clock_loop h s =
     (if curr_ptr s = h then clock_loop h (s\<lparr>curr_ptr := list_next (curr_ptr s) (pra s)\<rparr>)
      else case curr_ptr s of
        PraHead \<Rightarrow> None
      | PraLink p \<Rightarrow>
          if visited (pg (pm (skm s)) p) = 1
          then clock_loop h ((upd_desc p (\<lambda>d. d\<lparr>visited := 0\<rparr>) s)\<lparr>curr_ptr := list_next (curr_ptr s) (pra s)\<rparr>)
          else Some (0, p, s\<lparr>pra := list_del (curr_ptr s) (pra s)\<rparr>))"

declare clock_loop.simps [code]

definition clock_swap_out_victim :: "pralink option \<Rightarrow> bool \<Rightarrow> swap_state \<Rightarrow> (int \<times> nat \<times> swap_state) option" where
  "clock_swap_out_victim head in_tick s = do {
     h \<leftarrow> head;
     kassert (\<not> in_tick);
     clock_loop h s }"

subsection \<open>The swap manager interface\<close>

record swap_manager_ops =
  sm_init_mm :: "swap_state \<Rightarrow> int \<times> pralink option \<times> swap_state"
  sm_map_swappable :: "pralink option \<Rightarrow> 64 word \<Rightarrow> nat \<Rightarrow> bool \<Rightarrow> swap_state \<Rightarrow> (int \<times> swap_state) option"
  sm_swap_out_victim :: "pralink option \<Rightarrow> bool \<Rightarrow> swap_state \<Rightarrow> (int \<times> nat \<times> swap_state) option"

definition swap_manager_fifo :: swap_manager_ops where
  "swap_manager_fifo = \<lparr>sm_init_mm = fifo_init_mm, sm_map_swappable = fifo_map_swappable, sm_swap_out_victim = fifo_swap_out_victim\<rparr>"

definition swap_manager_clock :: swap_manager_ops where
  "swap_manager_clock = \<lparr>sm_init_mm = clock_init_mm, sm_map_swappable = clock_map_swappable, sm_swap_out_victim = clock_swap_out_victim\<rparr>"

text \<open>\<^verbatim>\<open>swap_init\<close> without the self check; the manager it chooses is the first result.\<close>

definition swap_init :: "nat option \<Rightarrow> swap_state \<Rightarrow> (swap_manager_ops \<times> int \<times> swap_state) option" where
  "swap_init secs s = do {
     s \<leftarrow> swapfs_init secs s;
     kassert (7 \<le> max_swap_offset s \<and> max_swap_offset s < MAX_SWAP_OFFSET_LIMIT);
     Some (swap_manager_clock, 0, s\<lparr>skm := (skm s)\<lparr>swap_init_ok := True\<rparr>\<rparr>) }"

definition swap_init_mm :: "swap_manager_ops \<Rightarrow> swap_state \<Rightarrow> int \<times> pralink option \<times> swap_state" where
  "swap_init_mm sm s = sm_init_mm sm s"

definition swap_map_swappable ::
  "swap_manager_ops \<Rightarrow> pralink option \<Rightarrow> 64 word \<Rightarrow> nat \<Rightarrow> bool \<Rightarrow> swap_state \<Rightarrow> (int \<times> swap_state) option" where
  "swap_map_swappable sm head addr page inp s = sm_map_swappable sm head addr page inp s"

subsection \<open>Out and in\<close>

definition swap_entry :: "64 word \<Rightarrow> 64 word" where
  "swap_entry v = push_bit 8 (v div PGSIZE + 1)"

text \<open>One pass of the loop of \<^verbatim>\<open>swap_out\<close>: \<open>False\<close> is the \<^verbatim>\<open>break\<close>. \<open>d\<close> is \<^verbatim>\<open>mm->pgdir\<close>.\<close>

definition swap_out_one :: "swap_manager_ops \<Rightarrow> nat \<Rightarrow> pralink option \<Rightarrow> bool \<Rightarrow> swap_state \<Rightarrow> (bool \<times> swap_state) option" where
  "swap_out_one sm d head in_tick s = do {
     (r, page, s) \<leftarrow> sm_swap_out_victim sm head in_tick s;
     if r \<noteq> 0 then Some (False, s)
     else do {
       let v = pra_vaddr (pg (pm (skm s)) page);
       (ptep, k) \<leftarrow> get_pte d v False (skm s);
       pp \<leftarrow> ptep;
       let s = s\<lparr>skm := k\<rparr>;
       kassert (pte_read pp k AND PTE_V \<noteq> 0);
       (r, s) \<leftarrow> swapfs_write (swap_entry v) page s;
       if r \<noteq> 0 then do { (_, s) \<leftarrow> sm_map_swappable sm head v page False s; Some (True, s) }
       else do {
         let k = pte_write pp (swap_entry v) (skm s);
         k \<leftarrow> free_pages page 1 k;
         Some (True, s\<lparr>skm := k\<rparr>) } } }"

text \<open>\<open>n\<close> counts down; the result is the number of passes made.\<close>

fun swap_out :: "swap_manager_ops \<Rightarrow> nat \<Rightarrow> pralink option \<Rightarrow> nat \<Rightarrow> bool \<Rightarrow> swap_state \<Rightarrow> (nat \<times> swap_state) option" where
  "swap_out sm d head 0 in_tick s = Some (0, s)"
| "swap_out sm d head (Suc n) in_tick s = do {
     (go, s) \<leftarrow> swap_out_one sm d head in_tick s;
     if go then do { (i, s) \<leftarrow> swap_out sm d head n in_tick s; Some (Suc i, s) } else Some (0, s) }"

definition swap_in :: "nat \<Rightarrow> 64 word \<Rightarrow> swap_state \<Rightarrow> (int \<times> nat \<times> swap_state) option" where
  "swap_in d addr s = do {
     (result, k) \<leftarrow> alloc_pages 1 (skm s);
     page \<leftarrow> result;
     (ptep, k) \<leftarrow> get_pte d addr False k;
     pp \<leftarrow> ptep;
     (r, s) \<leftarrow> swapfs_read (pte_read pp k) page (s\<lparr>skm := k\<rparr>);
     Some (0, page, s) }"

subsection \<open>Page faults\<close>

definition READ_WRITE :: pte_t where "READ_WRITE = PTE_R OR PTE_W OR PTE_V"

definition fault_perm :: "vma \<Rightarrow> 32 word" where
  "fault_perm v = (if vm_flags v AND VM_WRITE \<noteq> 0 then ucast (PTE_U OR READ_WRITE) else ucast PTE_U)"

definition do_pgfault ::
  "swap_manager_ops \<Rightarrow> pralink option \<Rightarrow> 64 word \<Rightarrow> 64 word \<Rightarrow> mm \<times> swap_state \<Rightarrow> (int \<times> mm \<times> swap_state) option" where
  "do_pgfault sm head error_code addr ms = (case ms of (m, s) \<Rightarrow>
     (case find_vma addr m of
        (None, m) \<Rightarrow> Some (err E_INVAL, m, s)
      | (Some v, m) \<Rightarrow>
          if vm_start v > addr then Some (err E_INVAL, m, s)
          else do {
            let perm = fault_perm v;
            let addr = ROUNDDOWN addr PGSIZE;
            d \<leftarrow> pgdir m;
            (ptep, k) \<leftarrow> get_pte d addr True (skm s);
            let s = s\<lparr>skm := k\<rparr>;
            case ptep of
              None \<Rightarrow> Some (err E_NO_MEM, m, s)
            | Some pp \<Rightarrow>
                if pte_read pp k = 0 then do {
                  (page, k) \<leftarrow> pgdir_alloc_page d addr perm k;
                  Some (if page = None then err E_NO_MEM else 0, m, s\<lparr>skm := k\<rparr>) }
                else if swap_init_ok k then do {
                  (r, page, s) \<leftarrow> swap_in d addr s;
                  (_, k) \<leftarrow> page_insert d page addr perm (skm s);
                  (_, s) \<leftarrow> swap_map_swappable sm head addr page True (s\<lparr>skm := k\<rparr>);
                  Some (0, m, upd_desc page (\<lambda>x. x\<lparr>pra_vaddr := addr\<rparr>) s) }
                else Some (err E_NO_MEM, m, s) }))"

subsection \<open>The clock algorithm\<close>

abbreviation pvisited :: "swap_state \<Rightarrow> nat \<Rightarrow> 64 word" where "pvisited s p \<equiv> visited (pg (pm (skm s)) p)"

abbreviation pra_ring :: "swap_state \<Rightarrow> nat list \<Rightarrow> bool" where "pra_ring s xs \<equiv> ring (pra s) PraHead (map PraLink xs)"

definition clear :: "nat list \<Rightarrow> swap_state \<Rightarrow> swap_state" where
  "clear ps s = fold (\<lambda>p. upd_desc p (\<lambda>d. d\<lparr>visited := 0\<rparr>)) ps s"

lemma clear_simps [simp]:
  "pvisited (clear ps s) p = (if p \<in> set ps then 0 else pvisited s p)" "pra (clear ps s) = pra s" "curr_ptr (clear ps s) = curr_ptr s"
  "slots (clear ps s) = slots s" "max_swap_offset (clear ps s) = max_swap_offset s"
  by (induction ps arbitrary: s) (auto simp: clear_def upd_desc_def upd_page_def)

lemma upd_desc_curr: "upd_desc p f (s\<lparr>curr_ptr := c\<rparr>) = (upd_desc p f s)\<lparr>curr_ptr := c\<rparr>"
  by (cases s) (simp add: upd_desc_def)

lemma clear_curr: "clear ps (s\<lparr>curr_ptr := c\<rparr>) = (clear ps s)\<lparr>curr_ptr := c\<rparr>"
  by (induction ps arbitrary: s) (simp_all add: clear_def upd_desc_curr)

lemma clear_append: "clear (ps @ qs) s = clear qs (clear ps s)" by (simp add: clear_def)

text \<open>The hand passes the visited pages, wraps around at the list head, and stops at the first other one.\<close>

definition at :: "pralink \<Rightarrow> swap_state \<Rightarrow> swap_state" where "at c s = s\<lparr>curr_ptr := c\<rparr>"

lemma at_simps [simp]:
  "pvisited (at c s) p = pvisited s p" "pra (at c s) = pra s" "curr_ptr (at c s) = c" "at c (at e s) = at c s" "clear ps (at c s) = at c (clear ps s)"
  by (simp_all add: at_def clear_curr)

lemma at_same: "curr_ptr s = c \<Longrightarrow> at c s = s" by (cases s) (simp add: at_def)

lemma clock_pass:
  assumes "pra_ring s (as @ bs @ cs)" "curr_ptr s = hd (map PraLink (bs @ cs) @ [PraHead])" "\<forall>p \<in> set bs. pvisited s p = 1"
  shows "clock_loop PraHead s = clock_loop PraHead (at (hd (map PraLink cs @ [PraHead])) (clear bs s))"
  using assms
proof (induction bs arbitrary: as s)
  case Nil
  then show ?case using at_same[OF Nil.prems(2)] by (simp add: clear_def)
next
  case (Cons b bs)
  define s1 where "s1 = at (hd (map PraLink (bs @ cs) @ [PraHead])) (clear [b] s)"
  have "list_next (PraLink b) (pra s) = hd (map PraLink (bs @ cs) @ [PraHead])"
    using ring_next_elem[of "pra s" PraHead "map PraLink as" "PraLink b" "map PraLink (bs @ cs)"] Cons.prems(1) by simp
  then have "clock_loop PraHead s = clock_loop PraHead s1"
    using Cons.prems(2,3) by (subst clock_loop.simps) (simp add: s1_def at_def clear_def)
  moreover have "b \<notin> set bs" using ring_distinct[OF Cons.prems(1)] by (auto simp: distinct_map)
  then have "clock_loop PraHead s1 = clock_loop PraHead (at (hd (map PraLink cs @ [PraHead])) (clear bs s1))"
    using Cons.prems by (intro Cons.IH[of s1 "as @ [b]"]) (auto simp: s1_def)
  ultimately show ?case using clear_append[of "[b]" bs s] by (simp add: s1_def)
qed

lemma clock_stop:
  assumes "curr_ptr s = PraLink p" "pvisited s p \<noteq> 1"
  shows "clock_loop PraHead s = Some (0, p, s\<lparr>pra := list_del (PraLink p) (pra s)\<rparr>)"
  using assms by (subst clock_loop.simps) simp

lemma clock_wrap:
  assumes "pra_ring s (x # xs)" "curr_ptr s = PraHead"
  shows "clock_loop PraHead s = clock_loop PraHead (at (PraLink x) s)"
  using assms ring_next_head[of "pra s" PraHead "PraLink x" "map PraLink xs"] by (subst clock_loop.simps) (simp add: at_def)

text \<open>The pages in the order in which the hand meets them.\<close>

definition sweep :: "swap_state \<Rightarrow> nat list \<Rightarrow> nat list" where
  "sweep s xs = (case curr_ptr s of PraHead \<Rightarrow> xs | PraLink p \<Rightarrow> dropWhile (\<lambda>x. x \<noteq> p) xs @ takeWhile (\<lambda>x. x \<noteq> p) xs)"

text \<open>The hand stops at the first page of the segment before it that is not visited.\<close>

lemma clock_found:
  assumes "pra_ring s (as @ bs)" "curr_ptr s = hd (map PraLink bs @ [PraHead])" "dropWhile (\<lambda>p. pvisited s p = 1) bs = q # cs"
  shows "clock_loop PraHead s = Some (0, q, (at (PraLink q) (clear (takeWhile (\<lambda>p. pvisited s p = 1) bs) s))\<lparr>pra := list_del (PraLink q) (pra s)\<rparr>)"
proof -
  define b1 where "b1 = takeWhile (\<lambda>p. pvisited s p = 1) bs"
  have b: "bs = b1 @ q # cs" using takeWhile_dropWhile_id[of "\<lambda>p. pvisited s p = 1" bs] assms(3) by (simp add: b1_def)
  have v: "\<forall>p \<in> set b1. pvisited s p = 1" by (auto simp: b1_def dest: set_takeWhileD)
  have q: "pvisited s q \<noteq> 1" "q \<notin> set b1" using assms(3) hd_dropWhile[of "\<lambda>p. pvisited s p = 1" bs] v by auto
  have "clock_loop PraHead s = clock_loop PraHead (at (PraLink q) (clear b1 s))"
    using clock_pass[of s as b1 "q # cs"] assms v unfolding b by simp
  also have "\<dots> = Some (0, q, (at (PraLink q) (clear b1 s))\<lparr>pra := list_del (PraLink q) (pra s)\<rparr>)"
    using clock_stop[of "at (PraLink q) (clear b1 s)" q] q by simp
  finally show ?thesis by (simp add: b1_def)
qed

lemma while_append:
  assumes "\<And>x. x \<in> set as \<Longrightarrow> Q x = P x" "\<not> Q (hd bs)"
  shows "takeWhile Q (as @ bs) = (if bs = [] then takeWhile Q as else takeWhile P as)"
    "dropWhile Q (as @ bs) = dropWhile P as @ bs"
  using assms by (induction as) (cases bs; auto)+

lemma clock_exact:
  assumes r: "pra_ring s xs" "xs \<noteq> []" and c: "curr_ptr s \<in> insert PraHead (PraLink ` set xs)"
  defines "ys \<equiv> sweep s xs"
  defines "v \<equiv> hd (dropWhile (\<lambda>p. pvisited s p = 1) ys @ ys)"
  shows "clock_loop PraHead s = Some (0, v, (at (PraLink v) (clear (takeWhile (\<lambda>p. pvisited s p = 1) ys) s))\<lparr>pra := list_del (PraLink v) (pra s)\<rparr>)"
proof -
  let ?P = "\<lambda>p. pvisited s p = 1"
  obtain as bs where x: "xs = as @ bs" "ys = bs @ as" "bs \<noteq> []" "clock_loop PraHead s = clock_loop PraHead (at (PraLink (hd bs)) s)"
  proof (cases "curr_ptr s")
    case PraHead
    then show ?thesis using that[of "[]" xs] clock_wrap[of s "hd xs" "tl xs"] r by (simp add: ys_def sweep_def)
  next
    case (PraLink p)
    then have "dropWhile (\<lambda>x. x \<noteq> p) xs \<noteq> []" "hd (dropWhile (\<lambda>x. x \<noteq> p) xs) = p"
      using c hd_dropWhile[of "\<lambda>x. x \<noteq> p" xs] by auto
    then show ?thesis using that[of "takeWhile (\<lambda>x. x \<noteq> p) xs" "dropWhile (\<lambda>x. x \<noteq> p) xs"] PraLink at_same[OF PraLink]
      by (simp add: ys_def sweep_def)
  qed
  define s0 where "s0 = at (PraLink (hd bs)) s"
  have s0: "pra_ring s0 (as @ bs)" "curr_ptr s0 = hd (map PraLink bs @ [PraHead])" "pra s0 = pra s"
    using r(1) x(1,3) by (auto simp: s0_def hd_map hd_append)
  have pv: "pvisited s0 p = pvisited s p" for p by (simp add: s0_def)
  show ?thesis
  proof (cases "dropWhile ?P bs")
    case (Cons q qs)
    then have "takeWhile ?P ys = takeWhile ?P bs" "v = q" using x(2) by (auto simp: v_def takeWhile_append dropWhile_append simp flip: dropWhile_eq_Nil_conv)
    then show ?thesis using clock_found[OF s0(1,2)] Cons x(4) by (simp add: s0(3) pv) (simp add: s0_def)
  next
    case Nil
    then have all: "\<forall>p \<in> set bs. ?P p" by simp
    define s2 where "s2 = at (PraLink (hd (as @ bs))) (clear bs s)"
    have "clock_loop PraHead s0 = clock_loop PraHead (at PraHead (clear bs s0))"
      using clock_pass[of s0 as bs "[]"] s0 all by (simp add: pv)
    also have "\<dots> = clock_loop PraHead s2"
      using clock_wrap[of "at PraHead (clear bs s0)" "hd (as @ bs)" "tl (as @ bs)"] s0(1) x(3) by (simp add: s2_def s0_def)
    finally have s2: "clock_loop PraHead s = clock_loop PraHead s2" using x(4) by (simp add: s0_def)
    have d: "set as \<inter> set bs = {}" using ring_distinct[OF s0(1)] by (auto simp: distinct_map)
    have v2: "pvisited s2 p = (if p \<in> set bs then 0 else pvisited s p)" for p by (simp add: s2_def)
    obtain b bs' where b: "bs = b # bs'" using x(3) by (cases bs) auto
    have "Q \<in> set as \<Longrightarrow> (pvisited s2 Q = 1) = ?P Q" "pvisited s2 (hd bs) \<noteq> 1" for Q using d by (auto simp: v2 b)
    then have tw: "takeWhile (\<lambda>p. pvisited s2 p = 1) (as @ bs) = takeWhile ?P as"
      "dropWhile (\<lambda>p. pvisited s2 p = 1) (as @ bs) = dropWhile ?P as @ bs"
      using while_append[of as "\<lambda>p. pvisited s2 p = 1" ?P bs] x(3) by auto
    have h: "hd (dropWhile ?P as @ bs) = v" using x(2,3) all by (auto simp: v_def dropWhile_append hd_append)
    have "dropWhile ?P as @ bs \<noteq> []" using x(3) by simp
    then have f: "dropWhile ?P as @ bs = v # tl (dropWhile ?P as @ bs)" using h list.collapse by metis
    have t: "takeWhile ?P ys = bs @ takeWhile ?P as" using all x(2) by (simp add: takeWhile_append)
    have "clock_loop PraHead s2 = Some (0, v, (at (PraLink v) (clear (takeWhile ?P as) s2))\<lparr>pra := list_del (PraLink v) (pra s2)\<rparr>)"
      using clock_found[of s2 "[]" "as @ bs" v "tl (dropWhile ?P as @ bs)"] tw f s0(1) x(3)
      by (auto simp: s2_def s0(3) hd_map hd_append)
    then show ?thesis using s2 by (simp add: s2_def t clear_append)
  qed
qed

text \<open>The choice of the clock algorithm, and the pages the hand passes.\<close>

definition clock_passed :: "swap_state \<Rightarrow> nat list \<Rightarrow> nat list" where
  "clock_passed s xs = takeWhile (\<lambda>p. pvisited s p = 1) (sweep s xs)"

definition clock_choice :: "swap_state \<Rightarrow> nat list \<Rightarrow> nat" where
  "clock_choice s xs = hd (dropWhile (\<lambda>p. pvisited s p = 1) (sweep s xs) @ sweep s xs)"

text \<open>C37: The clock manager's \<^verbatim>\<open>swap_out_victim\<close>. With pages in its list and the hand on the list it returns; the
  victim is the first page from the hand on that is not marked as visited, or the first one if all are. Exactly the pages the
  hand passed lose their mark, and exactly the victim leaves the list, which stays well formed. But the hand
  stays on the victim: a second call, made before this page is mapped again, returns the same page.\<close>

theorem clock_victim_correct:
  assumes r: "ring (pra s) PraHead (map PraLink xs)" "xs \<noteq> []" and c: "curr_ptr s \<in> insert PraHead (PraLink ` set xs)"
  shows "\<exists>s' s''. clock_swap_out_victim (Some PraHead) False s = Some (0, clock_choice s xs, s') \<and> clock_choice s xs \<in> set xs \<and>
    ring (pra s') PraHead (map PraLink (remove1 (clock_choice s xs) xs)) \<and> slots s' = slots s \<and>
    (\<forall>p. pvisited s' p = (if p \<in> set (clock_passed s xs) then 0 else pvisited s p)) \<and>
    clock_swap_out_victim (Some PraHead) False s' = Some (0, clock_choice s xs, s'')"
proof -
  let ?P = "\<lambda>p. pvisited s p = 1"
  define ys where "ys = sweep s xs"
  define v where "v = clock_choice s xs"
  have vd: "v = hd (dropWhile ?P ys @ ys)" by (simp add: v_def clock_choice_def ys_def)
  define s' where "s' = (at (PraLink v) (clear (takeWhile ?P ys) s))\<lparr>pra := list_del (PraLink v) (pra s)\<rparr>"
  have e: "clock_swap_out_victim (Some PraHead) False s = Some (0, v, s')"
    using clock_exact[OF r c] unfolding ys_def[symmetric] vd[symmetric] s'_def[symmetric] by (simp add: clock_swap_out_victim_def)
  have "set (dropWhile (\<lambda>x. x \<noteq> p) xs) \<union> set (takeWhile (\<lambda>x. x \<noteq> p) xs) = set xs" for p
    using set_append[of "takeWhile (\<lambda>x. x \<noteq> p) xs" "dropWhile (\<lambda>x. x \<noteq> p) xs"] by auto
  then have ys: "set ys = set xs" by (auto simp: ys_def sweep_def split: pralink.split)
  then have "ys \<noteq> []" using r(2) by auto
  then have v: "v \<in> set ys" unfolding vd using hd_in_set[of "dropWhile ?P ys @ ys"] set_dropWhileD[of _ ?P ys] by auto
  obtain as bs where x: "xs = as @ v # bs" "v \<notin> set as" using split_list_first[of v xs] v ys by auto
  have rg: "ring (pra s') PraHead (map PraLink (remove1 v xs))"
    using ring_del[of "pra s" PraHead "map PraLink as" "PraLink v" "map PraLink bs"] r(1) x by (simp add: s'_def remove1_append)
  have pv: "pvisited s' p = (if p \<in> set (takeWhile ?P ys) then 0 else pvisited s p)" for p by (simp add: s'_def at_def)
  have "pvisited s' v \<noteq> 1"
  proof (cases "dropWhile ?P ys")
    case Nil
    then have "takeWhile ?P ys = ys" by simp
    then show ?thesis using v by (simp only: pv) simp
  next
    case (Cons q qs)
    then have "v = q" by (simp add: vd)
    then show ?thesis using hd_dropWhile[of ?P ys] Cons by (simp add: pv)
  qed
  then have "clock_swap_out_victim (Some PraHead) False s' = Some (0, v, s'\<lparr>pra := list_del (PraLink v) (pra s')\<rparr>)"
    using clock_stop[of s' v] by (simp add: clock_swap_out_victim_def s'_def at_def)
  then show ?thesis using e v ys rg pv by (auto simp: s'_def at_def v_def ys_def clock_passed_def)
qed

subsection \<open>Frames and descriptors\<close>

text \<open>The members \<open>pra_vaddr\<close> and \<open>visited\<close> matter neither to the allocator nor to the address space.\<close>

definition keeps_desc :: "(Page \<Rightarrow> Page) \<Rightarrow> bool" where
  "keeps_desc f \<longleftrightarrow> (\<forall>d. ref (f d) = ref d \<and> Page.flags (f d) = Page.flags d \<and> property (f d) = property d)"

lemma keeps_desc_intros: "keeps_desc (\<lambda>d. d\<lparr>visited := v\<rparr>)" "keeps_desc (\<lambda>d. d\<lparr>pra_vaddr := a\<rparr>)"
  by (simp_all add: keeps_desc_def)

lemma keeps_desc_simps:
  assumes "keeps_desc f"
  shows "psize (upd_page p f s) q = psize s q" "PageReserved (pg (upd_page p f s) q) = PageReserved (pg s q)"
    "PageProperty (pg (upd_page p f s) q) = PageProperty (pg s q)" "ref (pg (upd_page p f s) q) = ref (pg s q)"
  using assms by (auto simp: keeps_desc_def upd_page_def PageReserved_def PageProperty_def)

lemma keeps_desc_wf: assumes "keeps_desc f" shows "fl_wf (upd_page p f s) xs = fl_wf s xs" "free_set (upd_page p f s) xs = free_set s xs"
proof -
  note k = keeps_desc_simps[OF assms]
  show fs: "free_set (upd_page p f s) xs = free_set s xs" by (rule free_set_cong) (rule k)
  show "fl_wf (upd_page p f s) xs = fl_wf s xs" unfolding fl_wf_def fs k by (simp add: upd_page_def)
qed

lemma kinv_desc:
  assumes "keeps_desc f" shows "kinv t root (k\<lparr>pm := upd_page p f (pm k)\<rparr>) = kinv t root k"
proof -
  note w = keeps_desc_wf[OF assms, of p "pm k"]
  have e: "pool_inv t (upd_page p f (pm k)) = pool_inv t (pm k)" "pfree (upd_page p f (pm k)) = pfree (pm k)" by (simp_all add: pool_inv_def pfree_def w)
  have sel: "pm (k\<lparr>pm := x\<rparr>) = x" "ram (k\<lparr>pm := x\<rparr>) = ram k" for x by simp_all
  have po: "page_ok t root (k\<lparr>pm := upd_page p f (pm k)\<rparr>) q = page_ok t root k q" for q
    unfolding page_ok_def page_ref_def by (simp only: sel e keeps_desc_simps[OF assms])
  show ?thesis unfolding kinv_def by (simp only: sel e po)
qed

text \<open>A frame that is not a table may hold anything.\<close>

lemma kinv_frame:
  assumes k: "kinv t root k" and p: "p \<notin> tables (ram k) root"
  shows "kinv t root (k\<lparr>ram := (ram k)(p := g)\<rparr>)" "tables ((ram k)(p := g)) root = tables (ram k) root"
    "vpn_ok v \<Longrightarrow> pte_at ((ram k)(p := g)) root v = pte_at (ram k) root v"
proof -
  let ?m = "(ram k)(p := g)"
  have tb: "tbl ?m root ps = tbl (ram k) root ps" if "path ps" for ps
    using that
  proof (induction ps rule: rev_induct)
    case (snoc i ps)
    then have pp: "path ps" by (auto simp: path_def)
    have "tbl (ram k) root ps \<noteq> Some p" using in_tables[OF pp] p by blast
    then show ?case using snoc.IH[OF pp] by (auto simp: tbl_snoc split: option.split)
  qed simp
  show tt: "tables ?m root = tables (ram k) root" using tb by (auto simp: tables_def)
  show pt: "pte_at ?m root v = pte_at (ram k) root v" if "vpn_ok v" for v
  proof -
    obtain a b c where v: "v = (a, b, c)" by (cases v)
    have pa: "path [a, b]" using that v by (simp add: vpn_ok_def)
    have "tbl (ram k) root [a, b] \<noteq> Some p" using in_tables[OF pa] p by blast
    then show ?thesis using tb[OF pa] by (auto simp: pte_at_def v simp del: tbl.simps split: option.split)
  qed
  have "tree_ok ?m root"
  proof -
    have 1: "ps = qs" if "path ps" "path qs" "tbl ?m root ps = Some y" "tbl ?m root qs = Some y" for ps qs y
      using tree_okD(1)[OF kinvD(3)[OF k] that(1,2)] that tb by auto
    have 2: "pde2page (?m y i) \<noteq> None" if q: "path (ps @ [i])" "tbl ?m root ps = Some y" "bit (?m y i) 0" for ps y i
    proof -
      have pp: "path ps" using q(1) by (auto simp: path_def)
      then have t: "tbl (ram k) root ps = Some y" using q(2) tb by simp
      then have "y \<noteq> p" using in_tables[OF pp] p by blast
      then show ?thesis using tree_okD(2)[OF kinvD(3)[OF k] q(1) t] q(3) by simp
    qed
    show ?thesis unfolding tree_ok_def using 1 2 by blast
  qed
  moreover have "maps ?m root q = maps (ram k) root q" for q using pt by (auto simp: maps_def)
  ultimately show "kinv t root (k\<lparr>ram := ?m\<rparr>)" using k pt by (simp add: kinv_def page_ok_def page_ref_def tt)
qed

subsection \<open>Fresh pages\<close>

definition refs_ok :: "kmem \<Rightarrow> bool" where "refs_ok k \<longleftrightarrow> (\<forall>q. 0 \<le> page_ref q k)"

lemma take_block_ref: "ref (pg (take_block p n s) q) = ref (pg s q)"
  by (simp add: take_block_def Let_def upd_page_def SetPageProperty_def ClearPageProperty_def)

lemma alloc_refs:
  assumes "alloc_pages n k = Some (r, k')" shows "page_ref q k' = page_ref q k"
proof -
  obtain b where b: "default_alloc_pages n (pm k) = Some (r, b)" "k' = k\<lparr>pm := b\<rparr>"
    using assms by (auto simp: alloc_pages_def bind_eq_Some_conv split: if_splits)
  have "b = pm k \<or> (\<exists>p. b = take_block p n (pm k))"
    using b(1) by (auto simp: default_alloc_pages_def bind_eq_Some_conv split: option.splits if_splits)
  then show ?thesis using b(2) take_block_ref by (auto simp: page_ref_def)
qed

lemma next_table_refs: "next_table pp b k = Some (r, k') \<Longrightarrow> refs_ok k \<Longrightarrow> refs_ok k'"
  by (auto simp: next_table_def refs_ok_def Let_def bind_eq_Some_conv alloc_refs split: option.splits if_splits)

lemma get_pte_refs: "get_pte d la b k = Some (r, k') \<Longrightarrow> refs_ok k \<Longrightarrow> refs_ok k'"
  by (auto simp: get_pte_def bind_eq_Some_conv split: option.splits) (metis next_table_refs)+

lemma alloc_fresh:
  assumes k: "kinv t d k" and two: "2 \<le> card (pfree (pm k))" and r: "refs_ok k"
  obtains p q where "alloc_pages 1 k = Some (Some p, k\<lparr>pm := q\<rparr>)" "kinv t d (k\<lparr>pm := q\<rparr>)" "page_ok t d (k\<lparr>pm := q\<rparr>) p"
    "p \<in> pfree (pm k)" "pfree q = pfree (pm k) - {p}" "p < nframes"
proof -
  obtain p q where a: "alloc_pages 1 k = Some (Some p, k\<lparr>pm := q\<rparr>)" "pool_inv t q" "p \<in> pfree (pm k)" "p < t"
    "pfree q = pfree (pm k) - {p}" "\<not> PageReserved (pg q p)" "\<not> PageProperty (pg q p)" "\<forall>x. x \<notin> pfree (pm k) \<longrightarrow> pg q x = pg (pm k) x"
    by (rule alloc_page_pool[OF kinvD(1)[OF k] two])
  let ?k = "k\<lparr>pm := q\<rparr>"
  have "grow d k ?k" using a by (auto simp: grow_def)
  then have k': "kinv t d ?k" by (rule grow_kinv[OF _ k]) (use a kinvD(3-5)[OF k] in auto)
  have "p \<notin> tables (ram k) d" using kinvD(5)[OF k] a(3) by blast
  moreover have "maps (ram k) d p = {}" using kinvD(6)[OF k] a(3) by (fastforce simp: maps_def page_ok_def)
  moreover have "0 \<le> page_ref p ?k" using alloc_refs[OF a(1), of p] r by (simp add: refs_ok_def)
  ultimately have "page_ok t d ?k p" using a by (simp add: page_ok_def)
  then show ?thesis using that[OF a(1) k' _ a(3,5)] a(4) kinvD(2)[OF k] by auto
qed

lemma pgdir_alloc_page_kinv:
  assumes k: "kinv t d k" and n: "4 \<le> card (pfree (pm k))" and r: "refs_ok k" and perm: "unat perm < 2 ^ 10"
  obtains p k' where "pgdir_alloc_page d la perm k = Some (Some p, k')" "kinv t d k'" "p \<in> pfree (pm k)"
    "\<forall>v. vpn_ok v \<longrightarrow> pte_at (ram k') d v = (if v = vpn la then pte_create (page2ppn p) (ucast PTE_V OR perm) else pte_at (ram k) d v)"
proof -
  have "2 \<le> card (pfree (pm k))" using n by simp
  then obtain p q where a: "alloc_pages 1 k = Some (Some p, k\<lparr>pm := q\<rparr>)" "kinv t d (k\<lparr>pm := q\<rparr>)" "page_ok t d (k\<lparr>pm := q\<rparr>) p"
    "p \<in> pfree (pm k)" "pfree q = pfree (pm k) - {p}" "p < nframes" by (rule alloc_fresh[OF k _ r])
  have "card (pfree q) = card (pfree (pm k)) - 1" using a(4,5) by simp
  then have "3 \<le> card (pfree (pm (k\<lparr>pm := q\<rparr>)))" using n by simp
  then obtain k' where "page_insert d p la perm (k\<lparr>pm := q\<rparr>) = Some (Inr (), k')" "kinv t d k'"
    "\<forall>v. vpn_ok v \<longrightarrow> pte_at (ram k') d v =
       (if v = vpn la then pte_create (page2ppn p) (ucast PTE_V OR perm) else pte_at (ram (k\<lparr>pm := q\<rparr>)) d v)"
    by (rule page_insert_kinv[OF a(2,3) _ perm])
  then show ?thesis using that[of p k'] a by (simp add: pgdir_alloc_page_def)
qed

subsection \<open>Page faults\<close>

lemma vpn_ROUNDDOWN: "vpn (ROUNDDOWN a PGSIZE) = vpn a"
proof -
  have "unat (a mod 4096) = unat a mod 4096" by (simp add: unat_mod)
  moreover have "a mod 4096 \<le> a" by (simp add: word_le_nat_alt unat_mod)
  ultimately have u: "unat (ROUNDDOWN a PGSIZE) = unat a - unat a mod 4096"
    by (simp add: ROUNDDOWN_def PGSIZE_def unat_sub)
  have d: "(n - n mod 4096) div 2 ^ m = n div 2 ^ m" if "12 \<le> m" for n m :: nat
  proof -
    have e: "n - n mod 4096 = n div 4096 * 4096" by (simp add: minus_mod_eq_div_mult)
    define j where "j = m - 12"
    have m: "m = 12 + j" using that by (simp add: j_def)
    have "n div 2 ^ m = n div 4096 div 2 ^ j" by (simp add: m power_add div_mult2_eq)
    moreover have "(n div 4096 * 4096) div 2 ^ m = n div 4096 div 2 ^ j" by (simp add: m power_add div_mult2_eq)
    ultimately show ?thesis by (simp add: e)
  qed
  show ?thesis unfolding vpn_unat vpn_n_def u using d[of 30] d[of 21] d[of 12] by simp
qed

lemma fault_perm_small: "unat (fault_perm v) < 2 ^ 10"
  by (simp add: fault_perm_def READ_WRITE_def PTE_U_def PTE_R_def PTE_W_def PTE_V_def)

text \<open>Up to the entry: the page table of the address exists, and the entry is the one it had.\<close>

lemma pgfault_entry:
  assumes w: "mm_wf m" and d: "pgdir m = Some d" and k: "kinv t d (skm s)" and n: "3 \<le> card (pfree (pm (skm s)))"
    and v: "v \<in> set (mmap_list m)" "vma_has addr v"
  obtains m' x k1 where "find_vma addr m = (Some v, m')" "mmap_list m' = mmap_list m" "pgdir m' = Some d" "\<not> vm_start v > addr"
    "get_pte d (ROUNDDOWN addr PGSIZE) True (skm s) = Some (Some (x, PTX (ROUNDDOWN addr PGSIZE)), k1)" "kinv t d k1" "grow d (skm s) k1"
    "tbl (ram k1) d [PDX1 (ROUNDDOWN addr PGSIZE), PDX0 (ROUNDDOWN addr PGSIZE)] = Some x"
    "card (pfree (pm (skm s))) \<le> card (pfree (pm k1)) + 2"
    "pte_read (x, PTX (ROUNDDOWN addr PGSIZE)) k1 = pte_at (ram (skm s)) d (vpn addr)"
proof -
  let ?la = "ROUNDDOWN addr PGSIZE"
  have "vma_scan addr (mmap_list m) = Some v" using vma_scan_iff[OF mm_wfD(1)[OF w]] v by blast
  then have "fst (find_vma addr m) = Some v" using find_vma_wf(1)[OF w] by simp
  then obtain m' where f: "find_vma addr m = (Some v, m')" by (cases "find_vma addr m") auto
  have m': "mmap_list m' = mmap_list m" using find_vma_wf(3)[OF w, of addr] f by simp
  have pd: "pgdir m' = Some d" using f d by (auto simp: find_vma_def Let_def split: option.splits if_splits)
  obtain x k1 where g: "get_pte d ?la True (skm s) = Some (Some (x, PTX ?la), k1)" "kinv t d k1" "grow d (skm s) k1"
    "tbl (ram k1) d [PDX1 ?la, PDX0 ?la] = Some x" "card (pfree (pm (skm s))) \<le> card (pfree (pm k1)) + 2"
    by (rule get_pte_create[OF k n])
  have "pte_read (x, PTX ?la) k1 = pte_at (ram k1) d (vpn ?la)" using g(4) by (simp add: pte_at_def vpn_def pte_read_def del: tbl.simps)
  also have "\<dots> = pte_at (ram (skm s)) d (vpn addr)" using g(3) by (simp add: grow_def vpn_ROUNDDOWN del: split_paired_All)
  finally show ?thesis using that[OF f m' pd _ g] v(2) by (simp add: vma_has_def not_less)
qed

text \<open>An address never touched: a zeroed entry.\<close>

lemma pgfault_zero:
  assumes w: "mm_wf m" and d: "pgdir m = Some d" and k: "kinv t d (skm s)" "refs_ok (skm s)" and n: "7 \<le> card (pfree (pm (skm s)))"
    and v: "v \<in> set (mmap_list m)" "vma_has addr v" and z: "pte_at (ram (skm s)) d (vpn addr) = 0"
  shows "\<exists>p m' s'. do_pgfault sm head ec addr (m, s) = Some (0, m', s') \<and> mmap_list m' = mmap_list m \<and> kinv t d (skm s') \<and>
    p \<in> pfree (pm (skm s)) \<and> slots s' = slots s \<and>
    (\<forall>u. vpn_ok u \<longrightarrow> pte_at (ram (skm s')) d u =
       (if u = vpn addr then pte_create (page2ppn p) (ucast PTE_V OR fault_perm v) else pte_at (ram (skm s)) d u))"
proof -
  let ?la = "ROUNDDOWN addr PGSIZE"
  have three: "3 \<le> card (pfree (pm (skm s)))" using n by simp
  obtain m' x k1 where e: "find_vma addr m = (Some v, m')" "mmap_list m' = mmap_list m" "pgdir m' = Some d" "\<not> vm_start v > addr"
    "get_pte d ?la True (skm s) = Some (Some (x, PTX ?la), k1)" "kinv t d k1" "grow d (skm s) k1"
    "tbl (ram k1) d [PDX1 ?la, PDX0 ?la] = Some x" "card (pfree (pm (skm s))) \<le> card (pfree (pm k1)) + 2"
    "pte_read (x, PTX ?la) k1 = pte_at (ram (skm s)) d (vpn addr)"
    by (rule pgfault_entry[OF w d k(1) three v])
  have "4 \<le> card (pfree (pm k1))" "refs_ok k1" using e(5,9) n get_pte_refs[OF e(5) k(2)] by auto
  then obtain p k2 where p: "pgdir_alloc_page d ?la (fault_perm v) k1 = Some (Some p, k2)" "kinv t d k2" "p \<in> pfree (pm k1)"
    "\<forall>u. vpn_ok u \<longrightarrow> pte_at (ram k2) d u = (if u = vpn ?la then pte_create (page2ppn p) (ucast PTE_V OR fault_perm v) else pte_at (ram k1) d u)"
    by (rule pgdir_alloc_page_kinv[OF e(6) _ _ fault_perm_small])
  have "do_pgfault sm head ec addr (m, s) = Some (0, m', s\<lparr>skm := k2\<rparr>)"
    using e(1,3,4,5,10) z p(1) by (simp add: do_pgfault_def Let_def)
  moreover have "p \<in> pfree (pm (skm s))" using p(3) e(7) by (auto simp: grow_def)
  moreover have "pte_at (ram k1) d u = pte_at (ram (skm s)) d u" if "vpn_ok u" for u using e(7) that by (simp add: grow_def del: split_paired_All)
  ultimately show ?thesis using p(2,4) e(2) by (intro exI[of _ p] exI[of _ m'] exI[of _ "s\<lparr>skm := k2\<rparr>"]) (simp add: vpn_ROUNDDOWN del: split_paired_All)
qed

lemma page_ok_frame:
  assumes k: "kinv t d k" and p: "p \<notin> tables (ram k) d"
  shows "page_ok t d (k\<lparr>ram := (ram k)(p := g)\<rparr>) q = page_ok t d k q"
proof -
  have "maps ((ram k)(p := g)) d q = maps (ram k) d q" using kinv_frame(3)[OF k p] by (auto simp: maps_def)
  then show ?thesis by (simp add: page_ok_def page_ref_def kinv_frame(2)[OF k p])
qed

text \<open>Reading a page back from the swap device.\<close>

lemma swap_in_ok:
  assumes k: "kinv t d (skm s)" "refs_ok (skm s)" and n: "4 \<le> card (pfree (pm (skm s)))"
    and x: "tbl (ram (skm s)) d [PDX1 la, PDX0 la] = Some x" and off: "swap_offset (pte_read (x, PTX la) (skm s)) s = Some off"
  obtains p s' where "swap_in d la s = Some (0, p, s')" "kinv t d (skm s')" "page_ok t d (skm s') p" "3 \<le> card (pfree (pm (skm s')))"
    "p \<in> pfree (pm (skm s))" "ram (skm s') p = slots s off" "\<forall>u. vpn_ok u \<longrightarrow> pte_at (ram (skm s')) d u = pte_at (ram (skm s)) d u"
    "slots s' = slots s" "pra s' = pra s" "curr_ptr s' = curr_ptr s"
proof -
  have "2 \<le> card (pfree (pm (skm s)))" using n by simp
  then obtain p q where a: "alloc_pages 1 (skm s) = Some (Some p, (skm s)\<lparr>pm := q\<rparr>)" "kinv t d ((skm s)\<lparr>pm := q\<rparr>)"
    "page_ok t d ((skm s)\<lparr>pm := q\<rparr>) p" "p \<in> pfree (pm (skm s))" "pfree q = pfree (pm (skm s)) - {p}" "p < nframes"
    by (rule alloc_fresh[OF k(1) _ k(2)])
  let ?k = "(skm s)\<lparr>pm := q\<rparr>"
  let ?k' = "?k\<lparr>ram := (ram ?k)(p := slots s off)\<rparr>"
  have p: "p \<notin> tables (ram ?k) d" using a(3) by (simp add: page_ok_def)
  have "get_pte d la False ?k = Some (Some (x, PTX la), ?k)" using get_pte_find[OF a(2), of la] x by simp
  then have "swap_in d la s = Some (0, p, s\<lparr>skm := ?k'\<rparr>)"
    using a(1) off frame_simps(2)[OF a(6)] by (simp add: swap_in_def swapfs_read_def swap_offset_def Let_def pte_read_def split: if_splits)
  moreover have "card (pfree q) = card (pfree (pm (skm s))) - 1" using a(4,5) by simp
  ultimately show ?thesis
    using that[of p "s\<lparr>skm := ?k'\<rparr>"] kinv_frame(1,3)[OF a(2) p] page_ok_frame[OF a(2) p] a(3,4) n by simp
qed

lemma upd_desc_simps [simp]: "ram (skm (upd_desc p f s)) = ram (skm s)" "slots (upd_desc p f s) = slots s" "pra (upd_desc p f s) = pra s"
  "pg (pm (skm (upd_desc p f s))) q = (if q = p then f (pg (pm (skm s)) q) else pg (pm (skm s)) q)"
  by (simp_all add: upd_desc_def)

lemma upd_desc_kinv: "keeps_desc f \<Longrightarrow> kinv t d (skm (upd_desc p f s)) = kinv t d (skm s)"
  by (simp add: upd_desc_def kinv_desc)

text \<open>An address whose page was swapped out.\<close>

lemma pgfault_swapped:
  assumes w: "mm_wf m" and d: "pgdir m = Some d" and k: "kinv t d (skm s)" "refs_ok (skm s)" and n: "7 \<le> card (pfree (pm (skm s)))"
    and v: "v \<in> set (mmap_list m)" "vma_has addr v"
    and e: "pte_at (ram (skm s)) d (vpn addr) \<noteq> 0" "swap_offset (pte_at (ram (skm s)) d (vpn addr)) s = Some off" and i: "swap_init_ok (skm s)"
  shows "\<exists>p m' s'. do_pgfault swap_manager_clock (Some PraHead) ec addr (m, s) = Some (0, m', s') \<and> mmap_list m' = mmap_list m \<and> kinv t d (skm s') \<and>
    p \<in> pfree (pm (skm s)) \<and> ram (skm s') p = slots s off \<and> pra_vaddr (pg (pm (skm s')) p) = ROUNDDOWN addr PGSIZE \<and> pvisited s' p = 1 \<and>
    pra s' = list_add_before PraHead (PraLink p) (pra s) \<and>
    (\<forall>u. vpn_ok u \<longrightarrow> pte_at (ram (skm s')) d u =
       (if u = vpn addr then pte_create (page2ppn p) (ucast PTE_V OR fault_perm v) else pte_at (ram (skm s)) d u))"
proof -
  let ?la = "ROUNDDOWN addr PGSIZE"
  have three: "3 \<le> card (pfree (pm (skm s)))" using n by simp
  obtain m' x k1 where g: "find_vma addr m = (Some v, m')" "mmap_list m' = mmap_list m" "pgdir m' = Some d" "\<not> vm_start v > addr"
    "get_pte d ?la True (skm s) = Some (Some (x, PTX ?la), k1)" "kinv t d k1" "grow d (skm s) k1"
    "tbl (ram k1) d [PDX1 ?la, PDX0 ?la] = Some x" "card (pfree (pm (skm s))) \<le> card (pfree (pm k1)) + 2"
    "pte_read (x, PTX ?la) k1 = pte_at (ram (skm s)) d (vpn addr)"
    by (rule pgfault_entry[OF w d k(1) three v])
  define s1 where "s1 = s\<lparr>skm := k1\<rparr>"
  have s1: "kinv t d (skm s1)" "refs_ok (skm s1)" "4 \<le> card (pfree (pm (skm s1)))" "tbl (ram (skm s1)) d [PDX1 ?la, PDX0 ?la] = Some x"
    "swap_offset (pte_read (x, PTX ?la) (skm s1)) s1 = Some off"
    using g(6,8,9,10) get_pte_refs[OF g(5) k(2)] n e(2) by (simp_all add: s1_def swap_offset_def)
  obtain p s2 where p: "swap_in d ?la s1 = Some (0, p, s2)" "kinv t d (skm s2)" "page_ok t d (skm s2) p" "3 \<le> card (pfree (pm (skm s2)))"
    "p \<in> pfree (pm (skm s1))" "ram (skm s2) p = slots s1 off" "\<forall>u. vpn_ok u \<longrightarrow> pte_at (ram (skm s2)) d u = pte_at (ram (skm s1)) d u"
    "slots s2 = slots s1" "pra s2 = pra s1" "curr_ptr s2 = curr_ptr s1"
    by (rule swap_in_ok[OF s1])
  obtain k3 where k3: "page_insert d p ?la (fault_perm v) (skm s2) = Some (Inr (), k3)" "kinv t d k3"
    "\<forall>u. vpn_ok u \<longrightarrow> pte_at (ram k3) d u = (if u = vpn ?la then pte_create (page2ppn p) (ucast PTE_V OR fault_perm v) else pte_at (ram (skm s2)) d u)"
    "page_ref p k3 = page_ref p (skm s2) + (if vpn ?la \<in> maps (ram (skm s2)) d p then 0 else 1)"
    "\<forall>q. q \<notin> pfree (pm (skm s2)) \<longrightarrow> q \<notin> tables (ram (skm s2)) d \<longrightarrow> ram k3 q = ram (skm s2) q"
    by (rule page_insert_kinv[OF p(2,3,4) fault_perm_small])
  define s3 where "s3 = upd_desc p (\<lambda>x. x\<lparr>visited := 1\<rparr>) (s2\<lparr>skm := k3, pra := list_add_before PraHead (PraLink p) (pra s2)\<rparr>)"
  define s4 where "s4 = upd_desc p (\<lambda>x. x\<lparr>pra_vaddr := ?la\<rparr>) s3"
  have "swap_init_ok k1" using g(7) i by (simp add: grow_def)
  then have "do_pgfault swap_manager_clock (Some PraHead) ec addr (m, s) = Some (0, m', s4)"
    using g(1,3,4,5,10) e(1) p(1) k3(1)
    by (simp add: do_pgfault_def Let_def s1_def[symmetric] swap_map_swappable_def swap_manager_clock_def clock_map_swappable_def s3_def s4_def)
  moreover have "kinv t d (skm s4)" using k3(2) by (simp add: s4_def s3_def upd_desc_kinv keeps_desc_intros)
  moreover have "ram (skm s4) p = slots s off" using k3(5) p(3,6) by (simp add: s4_def s3_def s1_def page_ok_def)
  moreover have "p \<in> pfree (pm (skm s))" using p(5) g(7) by (auto simp: grow_def s1_def)
  moreover have "pte_at (ram k1) d u = pte_at (ram (skm s)) d u" if "vpn_ok u" for u using g(7) that by (simp add: grow_def del: split_paired_All)
  then have "\<forall>u. vpn_ok u \<longrightarrow> pte_at (ram (skm s4)) d u =
      (if u = vpn addr then pte_create (page2ppn p) (ucast PTE_V OR fault_perm v) else pte_at (ram (skm s)) d u)"
    using k3(3) p(7) by (simp add: s4_def s3_def s1_def vpn_ROUNDDOWN del: split_paired_All)
  moreover have "pra_vaddr (pg (pm (skm s4)) p) = ?la" "pvisited s4 p = 1" "pra s4 = list_add_before PraHead (PraLink p) (pra s)"
    using p(9) by (simp_all add: s4_def s3_def s1_def)
  ultimately show ?thesis using g(2) by blast
qed


subsection \<open>What a swap manager promises\<close>

text \<open>\<open>inv xs s\<close>: the manager holds exactly the pages \<open>xs\<close>. A victim is one of them and no longer held afterwards. The page
  frames and the swap device are not the manager's business.\<close>

definition frames_kept :: "swap_state \<Rightarrow> swap_state \<Rightarrow> bool" where
  "frames_kept s s' \<longleftrightarrow> ram (skm s') = ram (skm s) \<and> slots s' = slots s \<and> max_swap_offset s' = max_swap_offset s"

lemma frames_kept_trans: "frames_kept a b \<Longrightarrow> frames_kept b c \<Longrightarrow> frames_kept a c" by (simp add: frames_kept_def)

fun victims :: "swap_manager_ops \<Rightarrow> nat \<Rightarrow> swap_state \<Rightarrow> (nat list \<times> swap_state) option" where
  "victims sm 0 s = Some ([], s)"
| "victims sm (Suc n) s = do {
     (_, p, s) \<leftarrow> sm_swap_out_victim sm (Some PraHead) False s;
     (ps, s) \<leftarrow> victims sm n s;
     Some (p # ps, s) }"

locale swap_manager =
  fixes sm :: swap_manager_ops and inv :: "nat list \<Rightarrow> swap_state \<Rightarrow> bool"
  assumes init_law: "sm_init_mm sm s = (r, h, s') \<Longrightarrow> r = 0 \<and> h = Some PraHead \<and> inv [] s' \<and> frames_kept s s'"
    and map_law: "inv xs s \<Longrightarrow> p \<notin> set xs \<Longrightarrow>
      \<exists>s' ys. sm_map_swappable sm (Some PraHead) a p b s = Some (0, s') \<and> inv ys s' \<and> mset ys = add_mset p (mset xs) \<and> frames_kept s s'"
    and victim_law: "inv xs s \<Longrightarrow> xs \<noteq> [] \<Longrightarrow>
      \<exists>p s' ys. sm_swap_out_victim sm (Some PraHead) False s = Some (0, p, s') \<and> inv ys s' \<and> mset xs = add_mset p (mset ys) \<and> frames_kept s s'"
begin

text \<open>So a series of victims names no page twice, and loses none.\<close>

lemma victims_once:
  "inv xs s \<Longrightarrow> n \<le> length xs \<Longrightarrow>
    \<exists>ps ys s'. victims sm n s = Some (ps, s') \<and> length ps = n \<and> inv ys s' \<and> mset xs = mset ps + mset ys \<and> frames_kept s s'"
proof (induction n arbitrary: xs s)
  case 0
  then show ?case by (auto simp: frames_kept_def intro!: exI[of _ xs])
next
  case (Suc n)
  then obtain p s1 ys where p: "sm_swap_out_victim sm (Some PraHead) False s = Some (0, p, s1)" "inv ys s1" "mset xs = add_mset p (mset ys)" "frames_kept s s1"
    using victim_law[of xs s] by fastforce
  then have "n \<le> length ys" using Suc.prems(2) by (metis Suc_le_mono size_add_mset size_mset)
  then obtain ps zs s' where q: "victims sm n s1 = Some (ps, s')" "length ps = n" "inv zs s'" "mset ys = mset ps + mset zs" "frames_kept s1 s'"
    using Suc.IH[OF p(2)] by blast
  have "victims sm (Suc n) s = Some (p # ps, s')" using p(1) q(1) by simp
  moreover have "mset xs = mset (p # ps) + mset zs" using p(3) q(4) by simp
  ultimately show ?case using q(2,3) frames_kept_trans[OF p(4) q(5)] by (intro exI[of _ "p # ps"] exI[of _ zs] exI[of _ s']) simp
qed

end

interpretation fifo: swap_manager swap_manager_fifo "\<lambda>xs s. ring (pra s) PraHead (map PraLink xs)"
proof (unfold_locales, goal_cases)
  case (1 s r h s')
  then show ?case using ring_list_init[of PraHead "pra s"] by (auto simp: swap_manager_fifo_def fifo_init_mm_def frames_kept_def)
next
  case (2 xs s p a b)
  then have "ring (list_add_before PraHead (PraLink p) (pra s)) PraHead (map PraLink xs @ PraLink p # [])"
    by (intro ring_add_before) auto
  then have "ring (list_add_before PraHead (PraLink p) (pra s)) PraHead (map PraLink (xs @ [p]))" by simp
  then show ?case by (intro exI[of _ "s\<lparr>pra := list_add_before PraHead (PraLink p) (pra s)\<rparr>"] exI[of _ "xs @ [p]"])
    (simp add: swap_manager_fifo_def fifo_map_swappable_def frames_kept_def)
next
  case (3 xs s)
  then obtain x ys where x: "xs = x # ys" by (cases xs) auto
  have "list_next PraHead (pra s) = PraLink x" using 3 x ring_next_head by fastforce
  moreover have "ring (list_del (PraLink x) (pra s)) PraHead (map PraLink ys)" using ring_del[of "pra s" PraHead "[]" "PraLink x" "map PraLink ys"] 3 x by simp
  ultimately show ?case using x by (intro exI[of _ x] exI[of _ "s\<lparr>pra := list_del (PraLink x) (pra s)\<rparr>"] exI[of _ ys])
    (simp add: swap_manager_fifo_def fifo_swap_out_victim_def frames_kept_def)
qed

text \<open>The FIFO manager gives the pages back in the order in which they were mapped.\<close>

lemma fifo_order: "ring (pra s) PraHead (map PraLink (xs @ ys)) \<Longrightarrow>
  \<exists>s'. victims swap_manager_fifo (length xs) s = Some (xs, s') \<and> ring (pra s') PraHead (map PraLink ys)"
proof (induction xs arbitrary: s)
  case (Cons x xs)
  let ?s = "s\<lparr>pra := list_del (PraLink x) (pra s)\<rparr>"
  have "list_next PraHead (pra s) = PraLink x" using Cons.prems ring_next_head by fastforce
  then have "fifo_swap_out_victim (Some PraHead) False s = Some (0, x, ?s)" by (simp add: fifo_swap_out_victim_def)
  moreover have "ring (pra ?s) PraHead (map PraLink (xs @ ys))"
    using ring_del[of "pra s" PraHead "[]" "PraLink x" "map PraLink (xs @ ys)"] Cons.prems by simp
  ultimately show ?case using Cons.IH[of ?s] by (auto simp: swap_manager_fifo_def)
qed simp

subsection \<open>A sample\<close>

text \<open>Ten free frames from 2 on; pages 4, 6 and 8 in the list of the clock, 4 and 6 visited, the hand on 4.\<close>

definition sample_spmm :: pmm where
  "sample_spmm = \<lparr>
     pg = (\<lambda>i. \<lparr>ref = 0, flags = (if i = 2 then 2 else 0), property = (if i = 2 then 10 else 0),
                pra_vaddr = 0, visited = (if i = 4 \<or> i = 6 then 1 else 0)\<rparr>),
     links = (\<lambda>l. case l of FreeHead \<Rightarrow> \<lparr>le_prev = PageLink 2, le_next = PageLink 2\<rparr>
                        | PageLink _ \<Rightarrow> \<lparr>le_prev = FreeHead, le_next = FreeHead\<rparr>),
     nr_free = 10\<rparr>"

definition sample_swap :: swap_state where
  "sample_swap = \<lparr>skm = \<lparr>pm = sample_spmm, ram = (\<lambda>_ _. 0), swap_init_ok = True\<rparr>,
     pra = (\<lambda>l. if l = PraHead then \<lparr>le_prev = PraLink 8, le_next = PraLink 4\<rparr>
               else if l = PraLink 4 then \<lparr>le_prev = PraHead, le_next = PraLink 6\<rparr>
               else if l = PraLink 6 then \<lparr>le_prev = PraLink 4, le_next = PraLink 8\<rparr>
               else \<lparr>le_prev = PraLink 6, le_next = PraHead\<rparr>),
     curr_ptr = PraLink 4, slots = (\<lambda>_ _. 0), max_swap_offset = 8\<rparr>"

lemma sample_swap_ring: "ring (pra sample_swap) PraHead (map PraLink [4, 6, 8])"
  by (simp add: sample_swap_def ring_def)

lemma sample_spmm_wf: "fl_wf sample_spmm [2]"
  by (rule fl_wfI) (auto simp: sample_spmm_def ring_def page_flag_defs)

lemma sample_swap_kinv: "kinv 11 0 (skm sample_swap)" "refs_ok (skm sample_swap)" "7 \<le> card (pfree (pm (skm sample_swap)))"
proof -
  have f: "pfree sample_spmm = {2 ..< 12}" using pfree_eq[OF sample_spmm_wf] by (auto simp: free_set_def sample_spmm_def)
  have "pool_inv 11 sample_spmm" using sample_spmm_wf by (auto simp: pool_inv_def free_set_def sample_spmm_def intro!: exI[of _ "[2]"])
  then show "kinv 11 0 (skm sample_swap)" using f
    by (auto simp: kinv_def sample_swap_def tree_ok_def tables_def tbl_zero pte_at_def nframes_def npage_def nbase_def split: if_splits)
  show "refs_ok (skm sample_swap)" "7 \<le> card (pfree (pm (skm sample_swap)))"
    by (simp_all add: sample_swap_def f refs_ok_def page_ref_def) (simp_all add: sample_spmm_def)
qed

theorem clock_victim_correct_witness:
  "\<exists>s' s''. clock_swap_out_victim (Some PraHead) False sample_swap = Some (0, 8, s') \<and> ring (pra s') PraHead (map PraLink [4, 6]) \<and>
     pvisited s' 4 = 0 \<and> pvisited s' 6 = 0 \<and> clock_swap_out_victim (Some PraHead) False s' = Some (0, 8, s'')"
proof -
  have sw: "sweep sample_swap [4, 6, 8] = [4, 6, 8]" by (simp add: sweep_def sample_swap_def)
  have "pvisited sample_swap 4 = 1" "pvisited sample_swap 6 = 1" "pvisited sample_swap 8 = 0" by (simp_all add: sample_swap_def sample_spmm_def)
  then have "clock_choice sample_swap [4, 6, 8] = 8" "clock_passed sample_swap [4, 6, 8] = [4, 6]"
    by (simp_all add: clock_choice_def clock_passed_def sw)
  moreover have "curr_ptr sample_swap \<in> insert PraHead (PraLink ` set [4, 6, 8])" by (simp add: sample_swap_def)
  ultimately show ?thesis using clock_victim_correct[OF sample_swap_ring, simplified] by fastforce
qed


end
