(* ===== verification/Devices.thy ===== *)
theory Devices
  imports File_Table
begin

text \<open>
  Devices behind the file system: \<^verbatim>\<open>src/kern/fs/devs/dev.c\<close>, \<^verbatim>\<open>dev_stdin.c\<close>, \<^verbatim>\<open>dev_stdout.c\<close>,
  \<^verbatim>\<open>dev_disk0.c\<close> and the disk below the last one, \<^verbatim>\<open>src/kern/driver/ide.c\<close> and \<^verbatim>\<open>ramdisk.c\<close>. The four
  function pointers of a \<^verbatim>\<open>struct device\<close> are those of one of three devices, so they are the constructor
  \<open>d_kind\<close>. A read of \<^verbatim>\<open>stdin\<close> that has to wait for input does not return within a step and is \<open>None\<close>.
\<close>

definition SECTSIZE :: nat where "SECTSIZE = 512"
definition SWAP_DEV_NO :: nat where "SWAP_DEV_NO = 1"
definition DISK0_DEV_NO :: nat where "DISK0_DEV_NO = 2"
definition MAX_IDE :: nat where "MAX_IDE = 4"
definition MAX_NSECS :: nat where "MAX_NSECS = 128"
definition MAX_DISK_NSECS :: nat where "MAX_DISK_NSECS = 0x10000000"
definition STDIN_BUFSIZE :: nat where "STDIN_BUFSIZE = 4096"
definition DISK0_BLKSIZE :: nat where "DISK0_BLKSIZE = 4096"
definition DISK0_BUFSIZE :: nat where "DISK0_BUFSIZE = 4 * DISK0_BLKSIZE"
definition DISK0_BLK_NSECT :: nat where "DISK0_BLK_NSECT = DISK0_BLKSIZE div SECTSIZE"
definition S_IFCHR :: "32 word" where "S_IFCHR = 0x4000"
definition S_IFBLK :: "32 word" where "S_IFBLK = 0x5000"

datatype dev_kind = Stdin | Stdout | Disk0

record device =
  d_blocks :: nat
  d_blocksize :: nat
  d_kind :: dev_kind

text \<open>A disk: its size in sectors and the bytes from \<^verbatim>\<open>iobase\<close> on.\<close>

record ide_device =
  ide_valid :: bool
  ide_size :: nat
  ide_data :: "nat \<Rightarrow> byte"

record dev_state = fs_state +
  devices :: "iptr \<Rightarrow> device"
  console :: "byte list"
  stdin_buffer :: "nat \<Rightarrow> byte"
  p_rpos :: nat
  p_wpos :: nat
  disk0_buffer :: nat
  ide_devices :: "nat \<Rightarrow> ide_device"

subsection \<open>The disks\<close>

text \<open>\<^verbatim>\<open>dev->size - secno\<close> is unsigned: it is no limit when the first sector is beyond the end.\<close>

definition ramdisk_count :: "ide_device \<Rightarrow> nat \<Rightarrow> nat \<Rightarrow> nat" where
  "ramdisk_count dev secno nsecs = min nsecs (unat (of_nat (ide_size dev) - of_nat secno :: 64 word))"

definition ramdisk_read :: "ide_device \<Rightarrow> nat \<Rightarrow> nat \<Rightarrow> nat \<Rightarrow> bmem \<Rightarrow> int \<times> bmem" where
  "ramdisk_read dev secno dst nsecs m =
     (let n = ramdisk_count dev secno nsecs * SECTSIZE in
      (0, \<lambda>a. if dst \<le> a \<and> a < dst + n then ide_data dev (secno * SECTSIZE + (a - dst)) else m a))"

definition ramdisk_write :: "ide_device \<Rightarrow> nat \<Rightarrow> nat \<Rightarrow> nat \<Rightarrow> bmem \<Rightarrow> int \<times> ide_device" where
  "ramdisk_write dev secno src nsecs m =
     (let n = ramdisk_count dev secno nsecs * SECTSIZE; b = secno * SECTSIZE in
      (0, dev\<lparr>ide_data := \<lambda>a. if b \<le> a \<and> a < b + n then m (src + (a - b)) else ide_data dev a\<rparr>))"

text \<open>The images linked into the kernel are arguments. A disk is cleared first and stays invalid without an image.\<close>

definition ramdisk_init :: "byte list \<Rightarrow> byte list \<Rightarrow> nat \<Rightarrow> ide_device option" where
  "ramdisk_init swap_img sfs_img devno = do {
     img \<leftarrow> (if devno = SWAP_DEV_NO then Some swap_img else if devno = DISK0_DEV_NO then Some sfs_img else None);
     Some (if img = [] then \<lparr>ide_valid = False, ide_size = 0, ide_data = \<lambda>_. 0\<rparr>
       else \<lparr>ide_valid = True, ide_size = (length img mod 2 ^ 32) div SECTSIZE,
         ide_data = \<lambda>a. if a < length img then img ! a else 0\<rparr>) }"

definition ide_device_valid :: "nat \<Rightarrow> 'a dev_state_scheme \<Rightarrow> bool" where
  "ide_device_valid ideno s \<longleftrightarrow> ideno < MAX_IDE \<and> ide_valid (ide_devices s ideno)"

definition ide_init :: "byte list \<Rightarrow> byte list \<Rightarrow> 'a dev_state_scheme \<Rightarrow> 'a dev_state_scheme option" where
  "ide_init swap_img sfs_img s = do {
     let s = s\<lparr>ide_devices := \<lambda>i. if i < MAX_IDE then (ide_devices s i)\<lparr>ide_valid := False\<rparr> else ide_devices s i\<rparr>;
     d \<leftarrow> ramdisk_init swap_img sfs_img SWAP_DEV_NO;
     let s = s\<lparr>ide_devices := (ide_devices s)(SWAP_DEV_NO := d)\<rparr>;
     kassert (ide_device_valid SWAP_DEV_NO s);
     d \<leftarrow> ramdisk_init swap_img sfs_img DISK0_DEV_NO;
     let s = s\<lparr>ide_devices := (ide_devices s)(DISK0_DEV_NO := d)\<rparr>;
     kassert (ide_device_valid DISK0_DEV_NO s);
     Some s }"

definition ide_device_size :: "nat \<Rightarrow> 'a dev_state_scheme \<Rightarrow> nat" where
  "ide_device_size ideno s = (if ide_device_valid ideno s then ide_size (ide_devices s ideno) else 0)"

definition ide_read_secs :: "nat \<Rightarrow> nat \<Rightarrow> nat \<Rightarrow> nat \<Rightarrow> 'a dev_state_scheme \<Rightarrow> (int \<times> 'a dev_state_scheme) option" where
  "ide_read_secs ideno secno dst nsecs s = do {
     kassert (nsecs \<le> MAX_NSECS \<and> ide_device_valid ideno s);
     kassert (secno < MAX_DISK_NSECS \<and> secno + nsecs \<le> MAX_DISK_NSECS);
     (case ramdisk_read (ide_devices s ideno) secno dst nsecs (fmem s) of (ret, m) \<Rightarrow> Some (ret, s\<lparr>fmem := m\<rparr>)) }"

definition ide_write_secs :: "nat \<Rightarrow> nat \<Rightarrow> nat \<Rightarrow> nat \<Rightarrow> 'a dev_state_scheme \<Rightarrow> (int \<times> 'a dev_state_scheme) option" where
  "ide_write_secs ideno secno src nsecs s = do {
     kassert (nsecs \<le> MAX_NSECS \<and> ide_device_valid ideno s);
     kassert (secno < MAX_DISK_NSECS \<and> secno + nsecs \<le> MAX_DISK_NSECS);
     (case ramdisk_write (ide_devices s ideno) secno src nsecs (fmem s) of (ret, d) \<Rightarrow>
       Some (ret, s\<lparr>ide_devices := (ide_devices s)(ideno := d)\<rparr>)) }"

subsection \<open>disk0\<close>

text \<open>The semaphore \<^verbatim>\<open>disk0_sem\<close> is held from the first block to the last, so that a transfer is one step.\<close>

definition disk0_read_blks_nolock :: "32 word \<Rightarrow> 32 word \<Rightarrow> 'a dev_state_scheme \<Rightarrow> 'a dev_state_scheme option" where
  "disk0_read_blks_nolock blkno nblks s =
     (let sectno = blkno * of_nat DISK0_BLK_NSECT; nsecs = nblks * of_nat DISK0_BLK_NSECT in do {
      (ret, s) \<leftarrow> ide_read_secs DISK0_DEV_NO (unat sectno) (disk0_buffer s) (unat nsecs) s;
      kassert (ret = 0);
      Some s })"

definition disk0_write_blks_nolock :: "32 word \<Rightarrow> 32 word \<Rightarrow> 'a dev_state_scheme \<Rightarrow> 'a dev_state_scheme option" where
  "disk0_write_blks_nolock blkno nblks s =
     (let sectno = blkno * of_nat DISK0_BLK_NSECT; nsecs = nblks * of_nat DISK0_BLK_NSECT in do {
      (ret, s) \<leftarrow> ide_write_secs DISK0_DEV_NO (unat sectno) (disk0_buffer s) (unat nsecs) s;
      kassert (ret = 0);
      Some s })"

partial_function (option) disk0_loop ::
  "bool \<Rightarrow> 32 word \<Rightarrow> nat \<Rightarrow> iobuf \<Rightarrow> 'a dev_state_scheme \<Rightarrow> (iobuf \<times> 'a dev_state_scheme) option" where
  "disk0_loop wr blkno resid iob s =
     (if resid = 0 then Some (iob, s)
      else if wr then do {
        (_, copied, iob, m) \<leftarrow> iobuf_move (disk0_buffer s) DISK0_BUFSIZE False iob (fmem s);
        let s = s\<lparr>fmem := m\<rparr>;
        kassert (copied \<noteq> 0 \<and> copied \<le> resid \<and> copied mod DISK0_BLKSIZE = 0);
        let nblks = of_nat (copied div DISK0_BLKSIZE);
        s \<leftarrow> disk0_write_blks_nolock blkno nblks s;
        disk0_loop wr (blkno + nblks) (resid - copied) iob s }
      else do {
        let alen = (if DISK0_BUFSIZE > resid then resid else DISK0_BUFSIZE);
        let nblks = of_nat (alen div DISK0_BLKSIZE);
        s \<leftarrow> disk0_read_blks_nolock blkno nblks s;
        (_, copied, iob, m) \<leftarrow> iobuf_move (disk0_buffer s) alen True iob (fmem s);
        let s = s\<lparr>fmem := m\<rparr>;
        kassert (copied = alen \<and> copied mod DISK0_BLKSIZE = 0);
        disk0_loop wr (blkno + nblks) (resid - copied) iob s })"

declare disk0_loop.simps [code]

definition disk0_io :: "iptr \<Rightarrow> iobuf \<Rightarrow> bool \<Rightarrow> 'a dev_state_scheme \<Rightarrow> (int \<times> iobuf \<times> 'a dev_state_scheme) option" where
  "disk0_io dev iob wr s =
     (let blkno = word_of_int (io_offset iob div int DISK0_BLKSIZE) :: 32 word;
          nblks = of_nat (io_resid iob div DISK0_BLKSIZE) :: 32 word in
      if io_offset iob mod int DISK0_BLKSIZE \<noteq> 0 \<or> io_resid iob mod DISK0_BLKSIZE \<noteq> 0 then Some (err E_INVAL, iob, s)
      else if unat (blkno + nblks) > d_blocks (devices s dev) then Some (err E_INVAL, iob, s)
      else if nblks = 0 then Some (0, iob, s)
      else do { (iob, s) \<leftarrow> disk0_loop wr blkno (io_resid iob) iob s; Some (0, iob, s) })"

subsection \<open>stdin and stdout\<close>

text \<open>A typed character; waking the readers is left out, as they cannot wait within a step.\<close>

definition dev_stdin_write :: "byte \<Rightarrow> 'a dev_state_scheme \<Rightarrow> 'a dev_state_scheme" where
  "dev_stdin_write c s =
     (if c \<noteq> 0 then
        let s = s\<lparr>stdin_buffer := (stdin_buffer s)(p_wpos s mod STDIN_BUFSIZE := c)\<rparr> in
        if p_wpos s < p_rpos s + STDIN_BUFSIZE then s\<lparr>p_wpos := p_wpos s + 1\<rparr> else s
      else s)"

primrec dev_stdin_read :: "nat \<Rightarrow> nat \<Rightarrow> 'a dev_state_scheme \<Rightarrow> 'a dev_state_scheme option" where
  "dev_stdin_read 0 buf s = Some s"
| "dev_stdin_read (Suc len) buf s =
     (if p_rpos s < p_wpos s then
        dev_stdin_read len (buf + 1)
          (s\<lparr>fmem := (fmem s)(buf := stdin_buffer s (p_rpos s mod STDIN_BUFSIZE)), p_rpos := p_rpos s + 1\<rparr>)
      else None)"

definition stdin_io :: "iobuf \<Rightarrow> bool \<Rightarrow> 'a dev_state_scheme \<Rightarrow> (int \<times> iobuf \<times> 'a dev_state_scheme) option" where
  "stdin_io iob wr s =
     (if \<not> wr then do {
        s \<leftarrow> dev_stdin_read (io_resid iob) (io_base iob) s;
        let ret = int (io_resid iob);
        Some (ret, if ret > 0 then iob\<lparr>io_resid := 0\<rparr> else iob, s) }
      else Some (err E_INVAL, iob, s))"

primrec cputchars :: "nat \<Rightarrow> nat \<Rightarrow> 'a dev_state_scheme \<Rightarrow> 'a dev_state_scheme" where
  "cputchars 0 data s = s"
| "cputchars (Suc n) data s = cputchars n (data + 1) (s\<lparr>console := console s @ [fmem s data]\<rparr>)"

definition stdout_io :: "iobuf \<Rightarrow> bool \<Rightarrow> 'a dev_state_scheme \<Rightarrow> (int \<times> iobuf \<times> 'a dev_state_scheme) option" where
  "stdout_io iob wr s =
     (if wr then Some (0, iob\<lparr>io_resid := 0\<rparr>, cputchars (io_resid iob) (io_base iob) s) else Some (err E_INVAL, iob, s))"

subsection \<open>Device inodes\<close>

definition stdin_open :: "32 word \<Rightarrow> int" where
  "stdin_open flags = (if flags \<noteq> O_RDONLY then err E_INVAL else 0)"

definition stdout_open :: "32 word \<Rightarrow> int" where
  "stdout_open flags = (if flags \<noteq> O_WRONLY then err E_INVAL else 0)"

definition disk0_open :: "32 word \<Rightarrow> int" where "disk0_open flags = 0"
definition stdin_close :: int where "stdin_close = 0"
definition stdout_close :: int where "stdout_close = 0"
definition disk0_close :: int where "disk0_close = 0"
definition stdin_ioctl :: int where "stdin_ioctl = err E_INVAL"
definition stdout_ioctl :: int where "stdout_ioctl = err E_INVAL"
definition disk0_ioctl :: int where "disk0_ioctl = err E_UNIMP"

definition dop_open :: "iptr \<Rightarrow> 32 word \<Rightarrow> 'a dev_state_scheme \<Rightarrow> int" where
  "dop_open dev flags s = (case d_kind (devices s dev) of
       Stdin \<Rightarrow> stdin_open flags | Stdout \<Rightarrow> stdout_open flags | Disk0 \<Rightarrow> disk0_open flags)"

definition dop_close :: "iptr \<Rightarrow> 'a dev_state_scheme \<Rightarrow> int" where
  "dop_close dev s = (case d_kind (devices s dev) of Stdin \<Rightarrow> stdin_close | Stdout \<Rightarrow> stdout_close | Disk0 \<Rightarrow> disk0_close)"

definition dop_io :: "iptr \<Rightarrow> iobuf \<Rightarrow> bool \<Rightarrow> 'a dev_state_scheme \<Rightarrow> (int \<times> iobuf \<times> 'a dev_state_scheme) option" where
  "dop_io dev iob wr s = (case d_kind (devices s dev) of
       Stdin \<Rightarrow> stdin_io iob wr s | Stdout \<Rightarrow> stdout_io iob wr s | Disk0 \<Rightarrow> disk0_io dev iob wr s)"

definition dop_ioctl :: "iptr \<Rightarrow> 'a dev_state_scheme \<Rightarrow> int" where
  "dop_ioctl dev s = (case d_kind (devices s dev) of Stdin \<Rightarrow> stdin_ioctl | Stdout \<Rightarrow> stdout_ioctl | Disk0 \<Rightarrow> disk0_ioctl)"

definition dev_open :: "iptr \<Rightarrow> 32 word \<Rightarrow> 'a dev_state_scheme \<Rightarrow> (int \<times> 'a dev_state_scheme) option" where
  "dev_open dev flags s =
     Some (if flags AND (O_CREAT OR O_TRUNC OR O_EXCL OR O_APPEND) \<noteq> 0 then err E_INVAL else dop_open dev flags s, s)"

definition dev_close :: "iptr \<Rightarrow> 'a dev_state_scheme \<Rightarrow> (int \<times> 'a dev_state_scheme) option" where
  "dev_close dev s = Some (dop_close dev s, s)"

definition dev_read :: "iptr \<Rightarrow> iobuf \<Rightarrow> 'a dev_state_scheme \<Rightarrow> (int \<times> iobuf \<times> 'a dev_state_scheme) option" where
  "dev_read dev iob s = dop_io dev iob False s"

definition dev_write :: "iptr \<Rightarrow> iobuf \<Rightarrow> 'a dev_state_scheme \<Rightarrow> (int \<times> iobuf \<times> 'a dev_state_scheme) option" where
  "dev_write dev iob s = dop_io dev iob True s"

definition dev_ioctl :: "iptr \<Rightarrow> 'a dev_state_scheme \<Rightarrow> int" where
  "dev_ioctl dev s = dop_ioctl dev s"

definition dev_gettype :: "iptr \<Rightarrow> 'a dev_state_scheme \<Rightarrow> (int \<times> 32 word \<times> 'a dev_state_scheme) option" where
  "dev_gettype dev s = Some (0, if d_blocks (devices s dev) > 0 then S_IFBLK else S_IFCHR, s)"

definition dev_fstat :: "iptr \<Rightarrow> 'a dev_state_scheme \<Rightarrow> (int \<times> stat \<times> 'a dev_state_scheme) option" where
  "dev_fstat dev s = do {
     kassert (inode_check dev s);
     (ret, type, s) \<leftarrow> dev_gettype dev s;
     let d = devices s dev;
     Some (ret, \<lparr>st_mode = type, st_nlinks = 1, st_blocks = d_blocks d, st_size = d_blocks d * d_blocksize d\<rparr>, s) }"

definition dev_tryseek :: "iptr \<Rightarrow> int \<Rightarrow> 'a dev_state_scheme \<Rightarrow> (int \<times> 'a dev_state_scheme) option" where
  "dev_tryseek dev pos s =
     (let d = devices s dev in
      Some (if d_blocks d > 0 \<and> pos mod int (d_blocksize d) = 0 \<and> 0 \<le> pos \<and> pos < int (d_blocks d * d_blocksize d)
        then 0 else err E_INVAL, s))"

definition dev_lookup :: "iptr \<Rightarrow> string \<Rightarrow> 'a dev_state_scheme \<Rightarrow> (int \<times> iptr \<times> 'a dev_state_scheme) option" where
  "dev_lookup dev path s = Some (if path \<noteq> [] then (err E_NOENT, dev, s) else (0, dev, inode_ref_inc dev s))"

text \<open>The function table \<^verbatim>\<open>dev_node_ops\<close>; devices have no file system.\<close>

definition dev_node_ops :: "'a dev_state_scheme drv" where
  "dev_node_ops = \<lparr>op_open = \<lambda>n. Some (dev_open n), op_close = \<lambda>n. Some (dev_close n), op_read = \<lambda>n. Some (dev_read n),
     op_write = \<lambda>n. Some (dev_write n), op_fstat = \<lambda>n. Some (dev_fstat n), op_fsync = \<lambda>_. None, op_getdirentry = \<lambda>_. None,
     op_reclaim = \<lambda>_. None, op_gettype = \<lambda>n. Some (dev_gettype n), op_tryseek = \<lambda>n. Some (dev_tryseek n), op_truncate = \<lambda>_. None,
     op_create = \<lambda>_. None, op_lookup = \<lambda>n. Some (dev_lookup n), fs_get_root = \<lambda>_ _. None, fs_sync = \<lambda>_ _. None,
     fs_unmount = \<lambda>_ _. None, fs_cleanup = \<lambda>_ _. None\<rparr>"

definition dev_create_inode :: "iptr option \<Rightarrow> 'a dev_state_scheme \<Rightarrow> iptr option \<times> 'a dev_state_scheme" where
  "dev_create_inode blk s = (case blk of None \<Rightarrow> (None, s) | Some n \<Rightarrow> (Some n, inode_init n None s))"

definition stdin_device_init :: "iptr \<Rightarrow> 'a dev_state_scheme \<Rightarrow> 'a dev_state_scheme" where
  "stdin_device_init n s =
     s\<lparr>devices := (devices s)(n := \<lparr>d_blocks = 0, d_blocksize = 1, d_kind = Stdin\<rparr>), p_rpos := 0, p_wpos := 0\<rparr>"

definition stdout_device_init :: "iptr \<Rightarrow> 'a dev_state_scheme \<Rightarrow> 'a dev_state_scheme" where
  "stdout_device_init n s = s\<lparr>devices := (devices s)(n := \<lparr>d_blocks = 0, d_blocksize = 1, d_kind = Stdout\<rparr>)\<rparr>"

definition disk0_device_init :: "iptr \<Rightarrow> nat option \<Rightarrow> 'a dev_state_scheme \<Rightarrow> 'a dev_state_scheme option" where
  "disk0_device_init n blk s = do {
     kassert (ide_device_valid DISK0_DEV_NO s);
     let s = s\<lparr>devices := (devices s)(n := \<lparr>d_blocks = ide_device_size DISK0_DEV_NO s div DISK0_BLK_NSECT,
       d_blocksize = DISK0_BLKSIZE, d_kind = Disk0\<rparr>)\<rparr>;
     buf \<leftarrow> blk;
     Some (s\<lparr>disk0_buffer := buf\<rparr>) }"

text \<open>The arguments are what \<^verbatim>\<open>alloc_inode\<close> and, for the buffer of disk0, \<^verbatim>\<open>kmalloc\<close> return, and whether
  \<^verbatim>\<open>strdup\<close> and \<^verbatim>\<open>kmalloc\<close> found memory for the name and the list entry.\<close>

definition dev_init_stdin :: "iptr option \<Rightarrow> bool \<times> bool \<Rightarrow> 'a dev_state_scheme \<Rightarrow> 'a dev_state_scheme option" where
  "dev_init_stdin blk ok s = (case dev_create_inode blk s of (node, s) \<Rightarrow> do {
     n \<leftarrow> node;
     (ret, s) \<leftarrow> vfs_add_dev (fst ok) (snd ok) ''stdin'' (Some n) False (stdin_device_init n s);
     kassert (ret = 0);
     Some s })"

definition dev_init_stdout :: "iptr option \<Rightarrow> bool \<times> bool \<Rightarrow> 'a dev_state_scheme \<Rightarrow> 'a dev_state_scheme option" where
  "dev_init_stdout blk ok s = (case dev_create_inode blk s of (node, s) \<Rightarrow> do {
     n \<leftarrow> node;
     (ret, s) \<leftarrow> vfs_add_dev (fst ok) (snd ok) ''stdout'' (Some n) False (stdout_device_init n s);
     kassert (ret = 0);
     Some s })"

definition dev_init_disk0 :: "iptr option \<Rightarrow> nat option \<Rightarrow> bool \<times> bool \<Rightarrow> 'a dev_state_scheme \<Rightarrow> 'a dev_state_scheme option" where
  "dev_init_disk0 blk buf ok s = (case dev_create_inode blk s of (node, s) \<Rightarrow> do {
     n \<leftarrow> node;
     s \<leftarrow> disk0_device_init n buf s;
     (ret, s) \<leftarrow> vfs_add_dev (fst ok) (snd ok) ''disk0'' (Some n) True s;
     kassert (ret = 0);
     Some s })"

definition dev_init ::
  "iptr option \<Rightarrow> iptr option \<Rightarrow> iptr option \<Rightarrow> nat option \<Rightarrow> bool \<times> bool \<Rightarrow> bool \<times> bool \<Rightarrow> bool \<times> bool \<Rightarrow>
   'a dev_state_scheme \<Rightarrow> 'a dev_state_scheme option" where
  "dev_init n1 n2 n3 buf ok1 ok2 ok3 s = do {
     s \<leftarrow> dev_init_stdin n1 ok1 s;
     s \<leftarrow> dev_init_stdout n2 ok2 s;
     dev_init_disk0 n3 buf ok3 s }"

subsection \<open>Transfers to and from disk0\<close>

lemma memmove_blit: "memmove dst src n m = (\<lambda>a. if dst \<le> a \<and> a < dst + n then m (src + (a - dst)) else m a)"
  by (auto simp: memmove_def copy_up_blit copy_down_blit blit_def[symmetric])

lemma memmove_0 [simp]: "memmove dst src 0 m = m"
  by (rule ext) (auto simp: memmove_blit)

lemmas disk_consts = SECTSIZE_def MAX_NSECS_def MAX_DISK_NSECS_def DISK0_BLKSIZE_def DISK0_BUFSIZE_def DISK0_BLK_NSECT_def
  DISK0_DEV_NO_def MAX_IDE_def

definition iob_done :: "nat \<Rightarrow> iobuf \<Rightarrow> iobuf" where
  "iob_done n iob = iob\<lparr>io_base := io_base iob + n, io_offset := io_offset iob + int n, io_resid := io_resid iob - n\<rparr>"

lemma iob_done_simps [simp]: "io_base (iob_done n iob) = io_base iob + n" "io_resid (iob_done n iob) = io_resid iob - n"
  "iob_done 0 iob = iob" "iob_done n (iob_done k iob) = iob_done (k + n) iob"
  by (simp_all add: iob_done_def)

lemma iobuf_move_done:
  "iobuf_move data len m2b iob m = (let k = min len (io_resid iob) in
     Some (if len \<le> k then 0 else err E_NO_MEM, k, iob_done k iob,
       if m2b then memmove (io_base iob) data k m else memmove data (io_base iob) k m))"
  by (auto simp: iobuf_move_def iobuf_skip_def iob_done_def Let_def kassert_def min_def)

text \<open>The sector numbers of blocks inside the disk do not wrap.\<close>

lemma sectors:
  assumes "unat blkno + n \<le> MAX_DISK_NSECS div DISK0_BLK_NSECT" "n \<le> 4"
  shows "unat (blkno * of_nat DISK0_BLK_NSECT :: 32 word) = unat blkno * 8" "unat (of_nat n * of_nat DISK0_BLK_NSECT :: 32 word) = n * 8"
    "unat (blkno + of_nat n) = unat blkno + n"
proof -
  have b: "unat blkno + n \<le> 33554432" using assms(1) by (simp add: disk_consts)
  have n: "unat (of_nat n :: 32 word) = n" using assms(2) by (simp add: unat_of_nat)
  show "unat (blkno * of_nat DISK0_BLK_NSECT :: 32 word) = unat blkno * 8" using b by (simp add: disk_consts unat_word_ariths)
  show "unat (of_nat n * of_nat DISK0_BLK_NSECT :: 32 word) = n * 8" using assms(2) n by (simp add: disk_consts unat_word_ariths)
  show "unat (blkno + of_nat n) = unat blkno + n" using b n by (simp add: unat_word_ariths)
qed

definition disk_ok :: "nat \<Rightarrow> 'a dev_state_scheme \<Rightarrow> bool" where
  "disk_ok k s \<longleftrightarrow> ide_valid (ide_devices s DISK0_DEV_NO) \<and> k * DISK0_BLK_NSECT \<le> ide_size (ide_devices s DISK0_DEV_NO) \<and>
     ide_size (ide_devices s DISK0_DEV_NO) \<le> MAX_DISK_NSECS"

lemma count_inside: "secno + n \<le> ide_size d \<Longrightarrow> ide_size d \<le> MAX_DISK_NSECS \<Longrightarrow> ramdisk_count d secno n = n"
  by (simp add: ramdisk_count_def disk_consts unat_of_nat unat_sub word_le_nat_alt)

definition disk_put :: "nat \<Rightarrow> (nat \<Rightarrow> byte) \<Rightarrow> nat \<Rightarrow> 'a dev_state_scheme \<Rightarrow> 'a dev_state_scheme" where
  "disk_put b f n s = s\<lparr>ide_devices := (ide_devices s)(DISK0_DEV_NO := (ide_devices s DISK0_DEV_NO)\<lparr>ide_data :=
     \<lambda>a. if b \<le> a \<and> a < b + n then f (a - b) else ide_data (ide_devices s DISK0_DEV_NO) a\<rparr>)\<rparr>"

lemma write_blks:
  assumes "disk_ok (unat blkno + n) s" "0 < n" "n \<le> 4"
  shows "disk0_write_blks_nolock blkno (of_nat n) s =
    Some (disk_put (unat blkno * DISK0_BLKSIZE) (\<lambda>i. fmem s (disk0_buffer s + i)) (n * DISK0_BLKSIZE) s)"
proof -
  have k: "unat blkno + n \<le> MAX_DISK_NSECS div DISK0_BLK_NSECT" using assms(1) by (simp add: disk_ok_def disk_consts)
  have c: "ramdisk_count (ide_devices s DISK0_DEV_NO) (unat blkno * 8) (n * 8) = n * 8"
    by (rule count_inside) (use assms(1) in \<open>simp_all add: disk_ok_def disk_consts algebra_simps\<close>)
  have v: "n * 8 \<le> MAX_NSECS \<and> ide_device_valid DISK0_DEV_NO s" "unat blkno * 8 < MAX_DISK_NSECS \<and> unat blkno * 8 + n * 8 \<le> MAX_DISK_NSECS"
    using assms by (simp_all add: disk_ok_def ide_device_valid_def disk_consts)
  have b: "unat blkno * 8 * SECTSIZE = unat blkno * DISK0_BLKSIZE" "n * 8 * SECTSIZE = n * DISK0_BLKSIZE" by (simp_all add: disk_consts)
  show ?thesis
    by (simp add: disk0_write_blks_nolock_def sectors[OF k assms(3)] ide_write_secs_def ramdisk_write_def Let_def c v b disk_put_def cong: if_cong)
qed

lemma read_blks:
  assumes "disk_ok (unat blkno + n) s" "0 < n" "n \<le> 4"
  shows "disk0_read_blks_nolock blkno (of_nat n) s = Some (s\<lparr>fmem := \<lambda>a.
    if disk0_buffer s \<le> a \<and> a < disk0_buffer s + n * DISK0_BLKSIZE
    then ide_data (ide_devices s DISK0_DEV_NO) (unat blkno * DISK0_BLKSIZE + (a - disk0_buffer s)) else fmem s a\<rparr>)"
proof -
  have k: "unat blkno + n \<le> MAX_DISK_NSECS div DISK0_BLK_NSECT" using assms(1) by (simp add: disk_ok_def disk_consts)
  have c: "ramdisk_count (ide_devices s DISK0_DEV_NO) (unat blkno * 8) (n * 8) = n * 8"
    by (rule count_inside) (use assms(1) in \<open>simp_all add: disk_ok_def disk_consts algebra_simps\<close>)
  have v: "n * 8 \<le> MAX_NSECS \<and> ide_device_valid DISK0_DEV_NO s" "unat blkno * 8 < MAX_DISK_NSECS \<and> unat blkno * 8 + n * 8 \<le> MAX_DISK_NSECS"
    using assms by (simp_all add: disk_ok_def ide_device_valid_def disk_consts)
  have b: "unat blkno * 8 * SECTSIZE = unat blkno * DISK0_BLKSIZE" "n * 8 * SECTSIZE = n * DISK0_BLKSIZE" by (simp_all add: disk_consts)
  show ?thesis
    by (simp add: disk0_read_blks_nolock_def sectors[OF k assms(3)] ide_read_secs_def ramdisk_read_def Let_def c v b cong: if_cong)
qed

text \<open>The caller's buffer and \<^verbatim>\<open>disk0_buffer\<close> are different memory.\<close>

definition off_buffer :: "nat \<Rightarrow> nat \<Rightarrow> 'a dev_state_scheme \<Rightarrow> bool" where
  "off_buffer b n s \<longleftrightarrow> b + n \<le> disk0_buffer s \<or> disk0_buffer s + DISK0_BUFSIZE \<le> b"

lemma chunk: "0 < n \<Longrightarrow> min DISK0_BUFSIZE (n * DISK0_BLKSIZE) = min 4 n * DISK0_BLKSIZE"
  by (simp add: disk_consts min_def)

lemma disk_put_0 [simp]: "disk_put b f 0 s = s"
proof -
  have "(\<lambda>a. if b \<le> a \<and> a < b + 0 then f (a - b) else h a) = h" for h :: "nat \<Rightarrow> byte" by (rule ext) auto
  then show ?thesis by (simp add: disk_put_def)
qed

lemma disk_put_put:
  "disk_put (b + n) (\<lambda>i. f (n + i)) k (disk_put b f n s) = disk_put b f (n + k) s"
  by (auto simp: disk_put_def fun_eq_iff)

lemma disk_put_cong: "(\<And>i. i < n \<Longrightarrow> f i = g i) \<Longrightarrow> disk_put b f n s = disk_put b g n s"
  by (simp add: disk_put_def less_diff_conv2 cong: if_cong conj_cong)

lemma disk_put_simps [simp]: "fmem (disk_put b f n s) = fmem s" "disk0_buffer (disk_put b f n s) = disk0_buffer s"
  "disk_ok k (disk_put b f n s) = disk_ok k s" "disk_ok k (s\<lparr>fmem := m\<rparr>) = disk_ok k s"
  "off_buffer c k (disk_put b f n s) = off_buffer c k s" "off_buffer c k (s\<lparr>fmem := m\<rparr>) = off_buffer c k s"
  "disk_put b f n (s\<lparr>fmem := m\<rparr>) = (disk_put b f n s)\<lparr>fmem := m\<rparr>"
  by (cases s rule: dev_state.cases_scheme; simp add: disk_put_def disk_ok_def off_buffer_def cong: if_cong)+

lemma write_loop:
  assumes "io_resid iob = n * DISK0_BLKSIZE" "disk_ok (unat blkno + n) s" "off_buffer (io_base iob) (n * DISK0_BLKSIZE) s"
  shows "\<exists>m. disk0_loop True blkno (n * DISK0_BLKSIZE) iob s = Some (iob_done (n * DISK0_BLKSIZE) iob,
      (disk_put (unat blkno * DISK0_BLKSIZE) (\<lambda>i. fmem s (io_base iob + i)) (n * DISK0_BLKSIZE) s)\<lparr>fmem := m\<rparr>) \<and>
    (\<forall>a. off_buffer a 1 s \<longrightarrow> m a = fmem s a)"
  using assms
proof (induction n arbitrary: iob blkno s rule: less_induct)
  case (less n)
  show ?case
  proof (cases "n = 0")
    case True
    then show ?thesis
      by (subst disk0_loop.simps) (auto intro!: exI[of _ "fmem s"])
  next
    case False
    define k where "k = min 4 n"
    have k: "0 < k" "k \<le> 4" "k \<le> n" "min DISK0_BUFSIZE (n * DISK0_BLKSIZE) = k * DISK0_BLKSIZE"
      using False by (auto simp: k_def chunk)
    let ?B = "DISK0_BLKSIZE" let ?b = "io_base iob" let ?f = "\<lambda>i. fmem s (io_base iob + i)"
    define m1 where "m1 = memmove (disk0_buffer s) ?b (k * ?B) (fmem s)"
    define s2 where "s2 = disk_put (unat blkno * ?B) ?f (k * ?B) (s\<lparr>fmem := m1\<rparr>)"
    have ko: "disk_ok (unat blkno + k) (s\<lparr>fmem := m1\<rparr>)" using less.prems(2) k(3) by (auto simp: disk_ok_def disk_consts)
    have kB: "k * ?B \<le> DISK0_BUFSIZE" "k * ?B \<le> n * ?B" using k by (simp_all add: disk_consts)
    have m1: "m1 (disk0_buffer s + i) = ?f i" if "i < k * ?B" for i using that by (simp add: m1_def memmove_blit)
    have fr: "m1 a = fmem s a" if "off_buffer a 1 s" for a using that kB(1) by (auto simp: m1_def memmove_blit off_buffer_def)
    have w: "disk0_write_blks_nolock blkno (of_nat k) (s\<lparr>fmem := m1\<rparr>) = Some s2"
      unfolding write_blks[OF ko k(1,2)] s2_def using m1 by (intro arg_cong[where f = Some] disk_put_cong) simp
    have bl: "unat (blkno + of_nat k) = unat blkno + k"
      by (rule sectors) (use ko k(2) in \<open>simp_all add: disk_ok_def disk_consts\<close>)
    have "\<exists>m. disk0_loop True (blkno + of_nat k) ((n - k) * ?B) (iob_done (k * ?B) iob) s2 =
        Some (iob_done ((n - k) * ?B) (iob_done (k * ?B) iob),
          (disk_put (unat (blkno + of_nat k) * ?B) (\<lambda>i. fmem s2 (io_base (iob_done (k * ?B) iob) + i)) ((n - k) * ?B) s2)\<lparr>fmem := m\<rparr>) \<and>
        (\<forall>a. off_buffer a 1 s2 \<longrightarrow> m a = fmem s2 a)"
      using less.prems k(1,3) kB by (intro less.IH) (auto simp: s2_def bl off_buffer_def diff_mult_distrib)
    then obtain m where m: "disk0_loop True (blkno + of_nat k) ((n - k) * ?B) (iob_done (k * ?B) iob) s2 =
        Some (iob_done (n * ?B) iob,
          (disk_put (unat (blkno + of_nat k) * ?B) (\<lambda>i. fmem s2 (?b + k * ?B + i)) ((n - k) * ?B) s2)\<lparr>fmem := m\<rparr>)"
        "\<forall>a. off_buffer a 1 s2 \<longrightarrow> m a = fmem s2 a" using kB(2) by (auto simp: diff_mult_distrib)
    have "off_buffer (?b + k * ?B + i) 1 s" if "i < (n - k) * ?B" for i
      using that less.prems(3) kB(2) by (auto simp: off_buffer_def diff_mult_distrib)
    then have "disk_put (unat (blkno + of_nat k) * ?B) (\<lambda>i. fmem s2 (?b + k * ?B + i)) ((n - k) * ?B) s2 =
      disk_put (unat blkno * ?B + k * ?B) (\<lambda>i. ?f (k * ?B + i)) ((n - k) * ?B) s2"
      unfolding bl add_mult_distrib by (intro disk_put_cong) (simp add: s2_def fr ac_simps)
    also have "\<dots> = disk_put (unat blkno * ?B) ?f (n * ?B) (s\<lparr>fmem := m1\<rparr>)"
      using kB(2) unfolding s2_def by (subst disk_put_put[where f = ?f]) (simp add: diff_mult_distrib)
    finally have e: "disk0_loop True (blkno + of_nat k) ((n - k) * ?B) (iob_done (k * ?B) iob) s2 =
        Some (iob_done (n * ?B) iob, (disk_put (unat blkno * ?B) ?f (n * ?B) s)\<lparr>fmem := m\<rparr>)" using m(1) by simp
    have B: "0 < ?B" by (simp add: disk_consts)
    have dv: "k * ?B mod ?B = 0" "k * ?B div ?B = k" "k * ?B \<noteq> 0" "n * ?B \<noteq> 0" "n * ?B - k * ?B = (n - k) * ?B"
      using k False by (simp_all add: disk_consts diff_mult_distrib)
    have "disk0_loop True blkno (n * ?B) iob s = disk0_loop True (blkno + of_nat k) ((n - k) * ?B) (iob_done (k * ?B) iob) s2"
      using k(1,3) w dv(5) B by (subst disk0_loop.simps) (simp add: iobuf_move_done less.prems(1) k(4) Let_def m1_def[symmetric])
    then show ?thesis using e m(2) fr by (intro exI[of _ m]) (auto simp: s2_def)
  qed
qed

lemma read_loop:
  assumes "io_resid iob = n * DISK0_BLKSIZE" "disk_ok (unat blkno + n) s" "off_buffer (io_base iob) (n * DISK0_BLKSIZE) s"
  shows "\<exists>m. disk0_loop False blkno (n * DISK0_BLKSIZE) iob s = Some (iob_done (n * DISK0_BLKSIZE) iob, s\<lparr>fmem := m\<rparr>) \<and>
    (\<forall>i < n * DISK0_BLKSIZE. m (io_base iob + i) = ide_data (ide_devices s DISK0_DEV_NO) (unat blkno * DISK0_BLKSIZE + i)) \<and>
    (\<forall>a. off_buffer a 1 s \<and> (a < io_base iob \<or> io_base iob + n * DISK0_BLKSIZE \<le> a) \<longrightarrow> m a = fmem s a)"
  using assms
proof (induction n arbitrary: iob blkno s rule: less_induct)
  case (less n)
  show ?case
  proof (cases "n = 0")
    case True
    then show ?thesis by (subst disk0_loop.simps) (auto intro!: exI[of _ "fmem s"])
  next
    case False
    define k where "k = min 4 n"
    have k: "0 < k" "k \<le> 4" "k \<le> n" "min DISK0_BUFSIZE (n * DISK0_BLKSIZE) = k * DISK0_BLKSIZE"
      using False by (auto simp: k_def chunk)
    let ?B = "DISK0_BLKSIZE" let ?b = "io_base iob" let ?d = "ide_data (ide_devices s DISK0_DEV_NO)" let ?D = "disk0_buffer s"
    define m0 where "m0 = (\<lambda>a. if ?D \<le> a \<and> a < ?D + k * ?B then ?d (unat blkno * ?B + (a - ?D)) else fmem s a)"
    define m1 where "m1 = memmove ?b ?D (k * ?B) m0"
    have ko: "disk_ok (unat blkno + k) s" using less.prems(2) k(3) by (auto simp: disk_ok_def disk_consts)
    have kB: "k * ?B \<le> DISK0_BUFSIZE" "k * ?B \<le> n * ?B" "0 < ?B" using k by (simp_all add: disk_consts)
    have m1: "m1 (?b + i) = ?d (unat blkno * ?B + i)" if "i < k * ?B" for i using that by (simp add: m1_def m0_def memmove_blit)
    have fr: "m1 a = fmem s a" if "off_buffer a 1 s" "a < ?b \<or> ?b + k * ?B \<le> a" for a
      using that kB(1) by (auto simp: m1_def m0_def memmove_blit off_buffer_def)
    have bl: "unat (blkno + of_nat k) = unat blkno + k"
      by (rule sectors) (use ko k(2) in \<open>simp_all add: disk_ok_def disk_consts\<close>)
    have "\<exists>m. disk0_loop False (blkno + of_nat k) ((n - k) * ?B) (iob_done (k * ?B) iob) (s\<lparr>fmem := m1\<rparr>) =
        Some (iob_done ((n - k) * ?B) (iob_done (k * ?B) iob), (s\<lparr>fmem := m1\<rparr>)\<lparr>fmem := m\<rparr>) \<and>
        (\<forall>i < (n - k) * ?B. m (io_base (iob_done (k * ?B) iob) + i) =
           ide_data (ide_devices (s\<lparr>fmem := m1\<rparr>) DISK0_DEV_NO) (unat (blkno + of_nat k) * ?B + i)) \<and>
        (\<forall>a. off_buffer a 1 (s\<lparr>fmem := m1\<rparr>) \<and> (a < io_base (iob_done (k * ?B) iob) \<or>
           io_base (iob_done (k * ?B) iob) + (n - k) * ?B \<le> a) \<longrightarrow> m a = fmem (s\<lparr>fmem := m1\<rparr>) a)"
      using less.prems k(1,3) kB by (intro less.IH) (auto simp: bl off_buffer_def diff_mult_distrib)
    then obtain m where m: "disk0_loop False (blkno + of_nat k) ((n - k) * ?B) (iob_done (k * ?B) iob) (s\<lparr>fmem := m1\<rparr>) =
        Some (iob_done (n * ?B) iob, s\<lparr>fmem := m\<rparr>)" "\<forall>i < (n - k) * ?B. m (?b + k * ?B + i) = ?d ((unat blkno + k) * ?B + i)"
        "\<forall>a. off_buffer a 1 s \<and> (a < ?b + k * ?B \<or> ?b + n * ?B \<le> a) \<longrightarrow> m a = m1 a"
      using kB(2) by (auto simp: diff_mult_distrib bl)
    have "m (?b + i) = ?d (unat blkno * ?B + i)" if "i < n * ?B" for i
    proof (cases "i < k * ?B")
      case True
      then have "off_buffer (?b + i) 1 s" using less.prems(3) that by (auto simp: off_buffer_def)
      then show ?thesis using True m(3) m1 by simp
    next
      case False
      then show ?thesis using m(2)[rule_format, of "i - k * ?B"] that by (simp add: diff_mult_distrib add_mult_distrib)
    qed
    moreover
    have al: "(if DISK0_BUFSIZE > n * ?B then n * ?B else DISK0_BUFSIZE) = k * ?B" "min (k * ?B) (n * ?B) = k * ?B"
      using k(4) kB(2) by (auto simp: min_def)
    have "disk0_loop False blkno (n * ?B) iob s =
      disk0_loop False (blkno + of_nat k) ((n - k) * ?B) (iob_done (k * ?B) iob) (s\<lparr>fmem := m1\<rparr>)"
      using k(1,3) kB(2,3) \<open>n \<noteq> 0\<close> read_blks[OF ko k(1,2)]
      by (subst disk0_loop.simps)
        (simp only: al iobuf_move_done less.prems(1), simp add: Let_def m0_def[symmetric] m1_def[symmetric] diff_mult_distrib)
    moreover have "m a = fmem s a" if "off_buffer a 1 s" "a < ?b \<or> ?b + n * ?B \<le> a" for a
    proof -
      have "a < ?b \<or> ?b + k * ?B \<le> a" "a < ?b + k * ?B \<or> ?b + n * ?B \<le> a" using that kB(2) by linarith+
      then show ?thesis using that(1) m(3) fr by simp
    qed
    ultimately show ?thesis using m(1) by (intro exI[of _ m]) auto
  qed
qed

lemma disk0_io_blocks:
  assumes lt: "o' div DISK0_BLKSIZE + len div DISK0_BLKSIZE < 2 ^ 32"
  shows "disk0_io dev (iobuf_init b len (int o')) wr s =
     (if o' mod DISK0_BLKSIZE \<noteq> 0 \<or> len mod DISK0_BLKSIZE \<noteq> 0 \<or> o' div DISK0_BLKSIZE + len div DISK0_BLKSIZE > d_blocks (devices s dev)
      then Some (err E_INVAL, iobuf_init b len (int o'), s)
      else if len div DISK0_BLKSIZE = 0 then Some (0, iobuf_init b len (int o'), s)
      else do { (iob, s) \<leftarrow> disk0_loop wr (of_nat (o' div DISK0_BLKSIZE)) len (iobuf_init b len (int o')) s; Some (0, iob, s) })"
proof -
  have u: "unat (of_nat (o' div DISK0_BLKSIZE) + of_nat (len div DISK0_BLKSIZE) :: 32 word) = o' div DISK0_BLKSIZE + len div DISK0_BLKSIZE"
    "unat (of_nat (len div DISK0_BLKSIZE) :: 32 word) = len div DISK0_BLKSIZE" "unat (of_nat (o' div DISK0_BLKSIZE) :: 32 word) = o' div DISK0_BLKSIZE"
    using lt by (simp_all add: unat_of_nat unat_word_ariths)
  have z: "(of_nat (len div DISK0_BLKSIZE) :: 32 word) = 0 \<longleftrightarrow> len div DISK0_BLKSIZE = 0" using u(2) by (metis unat_0 unat_eq_zero)
  have w: "word_of_int (int o' div int DISK0_BLKSIZE) = (of_nat (o' div DISK0_BLKSIZE) :: 32 word)"
    by (simp add: zdiv_int[symmetric])
  show ?thesis by (simp add: disk0_io_def iobuf_init_def Let_def u z w flip: zmod_int)
qed


subsection \<open>Devices as a driver\<close>

interpretation dev: inode_driver dev_node_ops "\<lambda>_. True"
  by unfold_locales (auto simp: dev_node_ops_def dev_close_def keeps_def)

text \<open>A process with descriptors 0 and 1 open on \<^verbatim>\<open>stdin\<close> (inode 1) and \<^verbatim>\<open>stdout\<close> (inode 2), table 1, and a new table 0;
  disk0 is inode 3, its disk has 16 sectors.\<close>

definition sample_entry :: "nat \<Rightarrow> fd_entry" where
  "sample_entry i = (if i < 2
     then \<lparr>fstatus = FD_OPENED, readable = (i = 0), writable = (i = 1), fd = int i, fpos = 0, fnode = Some (i + 1), fopen_count = 1\<rparr>
     else \<lparr>fstatus = FD_NONE, readable = False, writable = False, fd = int i, fpos = 0, fnode = None, fopen_count = 0\<rparr>)"

definition sample_dev :: dev_state where
  "sample_dev = \<lparr>fmem = \<lambda>a. of_nat a, inodes = \<lambda>n. \<lparr>ref_count = 2, open_count = 1, in_fs = None\<rparr>,
     tables = \<lambda>t. if t = 1 then \<lparr>pwd = None, fd_array = map sample_entry [0 ..< FILES_STRUCT_NENTRY], files_count = 1\<rparr>
       else \<lparr>pwd = None, fd_array = fd_array_init (map sample_entry [0 ..< FILES_STRUCT_NENTRY]), files_count = 0\<rparr>,
     bootfs_node = None, vdev_list = [],
     devices = \<lambda>n. if n = 1 then \<lparr>d_blocks = 0, d_blocksize = 1, d_kind = Stdin\<rparr> else if n = 2 then \<lparr>d_blocks = 0, d_blocksize = 1, d_kind = Stdout\<rparr>
       else \<lparr>d_blocks = 2, d_blocksize = DISK0_BLKSIZE, d_kind = Disk0\<rparr>,
     console = [], stdin_buffer = \<lambda>_. 0, p_rpos = 0, p_wpos = 0, disk0_buffer = 65536,
     ide_devices = \<lambda>_. \<lparr>ide_valid = True, ide_size = 16, ide_data = \<lambda>_. 0\<rparr>\<rparr>"

lemma sample_entries: "entries n (map sample_entry xs) \<le> length (filter (\<lambda>i. i = n - 1) xs)"
  by (induction xs) (auto simp: entries_def sample_entry_def)

lemma sample_dev_ok: "array_wf (\<lambda>_. True) (fd_array (tables sample_dev 1))" "counts_ok dev_node_ops (\<lambda>_. True) 1 sample_dev"
  "0 < files_count (tables sample_dev 1)" "fresh_table (tables sample_dev 0)"
  "disk_ok (d_blocks (devices sample_dev 3)) sample_dev"
proof -
  have e: "entries n (map sample_entry [0 ..< FILES_STRUCT_NENTRY]) \<le> 1" for n
  proof -
    have "length (filter (\<lambda>i. i = k) [0 ..< m]) \<le> 1" for k m :: nat by (induction m) auto
    then show ?thesis using sample_entries le_trans by blast
  qed
  show "array_wf (\<lambda>_. True) (fd_array (tables sample_dev 1))"
    by (auto simp: array_wf_def sample_dev_def entry_wf_def sample_entry_def)
  show "counts_ok dev_node_ops (\<lambda>_. True) 1 sample_dev"
    using e le_less_trans[OF e, of 2] by (auto simp: counts_ok_def sample_dev_def MAX_INODE_COUNT_def)
  show "0 < files_count (tables sample_dev 1)" "fresh_table (tables sample_dev 0)"
    by (simp_all add: sample_dev_def fresh_table_def fd_array_init_def)
  show "disk_ok (d_blocks (devices sample_dev 3)) sample_dev" by (simp add: sample_dev_def disk_ok_def disk_consts)
qed

theorem file_table_balanced_witness:
  "inode_driver dev_node_ops (\<lambda>_. True) \<and> array_wf (\<lambda>_. True) (fd_array (tables sample_dev 1)) \<and>
   counts_ok dev_node_ops (\<lambda>_. True) 1 sample_dev \<and> 0 < files_count (tables sample_dev 1) \<and>
   (\<exists>s'. file_close dev_node_ops 1 1 sample_dev = Some (0, s') \<and> surplus 1 s' = surplus 1 sample_dev \<and> fstatus (entry 1 1 s') = FD_NONE) \<and>
   file_close dev_node_ops 1 2 sample_dev = Some (err E_INVAL, sample_dev)"
proof -
  have f: "testfd 1 \<and> fstatus (entry 1 (nat 1) sample_dev) = FD_OPENED" "\<not> (testfd 2 \<and> fstatus (entry 1 (nat 2) sample_dev) = FD_OPENED)"
    by (simp_all add: sample_dev_def testfd_def FILES_STRUCT_NENTRY_def sample_entry_def)
  show ?thesis
    using file_table_balanced[OF dev.inode_driver_axioms sample_dev_ok(1,2,3), of 1 0 5]
      file_table_balanced[OF dev.inode_driver_axioms sample_dev_ok(1,2,3), of 2 0 5] sample_dev_ok(1,2,3) dev.inode_driver_axioms
    unfolding if_P[OF f(1)] if_not_P[OF f(2)] by auto
qed

theorem fork_exit_files_round_trip_witness:
  "inode_driver dev_node_ops (\<lambda>_. True) \<and> fresh_table (tables sample_dev 0) \<and> array_wf (\<lambda>_. True) (fd_array (tables sample_dev 1)) \<and>
   counts_ok dev_node_ops (\<lambda>_. True) 1 sample_dev \<and> 0 < files_count (tables sample_dev 1) \<and>
   (\<forall>n. ref_count (inodes sample_dev n) + int FILES_STRUCT_NENTRY + 1 < MAX_INODE_COUNT) \<and> pwd (tables sample_dev 1) = None \<and>
   (\<exists>s1 s2. dup_files 0 1 sample_dev = Some (0, s1) \<and> fnode (entry 0 1 s1) = Some 2 \<and> files_destroy dev_node_ops 0 s1 = Some s2 \<and>
      ref_count (inodes s2 2) = 2)"
proof -
  have f: "\<And>n. ref_count (inodes sample_dev n) + int FILES_STRUCT_NENTRY + 1 < MAX_INODE_COUNT" "pwd (tables sample_dev 1) = None"
    "1 < FILES_STRUCT_NENTRY" "fstatus (entry 1 1 sample_dev) = FD_OPENED" "fnode (entry 1 1 sample_dev) = Some 2" "ref_count (inodes sample_dev 2) = 2"
    by (simp_all add: sample_dev_def FILES_STRUCT_NENTRY_def MAX_INODE_COUNT_def sample_entry_def)
  show ?thesis
    using fork_exit_files_round_trip[OF dev.inode_driver_axioms, of 0 1 sample_dev] sample_dev_ok f dev.inode_driver_axioms
    by (auto simp: Let_def)
qed


text \<open>When the buffer of \<^verbatim>\<open>stdin\<close> is full, the next character replaces the oldest one that was not read.\<close>

lemma stdin_overrun:
  "c \<noteq> 0 \<Longrightarrow> p_wpos s = p_rpos s + STDIN_BUFSIZE \<Longrightarrow>
   \<exists>s'. dev_stdin_read 1 buf (dev_stdin_write c s) = Some s' \<and> fmem s' buf = c"
  by (simp add: dev_stdin_write_def Let_def STDIN_BUFSIZE_def)

end
