(* ===== verification/Pipe.thy ===== *)
theory Pipe
  imports Sync File_Table
begin

text \<open>
  Pipes: \<^verbatim>\<open>src/kern/fs/pipe/pipe.c\<close> and \<^verbatim>\<open>file_pipe\<close> of \<^verbatim>\<open>src/kern/fs/file.c\<close>. A pipe is a ring of bytes with a
  queue of waiting readers and one of waiting writers, both of theory \<open>Sync\<close>; the state of the scheduler and of the
  wait queues is the member \<open>ksync\<close>. With interrupts off the loops of \<^verbatim>\<open>pipe_read\<close> and \<^verbatim>\<open>pipe_write\<close> run until all
  bytes are moved or the process has to wait: this is one step, \<open>pipe_read_run\<close> and \<open>pipe_write_run\<close>, and what follows the
  call of \<^verbatim>\<open>schedule\<close> is another, \<open>pipe_read_resume\<close> and \<open>pipe_write_resume\<close>.

  The property shows that a pipe is a first-in first-out channel of bounded capacity and that no process
  waits for what is already there.
\<close>

definition PIPE_BUFFER_SIZE :: nat where "PIPE_BUFFER_SIZE = 4096"
definition WT_IPC :: "32 word" where "WT_IPC = 8 OR WT_INTERRUPTED"

record pipe =
  p_head :: nat
  p_tail :: nat
  p_read_queue :: nat
  p_write_queue :: nat
  p_buffer :: "nat \<Rightarrow> byte"

record pipe_state = fs_state +
  ksync :: sync
  pipes :: "iptr \<Rightarrow> pipe"

definition pipe_empty :: "pipe \<Rightarrow> bool" where "pipe_empty p \<longleftrightarrow> p_head p = p_tail p"
definition pipe_full :: "pipe \<Rightarrow> bool" where "pipe_full p \<longleftrightarrow> p_head p = (p_tail p + 1) mod PIPE_BUFFER_SIZE"

definition upd_pipe :: "iptr \<Rightarrow> (pipe \<Rightarrow> pipe) \<Rightarrow> 'a pipe_state_scheme \<Rightarrow> 'a pipe_state_scheme" where
  "upd_pipe n f s = s\<lparr>pipes := (pipes s)(n := f (pipes s n))\<rparr>"

definition on_sync :: "(sync \<Rightarrow> sync option) \<Rightarrow> 'a pipe_state_scheme \<Rightarrow> 'a pipe_state_scheme option" where
  "on_sync f s = do { k \<leftarrow> f (ksync s); Some (s\<lparr>ksync := k\<rparr>) }"

text \<open>Waking the other side, after each byte.\<close>

definition pipe_wakeup :: "nat \<Rightarrow> 'a pipe_state_scheme \<Rightarrow> 'a pipe_state_scheme option" where
  "pipe_wakeup q s = (if \<not> wait_queue_empty q (ksync s) then on_sync (wakeup_queue q WT_IPC True) s else Some s)"

text \<open>The loops: \<open>rem\<close> bytes are still to be moved, from or to \<open>base\<close>. They end with no byte left, or with
  the process queued on the wait structure \<open>w\<close>.\<close>

fun pipe_read_run :: "iptr \<Rightarrow> nat \<Rightarrow> nat \<Rightarrow> nat \<Rightarrow> 'a pipe_state_scheme \<Rightarrow> (nat \<times> nat \<times> 'a pipe_state_scheme) option" where
  "pipe_read_run n w 0 base s = Some (0, base, s)"
| "pipe_read_run n w (Suc rem) base s =
     (if \<not> pipe_empty (pipes s n) then do {
        let s = s\<lparr>fmem := (fmem s)(base := p_buffer (pipes s n) (p_head (pipes s n)))\<rparr>;
        s \<leftarrow> pipe_wakeup (p_write_queue (pipes s n)) s;
        pipe_read_run n w rem (base + 1) (upd_pipe n (\<lambda>p. p\<lparr>p_head := (p_head p + 1) mod PIPE_BUFFER_SIZE\<rparr>) s) }
      else do {
        s \<leftarrow> on_sync (wait_current_set (p_read_queue (pipes s n)) w WT_IPC) s;
        Some (Suc rem, base, s) })"

fun pipe_write_run :: "iptr \<Rightarrow> nat \<Rightarrow> nat \<Rightarrow> nat \<Rightarrow> 'a pipe_state_scheme \<Rightarrow> (nat \<times> nat \<times> 'a pipe_state_scheme) option" where
  "pipe_write_run n w 0 base s = Some (0, base, s)"
| "pipe_write_run n w (Suc rem) base s =
     (if \<not> pipe_full (pipes s n) then do {
        let s = upd_pipe n (\<lambda>p. p\<lparr>p_buffer := (p_buffer p)(p_tail p := fmem s base)\<rparr>) s;
        s \<leftarrow> pipe_wakeup (p_read_queue (pipes s n)) s;
        pipe_write_run n w rem (base + 1) (upd_pipe n (\<lambda>p. p\<lparr>p_tail := (p_tail p + 1) mod PIPE_BUFFER_SIZE\<rparr>) s) }
      else do {
        s \<leftarrow> on_sync (wait_current_set (p_write_queue (pipes s n)) w WT_IPC) s;
        Some (Suc rem, base, s) })"

text \<open>After \<^verbatim>\<open>schedule\<close>: a process woken by the pipe goes on, one woken otherwise leaves the loop; the flag says
  whether the operation is finished.\<close>

definition pipe_read_resume :: "iptr \<Rightarrow> nat \<Rightarrow> nat \<Rightarrow> nat \<Rightarrow> 'a pipe_state_scheme \<Rightarrow> (bool \<times> nat \<times> nat \<times> 'a pipe_state_scheme) option" where
  "pipe_read_resume n w rem base s = do {
     s \<leftarrow> on_sync (wait_current_del (p_read_queue (pipes s n)) w) s;
     if wakeup_flags (waits (ksync s) w) = WT_IPC
     then do { (rem, base, s) \<leftarrow> pipe_read_run n w rem base s; Some (rem = 0, rem, base, s) }
     else Some (True, rem, base, s) }"

definition pipe_write_resume :: "iptr \<Rightarrow> nat \<Rightarrow> nat \<Rightarrow> nat \<Rightarrow> 'a pipe_state_scheme \<Rightarrow> (bool \<times> nat \<times> nat \<times> 'a pipe_state_scheme) option" where
  "pipe_write_resume n w rem base s = do {
     s \<leftarrow> on_sync (wait_current_del (p_write_queue (pipes s n)) w) s;
     if wakeup_flags (waits (ksync s) w) = WT_IPC
     then do { (rem, base, s) \<leftarrow> pipe_write_run n w rem base s; Some (rem = 0, rem, base, s) }
     else Some (True, rem, base, s) }"

text \<open>The operations of the table; \<open>w\<close> is the wait structure on the stack of the caller. As for the other
  devices, a call that has to wait has no result within a step.\<close>

definition pipe_result :: "iobuf \<Rightarrow> nat \<Rightarrow> nat \<Rightarrow> int \<times> iobuf" where
  "pipe_result iob rem base = (int (io_resid iob - rem), iob\<lparr>io_base := base, io_resid := rem\<rparr>)"

definition pipe_read :: "nat \<Rightarrow> iptr \<Rightarrow> iobuf \<Rightarrow> 'a pipe_state_scheme \<Rightarrow> (int \<times> iobuf \<times> 'a pipe_state_scheme) option" where
  "pipe_read w n iob s = do {
     (rem, base, s) \<leftarrow> pipe_read_run n w (io_resid iob) (io_base iob) s;
     kassert (rem = 0);
     (let (ret, iob) = pipe_result iob rem base in Some (ret, iob, s)) }"

definition pipe_write :: "nat \<Rightarrow> iptr \<Rightarrow> iobuf \<Rightarrow> 'a pipe_state_scheme \<Rightarrow> (int \<times> iobuf \<times> 'a pipe_state_scheme) option" where
  "pipe_write w n iob s = do {
     (rem, base, s) \<leftarrow> pipe_write_run n w (io_resid iob) (io_base iob) s;
     kassert (rem = 0);
     (let (ret, iob) = pipe_result iob rem base in Some (ret, iob, s)) }"

definition pipe_close :: "iptr \<Rightarrow> 'a pipe_state_scheme \<Rightarrow> (int \<times> 'a pipe_state_scheme) option" where
  "pipe_close n s = Some (0, s)"

definition pipe_reclaim :: "iptr \<Rightarrow> 'a pipe_state_scheme \<Rightarrow> (int \<times> 'a pipe_state_scheme) option" where
  "pipe_reclaim n s = do { inode_kill n s; Some (0, s) }"

definition pipe_node_ops :: "nat \<Rightarrow> 'a pipe_state_scheme drv" where
  "pipe_node_ops w = \<lparr>op_open = \<lambda>_. None, op_close = \<lambda>n. Some (pipe_close n), op_read = \<lambda>n. Some (pipe_read w n),
     op_write = \<lambda>n. Some (pipe_write w n), op_fstat = \<lambda>_. None, op_fsync = \<lambda>_. None, op_getdirentry = \<lambda>_. None,
     op_reclaim = \<lambda>n. Some (pipe_reclaim n), op_gettype = \<lambda>_. None, op_tryseek = \<lambda>_. None, op_truncate = \<lambda>_. None,
     op_create = \<lambda>_. None, op_lookup = \<lambda>_. None, fs_get_root = \<lambda>_ _. None, fs_sync = \<lambda>_ _. None,
     fs_unmount = \<lambda>_ _. None, fs_cleanup = \<lambda>_ _. None\<rparr>"

text \<open>The arguments are the two blocks of \<^verbatim>\<open>kmalloc\<close>, for the buffer and the inode, and the two queues inside the
  inode.\<close>

definition pipe_create_inode ::
  "(nat \<Rightarrow> byte) option \<Rightarrow> iptr option \<Rightarrow> nat \<Rightarrow> nat \<Rightarrow> 'a pipe_state_scheme \<Rightarrow> iptr option \<times> 'a pipe_state_scheme" where
  "pipe_create_inode buffer blk q1 q2 s = (case (buffer, blk) of
       (Some b, Some n) \<Rightarrow>
         let s = inode_init n None s;
             s = upd_pipe n (\<lambda>p. p\<lparr>p_buffer := b, p_head := 0, p_tail := 0, p_read_queue := q1, p_write_queue := q2\<rparr>) s in
         (Some n, s\<lparr>ksync := wait_queue_init q2 (wait_queue_init q1 (ksync s))\<rparr>)
     | _ \<Rightarrow> (None, s))"

definition file_pipe ::
  "'a pipe_state_scheme drv \<Rightarrow> nat \<Rightarrow> (nat \<Rightarrow> byte) option \<Rightarrow> iptr option \<Rightarrow> nat \<Rightarrow> nat \<Rightarrow> 'a pipe_state_scheme \<Rightarrow> ((int + (int \<times> int)) \<times> 'a pipe_state_scheme) option" where
  "file_pipe D t buffer blk q1 q2 s = do {
     (a, s) \<leftarrow> fd_array_alloc t NO_FD s;
     case a of Inl e \<Rightarrow> Some (Inl e, s)
     | Inr i \<Rightarrow> do {
         (b, s) \<leftarrow> fd_array_alloc t NO_FD s;
         case b of Inl e \<Rightarrow> do { s \<leftarrow> fd_array_free D t i s; Some (Inl e, s) }
         | Inr j \<Rightarrow> (case pipe_create_inode buffer blk q1 q2 s of
             (None, s) \<Rightarrow> do { s \<leftarrow> fd_array_free D t i s; s \<leftarrow> fd_array_free D t j s; Some (Inl (err E_NO_MEM), s) }
           | (Some n, s) \<Rightarrow> do {
               let s = inode_open_inc n (inode_open_inc n (inode_ref_inc n s));
               let s = upd_file t i (\<lambda>x. x\<lparr>fpos := 0, fnode := Some n, readable := True, writable := False\<rparr>) s;
               s \<leftarrow> fd_array_open t i s;
               let s = upd_file t j (\<lambda>x. x\<lparr>fpos := 0, fnode := Some n, readable := False, writable := True\<rparr>) s;
               s \<leftarrow> fd_array_open t j s;
               Some (Inr (fd (entry t i s), fd (entry t j s)), s) }) } }"

subsection \<open>The bytes in a pipe\<close>

definition contents :: "pipe \<Rightarrow> byte list" where
  "contents p = map (\<lambda>i. p_buffer p ((p_head p + i) mod PIPE_BUFFER_SIZE)) [0 ..< (p_tail p + PIPE_BUFFER_SIZE - p_head p) mod PIPE_BUFFER_SIZE]"

definition ring_wf :: "pipe \<Rightarrow> bool" where
  "ring_wf p \<longleftrightarrow> p_head p < PIPE_BUFFER_SIZE \<and> p_tail p < PIPE_BUFFER_SIZE"

lemma ring_distance:
  fixes h t n :: nat
  assumes "h < n" "t < n"
  shows "(t + n - h) mod n = (if h \<le> t then t - h else t + n - h)" "(h + (t + n - h) mod n) mod n = t"
proof -
  have "(t + n - h) mod n = t - h" if "h \<le> t" using that assms by (metis Nat.add_diff_assoc2 less_imp_diff_less mod_add_self2 mod_less)
  then show "(t + n - h) mod n = (if h \<le> t then t - h else t + n - h)" using assms by auto
  then show "(h + (t + n - h) mod n) mod n = t" using assms by auto
qed

lemma contents_empty: "ring_wf p \<Longrightarrow> pipe_empty p \<longleftrightarrow> contents p = []"
  by (auto simp: ring_wf_def pipe_empty_def contents_def ring_distance)

lemma contents_full: assumes "ring_wf p" shows "pipe_full p \<longleftrightarrow> length (contents p) = PIPE_BUFFER_SIZE - 1"
proof -
  have ht: "p_head p < PIPE_BUFFER_SIZE" "p_tail p < PIPE_BUFFER_SIZE" using assms by (auto simp: ring_wf_def)
  then show ?thesis by (cases "p_tail p + 1 = PIPE_BUFFER_SIZE") (auto simp: pipe_full_def contents_def ring_distance(1)[OF ht])
qed

lemma contents_bound: "length (contents p) \<le> PIPE_BUFFER_SIZE - 1"
  by (simp add: contents_def PIPE_BUFFER_SIZE_def less_Suc_eq_le[symmetric])

lemma contents_put:
  assumes "ring_wf p" "\<not> pipe_full p"
  shows "contents (p\<lparr>p_buffer := (p_buffer p)(p_tail p := c), p_tail := (p_tail p + 1) mod PIPE_BUFFER_SIZE\<rparr>) = contents p @ [c]"
    "ring_wf (p\<lparr>p_buffer := (p_buffer p)(p_tail p := c), p_tail := (p_tail p + 1) mod PIPE_BUFFER_SIZE\<rparr>)"
proof -
  let ?n = PIPE_BUFFER_SIZE let ?h = "p_head p" let ?t = "p_tail p" let ?l = "(?t + ?n - ?h) mod ?n"
  have ht: "?h < ?n" "?t < ?n" using assms(1) by (auto simp: ring_wf_def)
  have t': "(?t + 1) mod ?n < ?n" by (simp add: PIPE_BUFFER_SIZE_def)
  have l: "((?t + 1) mod ?n + ?n - ?h) mod ?n = ?l + 1"
    using ht assms(2) ring_distance(1)[OF ht] ring_distance(1)[OF ht(1) t']
    by (cases "?t + 1 = ?n") (auto simp: pipe_full_def)
  have ne: "(?h + i) mod ?n \<noteq> ?t" if "i < ?l" for i
  proof -
    have "i < ?n" using that ht by (metis less_trans mod_less_divisor not_less_zero linorder_neqE_nat)
    then have "(?h + i) mod ?n = (if ?h + i < ?n then ?h + i else ?h + i - ?n)" using ht by (simp add: le_mod_geq)
    then show ?thesis using that ht \<open>i < ?n\<close> by (auto simp: ring_distance(1)[OF ht] split: if_splits)
  qed
  show "contents (p\<lparr>p_buffer := (p_buffer p)(?t := c), p_tail := (?t + 1) mod ?n\<rparr>) = contents p @ [c]"
    unfolding contents_def using l ne ring_distance(2)[OF ht] by simp
  show "ring_wf (p\<lparr>p_buffer := (p_buffer p)(?t := c), p_tail := (?t + 1) mod ?n\<rparr>)" using ht t' by (simp add: ring_wf_def)
qed

lemma contents_get:
  assumes "ring_wf p" "\<not> pipe_empty p"
  shows "contents p = p_buffer p (p_head p) # contents (p\<lparr>p_head := (p_head p + 1) mod PIPE_BUFFER_SIZE\<rparr>)"
    "ring_wf (p\<lparr>p_head := (p_head p + 1) mod PIPE_BUFFER_SIZE\<rparr>)"
proof -
  let ?n = PIPE_BUFFER_SIZE let ?h = "p_head p" let ?t = "p_tail p" let ?h' = "(p_head p + 1) mod PIPE_BUFFER_SIZE"
  have ht: "?h < ?n" "?t < ?n" using assms(1) by (auto simp: ring_wf_def)
  have h': "?h' < ?n" by (simp add: PIPE_BUFFER_SIZE_def)
  have l: "(?t + ?n - ?h) mod ?n = Suc ((?t + ?n - ?h') mod ?n)"
    using ht assms(2) ring_distance(1)[OF ht] ring_distance(1)[OF h' ht(2)]
    by (cases "?h + 1 = ?n") (auto simp: pipe_empty_def)
  have "(?h' + i) mod ?n = (?h + Suc i) mod ?n" for i by (simp add: mod_add_left_eq)
  then show "contents p = p_buffer p ?h # contents (p\<lparr>p_head := ?h'\<rparr>)"
    unfolding contents_def l using ht by (simp add: upt_conv_Cons map_Suc_upt[symmetric] del: upt_Suc)
  show "ring_wf (p\<lparr>p_head := ?h'\<rparr>)" using ht h' by (simp add: ring_wf_def)
qed

subsection \<open>The loops\<close>

text \<open>No reader waits while there are bytes, no writer while there is room.\<close>

definition pipe_ok :: "(nat \<Rightarrow> 32 word) \<Rightarrow> iptr \<Rightarrow> 'a pipe_state_scheme \<Rightarrow> bool" where
  "pipe_ok ty n s \<longleftrightarrow> (let p = pipes s n; k = ksync s in
     ring_wf p \<and> sync_ok ty k \<and> p_read_queue p \<noteq> p_write_queue p \<and> ty (p_read_queue p) = WT_IPC \<and> ty (p_write_queue p) = WT_IPC \<and>
     (wqs k (p_read_queue p) \<noteq> [] \<longrightarrow> pipe_empty p) \<and> (wqs k (p_write_queue p) \<noteq> [] \<longrightarrow> pipe_full p))"

text \<open>The running process can be queued on \<open>w\<close>.\<close>

definition can_wait :: "nat \<Rightarrow> sync \<Rightarrow> bool" where
  "can_wait w k \<longleftrightarrow> pstate (procs k (current k)) = PROC_RUNNABLE \<and> (\<forall>q. w \<notin> set (wqs k q))"

lemma pipe_wakeup_ok:
  assumes "sync_ok ty (ksync s)" "can_wait w (ksync s)"
  shows "\<exists>k. pipe_wakeup q s = Some (s\<lparr>ksync := k\<rparr>) \<and> sync_ok ty k \<and> wqs k = (wqs (ksync s))(q := []) \<and> can_wait w k \<and> current k = current (ksync s) \<and>
    (\<forall>v. v \<notin> set (wqs (ksync s) q) \<longrightarrow> waits k v = waits (ksync s) v) \<and>
    (\<forall>p. pstate (procs (ksync s) p) = PROC_RUNNABLE \<longrightarrow> pstate (procs k p) = PROC_RUNNABLE) \<and>
    (\<forall>v \<in> set (wqs (ksync s) q). \<not> wait_linked (waits k v) \<and> wakeup_flags (waits k v) = WT_IPC \<and>
       (\<exists>p. wproc (waits (ksync s) v) = Some p \<and> pstate (procs k p) = PROC_RUNNABLE))"
proof (cases "wqs (ksync s) q = []")
  case True
  then show ?thesis using assms by (intro exI[of _ "ksync s"]) (simp add: pipe_wakeup_def wait_queue_empty_def fun_upd_idem)
next
  case False
  obtain k where k: "wakeup_del_loop q WT_IPC (ksync s) = Some k" "sync_ok ty k" "wqs k = (wqs (ksync s))(q := [])" "current k = current (ksync s)"
    "\<forall>x. core (procs k x) = core (if Some x \<in> (\<lambda>w. wproc (waits (ksync s) w)) ` set (wqs (ksync s) q) then woken (procs (ksync s) x) else procs (ksync s) x)"
    "\<forall>v. waits k v = (if v \<in> set (wqs (ksync s) q) then (waits (ksync s) v)\<lparr>wait_linked := False, wakeup_flags := WT_IPC\<rparr> else waits (ksync s) v)"
    using wakeup_del_loop_ok[OF assms(1), of q WT_IPC] by blast
  have st: "pstate (procs k x) = (if Some x \<in> (\<lambda>w. wproc (waits (ksync s) w)) ` set (wqs (ksync s) q) then PROC_RUNNABLE else pstate (procs (ksync s) x))" for x
    using core_eqD(1)[OF k(5)[rule_format, of x]] by (simp add: woken_def)
  have "\<exists>p. wproc (waits (ksync s) v) = Some p \<and> pstate (procs k p) = PROC_RUNNABLE" if m: "v \<in> set (wqs (ksync s) q)" for v
  proof -
    obtain p where p: "wproc (waits (ksync s) v) = Some p" using wq_okD(4)[of ty "ksync s" v q] assms(1) m by (auto simp: sync_ok_def)
    then have "pstate (procs k p) = PROC_RUNNABLE" using m unfolding st by (simp add: image_iff) metis
    then show ?thesis using p by blast
  qed
  moreover have "can_wait w k" using assms(2) st by (auto simp: can_wait_def k(3,4))
  ultimately show ?thesis using k False st
    by (intro exI[of _ k]) (simp add: pipe_wakeup_def wait_queue_empty_def on_sync_def wakeup_queue_def)
qed

lemma pipe_wait_ok:
  assumes "sync_ok ty (ksync s)" "can_wait w (ksync s)" "ty q = WT_IPC"
  shows "\<exists>k. on_sync (wait_current_set q w WT_IPC) s = Some (s\<lparr>ksync := k\<rparr>) \<and> sync_ok ty k \<and>
    wqs k = (wqs (ksync s))(q := wqs (ksync s) q @ [w]) \<and> pstate (procs k (current k)) = PROC_SLEEPING \<and> current k = current (ksync s) \<and>
    (\<forall>v. v \<noteq> w \<longrightarrow> waits k v = waits (ksync s) v) \<and> (\<forall>p. p \<noteq> current k \<longrightarrow> procs k p = procs (ksync s) p)"
proof -
  obtain k where k: "wait_current_set q w WT_IPC (ksync s) = Some k" "sync_ok ty k" "current k = current (ksync s)"
    "procs k = (procs (ksync s))(current (ksync s) := (procs (ksync s) (current (ksync s)))\<lparr>pstate := PROC_SLEEPING, wait_state := WT_IPC\<rparr>)"
    "wqs k = (wqs (ksync s))(q := wqs (ksync s) q @ [w])"
    "waits k = (waits (ksync s))(w := (waits (ksync s) w)\<lparr>wproc := Some (current (ksync s)), wakeup_flags := WT_INTERRUPTED, wait_queue := q, wait_linked := True\<rparr>)"
    using wait_current_set_ok[of ty "ksync s" q WT_IPC w] assms by (auto simp: can_wait_def)
  then show ?thesis by (intro exI[of _ k]) (simp add: on_sync_def)
qed

text \<open>What a run leaves alone, and whether the process sleeps.\<close>

definition run_frame :: "iptr \<Rightarrow> nat \<Rightarrow> nat \<Rightarrow> nat \<Rightarrow> 'a pipe_state_scheme \<Rightarrow> 'a pipe_state_scheme \<Rightarrow> bool" where
  "run_frame n w q rem s s' \<longleftrightarrow> inodes s' = inodes s \<and> tables s' = tables s \<and> (\<forall>m. m \<noteq> n \<longrightarrow> pipes s' m = pipes s m) \<and>
     p_read_queue (pipes s' n) = p_read_queue (pipes s n) \<and> p_write_queue (pipes s' n) = p_write_queue (pipes s n) \<and>
     current (ksync s') = current (ksync s) \<and> (\<forall>r. set (wqs (ksync s') r) \<subseteq> insert w (set (wqs (ksync s) r))) \<and>
     (\<forall>v. v \<noteq> w \<and> (\<forall>r. v \<notin> set (wqs (ksync s) r)) \<longrightarrow> waits (ksync s') v = waits (ksync s) v) \<and>
     (\<forall>p. p \<noteq> current (ksync s) \<and> pstate (procs (ksync s) p) = PROC_RUNNABLE \<longrightarrow> pstate (procs (ksync s') p) = PROC_RUNNABLE) \<and>
     (if rem = 0 then can_wait w (ksync s') else w \<in> set (wqs (ksync s') q) \<and> pstate (procs (ksync s') (current (ksync s))) = PROC_SLEEPING)"

lemma run_frame_trans:
  assumes a: "run_frame n w q 0 s s1" and b: "run_frame n w q rem s1 s2"
  shows "run_frame n w q rem s s2"
proof -
  have sub: "set (wqs (ksync s1) r) \<subseteq> insert w (set (wqs (ksync s) r))" "set (wqs (ksync s2) r) \<subseteq> insert w (set (wqs (ksync s1) r))" for r
    using a b by (simp_all add: run_frame_def)
  have "waits (ksync s2) v = waits (ksync s) v" if "v \<noteq> w" "\<forall>r. v \<notin> set (wqs (ksync s) r)" for v
  proof -
    have "\<forall>r. v \<notin> set (wqs (ksync s1) r)" using that sub(1) by blast
    then show ?thesis using a b that by (simp add: run_frame_def)
  qed
  moreover have "set (wqs (ksync s2) r) \<subseteq> insert w (set (wqs (ksync s) r))" for r using sub[of r] by blast
  ultimately show ?thesis using a b by (cases "rem = 0") (simp_all add: run_frame_def)
qed

text \<open>Every process that waited on \<open>q\<close> is woken by the pipe.\<close>

definition all_woken :: "nat \<Rightarrow> sync \<Rightarrow> sync \<Rightarrow> bool" where
  "all_woken q k k' \<longleftrightarrow> (\<forall>v \<in> set (wqs k q). \<not> wait_linked (waits k' v) \<and> wakeup_flags (waits k' v) = WT_IPC \<and>
     (\<exists>p. wproc (waits k v) = Some p \<and> pstate (procs k' p) = PROC_RUNNABLE))"

lemma all_woken_frame:
  assumes "sync_ok ty (ksync s)" "can_wait w (ksync s)" "all_woken r (ksync s) (ksync s1)" "wqs (ksync s1) = (wqs (ksync s))(r := [])"
    "current (ksync s1) = current (ksync s)" "run_frame n w q rem s1 s2"
  shows "all_woken r (ksync s) (ksync s2)"
  unfolding all_woken_def
proof (intro ballI)
  fix v assume v: "v \<in> set (wqs (ksync s) r)"
  have wq: "wq_ok ty (ksync s)" using assms(1) by (simp add: sync_ok_def)
  have nq: "v \<noteq> w" "\<forall>r'. v \<notin> set (wqs (ksync s1) r')"
    using v assms(2) wq_okD(3)[OF wq v] by (auto simp: can_wait_def assms(4) dest: wq_okD(3)[OF wq])
  obtain p where p: "wproc (waits (ksync s) v) = Some p" "pstate (procs (ksync s1) p) = PROC_RUNNABLE" "pstate (procs (ksync s) p) = PROC_SLEEPING"
    using assms(3) v wq_okD(4)[OF wq v] by (auto simp: all_woken_def)
  then have "p \<noteq> current (ksync s1)" using assms(2,5) by (auto simp: can_wait_def)
  then show "\<not> wait_linked (waits (ksync s2) v) \<and> wakeup_flags (waits (ksync s2) v) = WT_IPC \<and>
      (\<exists>p. wproc (waits (ksync s) v) = Some p \<and> pstate (procs (ksync s2) p) = PROC_RUNNABLE)"
    using assms(3,6) v nq p by (auto simp: all_woken_def run_frame_def)
qed

lemma write_byte:
  assumes ok: "pipe_ok ty n s" and w: "can_wait w (ksync s)" and nf: "\<not> pipe_full (pipes s n)"
  shows "\<exists>s1. pipe_write_run n w (Suc rem) base s = pipe_write_run n w rem (base + 1) s1 \<and> pipe_ok ty n s1 \<and> can_wait w (ksync s1) \<and>
    contents (pipes s1 n) = contents (pipes s n) @ [fmem s base] \<and> fmem s1 = fmem s \<and> run_frame n w q 0 s s1 \<and>
    all_woken (p_read_queue (pipes s n)) (ksync s) (ksync s1) \<and> wqs (ksync s1) = (wqs (ksync s))(p_read_queue (pipes s n) := [])"
proof -
  let ?p = "pipes s n"
  define s0 where "s0 = upd_pipe n (\<lambda>p. p\<lparr>p_buffer := (p_buffer p)(p_tail p := fmem s base)\<rparr>) s"
  have s0: "ksync s0 = ksync s" by (simp add: s0_def upd_pipe_def)
  have f: "ring_wf ?p" "sync_ok ty (ksync s)" "wqs (ksync s) (p_write_queue ?p) = []" "p_read_queue ?p \<noteq> p_write_queue ?p"
    using ok nf by (auto simp: pipe_ok_def Let_def)
  obtain k where k: "pipe_wakeup (p_read_queue ?p) s0 = Some (s0\<lparr>ksync := k\<rparr>)" "sync_ok ty k" "wqs k = (wqs (ksync s))(p_read_queue ?p := [])"
    "can_wait w k" "current k = current (ksync s)" "\<forall>v. v \<notin> set (wqs (ksync s) (p_read_queue ?p)) \<longrightarrow> waits k v = waits (ksync s) v"
    "\<forall>p. pstate (procs (ksync s) p) = PROC_RUNNABLE \<longrightarrow> pstate (procs k p) = PROC_RUNNABLE" "all_woken (p_read_queue ?p) (ksync s) k"
    unfolding all_woken_def using pipe_wakeup_ok[of ty s0 w "p_read_queue ?p"] f(2) w by (auto simp: s0)
  define p1 where "p1 = ?p\<lparr>p_buffer := (p_buffer ?p)(p_tail ?p := fmem s base), p_tail := (p_tail ?p + 1) mod PIPE_BUFFER_SIZE\<rparr>"
  define s1 where "s1 = s\<lparr>ksync := k, pipes := (pipes s)(n := p1)\<rparr>"
  have "pipe_write_run n w (Suc rem) base s = pipe_write_run n w rem (base + 1) s1"
    using nf k(1) by (simp add: s0_def[symmetric]) (simp add: s0_def s1_def p1_def upd_pipe_def)
  moreover have "pipe_ok ty n s1" using ok f k(2,3) contents_put(2)[OF f(1) nf] by (simp add: pipe_ok_def Let_def s1_def p1_def)
  ultimately show ?thesis using k contents_put(1)[OF f(1) nf] by (intro exI[of _ s1]) (auto simp: s1_def p1_def run_frame_def)
qed

lemma read_byte:
  assumes ok: "pipe_ok ty n s" and w: "can_wait w (ksync s)" and ne: "\<not> pipe_empty (pipes s n)"
  shows "\<exists>s1. pipe_read_run n w (Suc rem) base s = pipe_read_run n w rem (base + 1) s1 \<and> pipe_ok ty n s1 \<and> can_wait w (ksync s1) \<and>
    (\<exists>c. contents (pipes s n) = c # contents (pipes s1 n) \<and> fmem s1 = (fmem s)(base := c)) \<and> run_frame n w q 0 s s1 \<and>
    all_woken (p_write_queue (pipes s n)) (ksync s) (ksync s1) \<and> wqs (ksync s1) = (wqs (ksync s))(p_write_queue (pipes s n) := [])"
proof -
  let ?p = "pipes s n" let ?c = "p_buffer (pipes s n) (p_head (pipes s n))"
  define s0 where "s0 = s\<lparr>fmem := (fmem s)(base := ?c)\<rparr>"
  have s0: "ksync s0 = ksync s" by (simp add: s0_def)
  have f: "ring_wf ?p" "sync_ok ty (ksync s)" "wqs (ksync s) (p_read_queue ?p) = []" "p_read_queue ?p \<noteq> p_write_queue ?p"
    using ok ne by (auto simp: pipe_ok_def Let_def)
  obtain k where k: "pipe_wakeup (p_write_queue ?p) s0 = Some (s0\<lparr>ksync := k\<rparr>)" "sync_ok ty k" "wqs k = (wqs (ksync s))(p_write_queue ?p := [])"
    "can_wait w k" "current k = current (ksync s)" "\<forall>v. v \<notin> set (wqs (ksync s) (p_write_queue ?p)) \<longrightarrow> waits k v = waits (ksync s) v"
    "\<forall>p. pstate (procs (ksync s) p) = PROC_RUNNABLE \<longrightarrow> pstate (procs k p) = PROC_RUNNABLE" "all_woken (p_write_queue ?p) (ksync s) k"
    unfolding all_woken_def using pipe_wakeup_ok[of ty s0 w "p_write_queue ?p"] f(2) w by (auto simp: s0)
  define p1 where "p1 = ?p\<lparr>p_head := (p_head ?p + 1) mod PIPE_BUFFER_SIZE\<rparr>"
  define s1 where "s1 = s\<lparr>fmem := (fmem s)(base := ?c), ksync := k, pipes := (pipes s)(n := p1)\<rparr>"
  have "pipe_read_run n w (Suc rem) base s = pipe_read_run n w rem (base + 1) s1"
    using ne k(1) by (simp add: s0_def[symmetric]) (simp add: s0_def s1_def p1_def upd_pipe_def)
  moreover have "pipe_ok ty n s1" using ok f k(2,3) contents_get(2)[OF f(1) ne] by (simp add: pipe_ok_def Let_def s1_def p1_def)
  ultimately show ?thesis using k contents_get(1)[OF f(1) ne] by (intro exI[of _ s1]) (auto simp: s1_def p1_def run_frame_def)
qed

lemma write_run_ok:
  assumes "pipe_ok ty n s" "can_wait w (ksync s)"
  shows "\<exists>k s'. pipe_write_run n w rem base s = Some (rem - k, base + k, s') \<and> k = min rem (PIPE_BUFFER_SIZE - 1 - length (contents (pipes s n))) \<and>
    pipe_ok ty n s' \<and> contents (pipes s' n) = contents (pipes s n) @ map (fmem s) [base ..< base + k] \<and> fmem s' = fmem s \<and>
    run_frame n w (p_write_queue (pipes s n)) (rem - k) s s' \<and> (0 < k \<longrightarrow> all_woken (p_read_queue (pipes s n)) (ksync s) (ksync s'))"
  using assms
proof (induction rem arbitrary: base s)
  case 0
  then show ?case by (intro exI[of _ 0] exI[of _ s]) (auto simp: run_frame_def)
next
  case (Suc rem)
  have wf: "ring_wf (pipes s n)" and so: "sync_ok ty (ksync s)" "ty (p_write_queue (pipes s n)) = WT_IPC"
    using Suc.prems by (auto simp: pipe_ok_def Let_def)
  show ?case
  proof (cases "pipe_full (pipes s n)")
    case True
    then have full: "length (contents (pipes s n)) = PIPE_BUFFER_SIZE - 1" using contents_full[OF wf] by simp
    obtain k where k: "on_sync (wait_current_set (p_write_queue (pipes s n)) w WT_IPC) s = Some (s\<lparr>ksync := k\<rparr>)" "sync_ok ty k"
      "wqs k = (wqs (ksync s))(p_write_queue (pipes s n) := wqs (ksync s) (p_write_queue (pipes s n)) @ [w])"
      "pstate (procs k (current k)) = PROC_SLEEPING" "current k = current (ksync s)"
      "\<forall>v. v \<noteq> w \<longrightarrow> waits k v = waits (ksync s) v" "\<forall>p. p \<noteq> current k \<longrightarrow> procs k p = procs (ksync s) p"
      using pipe_wait_ok[OF so(1) Suc.prems(2) so(2)] by blast
    have "pipe_ok ty n (s\<lparr>ksync := k\<rparr>)" using Suc.prems(1) k(2,3) True by (auto simp: pipe_ok_def Let_def)
    then show ?thesis using True k full by (intro exI[of _ 0] exI[of _ "s\<lparr>ksync := k\<rparr>"]) (auto simp: run_frame_def)
  next
    case False
    then have room: "length (contents (pipes s n)) < PIPE_BUFFER_SIZE - 1" using contents_full[OF wf] contents_bound[of "pipes s n"] by linarith
    obtain s1 where s1: "pipe_write_run n w (Suc rem) base s = pipe_write_run n w rem (base + 1) s1" "pipe_ok ty n s1" "can_wait w (ksync s1)"
      "contents (pipes s1 n) = contents (pipes s n) @ [fmem s base]" "fmem s1 = fmem s" "run_frame n w (p_write_queue (pipes s n)) 0 s s1"
      "all_woken (p_read_queue (pipes s n)) (ksync s) (ksync s1)" "wqs (ksync s1) = (wqs (ksync s))(p_read_queue (pipes s n) := [])"
      using write_byte[OF Suc.prems False, of rem base "p_write_queue (pipes s n)"] by blast
    obtain k s2 where s2: "pipe_write_run n w rem (base + 1) s1 = Some (rem - k, base + 1 + k, s2)"
      "k = min rem (PIPE_BUFFER_SIZE - 1 - length (contents (pipes s1 n)))" "pipe_ok ty n s2"
      "contents (pipes s2 n) = contents (pipes s1 n) @ map (fmem s1) [base + 1 ..< base + 1 + k]" "fmem s2 = fmem s1"
      "run_frame n w (p_write_queue (pipes s1 n)) (rem - k) s1 s2" using Suc.IH[OF s1(2,3), of "base + 1"] by blast
    have q: "p_write_queue (pipes s1 n) = p_write_queue (pipes s n)" "current (ksync s1) = current (ksync s)" using s1(6) by (simp_all add: run_frame_def)
    have "run_frame n w (p_write_queue (pipes s n)) (Suc rem - Suc k) s s2" using run_frame_trans[OF s1(6)] s2(6) q(1) by simp
    moreover have "all_woken (p_read_queue (pipes s n)) (ksync s) (ksync s2)"
      by (rule all_woken_frame[OF so(1) Suc.prems(2) s1(7,8) q(2) s2(6)])
    moreover have "[base ..< base + Suc k] = base # [base + 1 ..< base + 1 + k]" by (simp add: upt_conv_Cons del: upt_Suc)
    then have "contents (pipes s2 n) = contents (pipes s n) @ map (fmem s) [base ..< base + Suc k]" using s1(4,5) s2(4) by simp
    moreover have "Suc k = min (Suc rem) (PIPE_BUFFER_SIZE - 1 - length (contents (pipes s n)))" using s2(2) room s1(4) by auto
    moreover have "pipe_write_run n w (Suc rem) base s = Some (Suc rem - Suc k, base + Suc k, s2)" using s1(1) s2(1) by simp
    moreover have "fmem s2 = fmem s" using s1(5) s2(5) by simp
    ultimately show ?thesis using s2(3) by blast
  qed
qed

lemma read_run_ok:
  assumes "pipe_ok ty n s" "can_wait w (ksync s)"
  shows "\<exists>k s'. pipe_read_run n w rem base s = Some (rem - k, base + k, s') \<and> k = min rem (length (contents (pipes s n))) \<and>
    pipe_ok ty n s' \<and> contents (pipes s n) = map (fmem s') [base ..< base + k] @ contents (pipes s' n) \<and>
    (\<forall>a. a < base \<or> base + k \<le> a \<longrightarrow> fmem s' a = fmem s a) \<and>
    run_frame n w (p_read_queue (pipes s n)) (rem - k) s s' \<and> (0 < k \<longrightarrow> all_woken (p_write_queue (pipes s n)) (ksync s) (ksync s'))"
  using assms
proof (induction rem arbitrary: base s)
  case 0
  then show ?case by (intro exI[of _ 0] exI[of _ s]) (auto simp: run_frame_def)
next
  case (Suc rem)
  have wf: "ring_wf (pipes s n)" and so: "sync_ok ty (ksync s)" "ty (p_read_queue (pipes s n)) = WT_IPC"
    using Suc.prems by (auto simp: pipe_ok_def Let_def)
  show ?case
  proof (cases "pipe_empty (pipes s n)")
    case True
    then have emp: "contents (pipes s n) = []" using contents_empty[OF wf] by simp
    obtain k where k: "on_sync (wait_current_set (p_read_queue (pipes s n)) w WT_IPC) s = Some (s\<lparr>ksync := k\<rparr>)" "sync_ok ty k"
      "wqs k = (wqs (ksync s))(p_read_queue (pipes s n) := wqs (ksync s) (p_read_queue (pipes s n)) @ [w])"
      "pstate (procs k (current k)) = PROC_SLEEPING" "current k = current (ksync s)"
      "\<forall>v. v \<noteq> w \<longrightarrow> waits k v = waits (ksync s) v" "\<forall>p. p \<noteq> current k \<longrightarrow> procs k p = procs (ksync s) p"
      using pipe_wait_ok[OF so(1) Suc.prems(2) so(2)] by blast
    have "pipe_ok ty n (s\<lparr>ksync := k\<rparr>)" using Suc.prems(1) k(2,3) True by (auto simp: pipe_ok_def Let_def)
    then show ?thesis using True k emp by (intro exI[of _ 0] exI[of _ "s\<lparr>ksync := k\<rparr>"]) (auto simp: run_frame_def)
  next
    case False
    obtain s1 c where s1: "pipe_read_run n w (Suc rem) base s = pipe_read_run n w rem (base + 1) s1" "pipe_ok ty n s1" "can_wait w (ksync s1)"
      "contents (pipes s n) = c # contents (pipes s1 n)" "fmem s1 = (fmem s)(base := c)" "run_frame n w (p_read_queue (pipes s n)) 0 s s1"
      "all_woken (p_write_queue (pipes s n)) (ksync s) (ksync s1)" "wqs (ksync s1) = (wqs (ksync s))(p_write_queue (pipes s n) := [])"
      using read_byte[OF Suc.prems False, of rem base "p_read_queue (pipes s n)"] by blast
    obtain k s2 where s2: "pipe_read_run n w rem (base + 1) s1 = Some (rem - k, base + 1 + k, s2)"
      "k = min rem (length (contents (pipes s1 n)))" "pipe_ok ty n s2"
      "contents (pipes s1 n) = map (fmem s2) [base + 1 ..< base + 1 + k] @ contents (pipes s2 n)"
      "\<forall>a. a < base + 1 \<or> base + 1 + k \<le> a \<longrightarrow> fmem s2 a = fmem s1 a"
      "run_frame n w (p_read_queue (pipes s1 n)) (rem - k) s1 s2" using Suc.IH[OF s1(2,3), of "base + 1"] by blast
    have q: "p_read_queue (pipes s1 n) = p_read_queue (pipes s n)" "current (ksync s1) = current (ksync s)" using s1(6) by (simp_all add: run_frame_def)
    have "run_frame n w (p_read_queue (pipes s n)) (Suc rem - Suc k) s s2" using run_frame_trans[OF s1(6)] s2(6) q(1) by simp
    moreover have "all_woken (p_write_queue (pipes s n)) (ksync s) (ksync s2)"
      by (rule all_woken_frame[OF so(1) Suc.prems(2) s1(7,8) q(2) s2(6)])
    moreover have "[base ..< base + Suc k] = base # [base + 1 ..< base + 1 + k]" "fmem s2 base = c"
      using s2(5) s1(5) by (simp_all add: upt_conv_Cons del: upt_Suc)
    then have "contents (pipes s n) = map (fmem s2) [base ..< base + Suc k] @ contents (pipes s2 n)" using s1(4) s2(4) by simp
    moreover have "Suc k = min (Suc rem) (length (contents (pipes s n)))" using s2(2) s1(4) by simp
    moreover have "pipe_read_run n w (Suc rem) base s = Some (Suc rem - Suc k, base + Suc k, s2)" using s1(1) s2(1) by simp
    moreover have "\<forall>a. a < base \<or> base + Suc k \<le> a \<longrightarrow> fmem s2 a = fmem s a" using s2(5) s1(5) by auto
    ultimately show ?thesis using s2(3) by blast
  qed
qed

text \<open>C32: A pipe is a first-in first-out channel of 4095 bytes. From a consistent state neither loop panics. A
  write appends the caller's bytes, as many as there is room for; a read takes bytes from the front, as many as
  there are, and stores them in the caller's buffer and nowhere else; the caller sleeps in the queue of its side
  exactly if bytes are left. Whoever moves at least one byte wakes every process waiting on the other side, whose
  wait then ends with \<open>WT_IPC\<close>. The consistent states are kept: no reader waits for a pipe that has bytes, no writer
  for one that has room. Other pipes are not affected.\<close>

theorem pipe_channel:
  assumes "pipe_ok ty n s" "can_wait w (ksync s)"
  shows "(\<exists>k s'. pipe_write_run n w rem base s = Some (rem - k, base + k, s') \<and> k = min rem (PIPE_BUFFER_SIZE - 1 - length (contents (pipes s n))) \<and>
      pipe_ok ty n s' \<and> contents (pipes s' n) = contents (pipes s n) @ map (fmem s) [base ..< base + k] \<and> fmem s' = fmem s \<and>
      run_frame n w (p_write_queue (pipes s n)) (rem - k) s s' \<and> (0 < k \<longrightarrow> all_woken (p_read_queue (pipes s n)) (ksync s) (ksync s'))) \<and>
    (\<exists>k s'. pipe_read_run n w rem base s = Some (rem - k, base + k, s') \<and> k = min rem (length (contents (pipes s n))) \<and>
      pipe_ok ty n s' \<and> contents (pipes s n) = map (fmem s') [base ..< base + k] @ contents (pipes s' n) \<and>
      (\<forall>a. a < base \<or> base + k \<le> a \<longrightarrow> fmem s' a = fmem s a) \<and>
      run_frame n w (p_read_queue (pipes s n)) (rem - k) s s' \<and> (0 < k \<longrightarrow> all_woken (p_write_queue (pipes s n)) (ksync s) (ksync s')))"
  using write_run_ok[OF assms] read_run_ok[OF assms] by blast

subsection \<open>Pipes as a driver\<close>

interpretation pip: inode_driver "pipe_node_ops w" "\<lambda>_. True"
  by unfold_locales
    (auto simp: pipe_node_ops_def pipe_close_def pipe_reclaim_def keeps_def inode_kill_def inode_check_def)

text \<open>A new pipe, over queues 1 and 2.\<close>

definition sample_pipe :: pipe_state where
  "sample_pipe = \<lparr>fmem = \<lambda>a. of_nat a, inodes = \<lambda>n. \<lparr>ref_count = 2, open_count = 2, in_fs = None\<rparr>,
     tables = \<lambda>t. \<lparr>pwd = None, fd_array = [], files_count = 0\<rparr>, bootfs_node = None, vdev_list = [], ksync = sample_sync,
     pipes = \<lambda>_. \<lparr>p_head = 0, p_tail = 0, p_read_queue = 1, p_write_queue = 2, p_buffer = \<lambda>_. 0\<rparr>\<rparr>"

lemma sample_pipe_ok: "pipe_ok (\<lambda>q. if q = 0 then WT_KSEM else WT_IPC) 0 sample_pipe" "can_wait 9 (ksync sample_pipe)"
  "contents (pipes sample_pipe 0) = []" "p_read_queue (pipes sample_pipe 0) = 1" "p_write_queue (pipes sample_pipe 0) = 2"
  using sample_sync_ok by (auto simp: pipe_ok_def Let_def sample_pipe_def ring_wf_def PIPE_BUFFER_SIZE_def sync_ok_def wq_ok_def can_wait_def
    contents_def sample_kprocs_def sample_procs_def blank_proc_def split: if_splits)

theorem pipe_channel_witness:
  "pipe_ok (\<lambda>q. if q = 0 then WT_KSEM else WT_IPC) 0 sample_pipe \<and> can_wait 9 (ksync sample_pipe) \<and>
   (\<exists>s'. pipe_write_run 0 9 3 100 sample_pipe = Some (0, 103, s') \<and> contents (pipes s' 0) = [100, 101, 102]) \<and>
   (\<exists>s'. pipe_read_run 0 9 3 100 sample_pipe = Some (3, 100, s') \<and> 9 \<in> set (wqs (ksync s') 1))"
proof -
  have "map (fmem sample_pipe) [100 ..< 103] = [100, 101, 102]" by (simp add: sample_pipe_def upt_rec)
  then show ?thesis
    using pipe_channel[OF sample_pipe_ok(1,2), of 3 100] sample_pipe_ok
    by (auto simp: PIPE_BUFFER_SIZE_def run_frame_def)
qed

end
