(* ===== verification/Sysfile.thy ===== *)
theory Sysfile
  imports Vmm Devices Pipe
begin

text \<open>
  The system calls on files, \<^verbatim>\<open>src/kern/fs/sysfile.c\<close>, with \<^verbatim>\<open>copy_from_user\<close> and \<^verbatim>\<open>copy_to_user\<close> of
  \<^verbatim>\<open>src/kern/mm/vmm.c\<close>: they join the open files (theory \<open>File_Table\<close>) with the checks of user addresses (theory
  \<open>Vmm\<close>). Kernel and user addresses are numbers in one byte memory, \<open>fmem\<close>. The arguments \<open>t\<close> and \<open>mo\<close> are \<^verbatim>\<open>filesp\<close> and
  \<^verbatim>\<open>mm\<close> of the running process, and what \<^verbatim>\<open>kmalloc\<close> returns is an argument. \<^verbatim>\<open>sysfile_getcwd\<close> is left out with
  \<^verbatim>\<open>vfs_getcwd\<close>.

  The locale \<open>confined_driver\<close> is what these calls rely on: a driver writes no user memory, only the buffer it is given
  and its own. Then the calls write user memory only where the process may write. The devices satisfy it.
\<close>

unbundle bit_operations_syntax

subsection \<open>User memory\<close>

definition copy_from_user ::
  "mm option \<Rightarrow> nat \<Rightarrow> 64 word \<Rightarrow> nat \<Rightarrow> bool \<Rightarrow> bmem \<Rightarrow> bool \<times> mm option \<times> bmem" where
  "copy_from_user mo dst src len w m = (case user_mem_check mo src (of_nat len) w of
     (ok, mo) \<Rightarrow> if \<not> ok then (False, mo, m) else (True, mo, memcpy dst (unat src) len m))"

definition copy_to_user :: "mm option \<Rightarrow> 64 word \<Rightarrow> nat \<Rightarrow> nat \<Rightarrow> bmem \<Rightarrow> bool \<times> mm option \<times> bmem" where
  "copy_to_user mo dst src len m = (case user_mem_check mo dst (of_nat len) True of
     (ok, mo) \<Rightarrow> if \<not> ok then (False, mo, m) else (True, mo, memcpy (unat dst) src len m))"

text \<open>Little-endian numbers of \<open>n\<close> bytes in memory.\<close>

fun put_le :: "nat \<Rightarrow> nat \<Rightarrow> nat \<Rightarrow> bmem \<Rightarrow> bmem" where
  "put_le 0 a v m = m"
| "put_le (Suc n) a v m = put_le n (a + 1) (v div 256) (m(a := of_nat v))"

fun get_le :: "nat \<Rightarrow> nat \<Rightarrow> bmem \<Rightarrow> nat" where
  "get_le 0 a m = 0"
| "get_le (Suc n) a m = unat (m a) + 256 * get_le n (a + 1) m"

subsection \<open>The system calls\<close>

definition IOBUF_SIZE :: nat where "IOBUF_SIZE = 4096"
definition FS_MAX_FPATH_LEN :: nat where "FS_MAX_FPATH_LEN = 4095"
definition FS_MAX_FNAME_LEN :: nat where "FS_MAX_FNAME_LEN = 255"

text \<open>A \<^verbatim>\<open>size_t\<close> returned as \<^verbatim>\<open>int\<close>.\<close>

definition int_of_size :: "nat \<Rightarrow> int" where "int_of_size n = sint (of_nat n :: 32 word)"

text \<open>The path that was copied, without its NUL.\<close>

definition copy_path :: "nat option \<Rightarrow> mm option \<Rightarrow> 64 word \<Rightarrow> bmem \<Rightarrow> (int \<times> string \<times> mm option) option" where
  "copy_path blk mo from m = (case blk of None \<Rightarrow> Some (err E_NO_MEM, [], mo)
     | Some buffer \<Rightarrow> do {
         (ok, bytes, mo) \<leftarrow> copy_string (\<lambda>a. m (unat a)) mo from (FS_MAX_FPATH_LEN + 1);
         Some (if ok then (0, map (\<lambda>b. char_of (unat b)) (butlast bytes), mo) else (err E_INVAL, [], mo)) })"

definition sysfile_open ::
  "'a fs_state_scheme drv \<Rightarrow> nat \<Rightarrow> nat option \<Rightarrow> mm option \<Rightarrow> 64 word \<Rightarrow> 32 word \<Rightarrow> 'a fs_state_scheme \<Rightarrow> (int \<times> mm option \<times> 'a fs_state_scheme) option" where
  "sysfile_open D t blk mo upath open_flags s = do {
     (ret, kpath, mo) \<leftarrow> copy_path blk mo upath (fmem s);
     if ret \<noteq> 0 then Some (ret, mo, s)
     else do { (ret, s) \<leftarrow> file_open D t kpath open_flags s; Some (ret, mo, s) } }"

definition sysfile_close :: "'a fs_state_scheme drv \<Rightarrow> nat \<Rightarrow> int \<Rightarrow> 'a fs_state_scheme \<Rightarrow> (int \<times> 'a fs_state_scheme) option" where
  "sysfile_close D t i s = file_close D t i s"

text \<open>The loop of \<^verbatim>\<open>sysfile_read\<close>; \<open>len\<close> bytes are left, and the results are \<^verbatim>\<open>ret\<close> and \<^verbatim>\<open>copied\<close> at its end.\<close>

partial_function (option) sysfile_read_loop ::
  "'a fs_state_scheme drv \<Rightarrow> nat \<Rightarrow> nat \<Rightarrow> int \<Rightarrow> mm option \<Rightarrow> 64 word \<Rightarrow> nat \<Rightarrow> nat \<Rightarrow> 'a fs_state_scheme \<Rightarrow>
   (int \<times> nat \<times> mm option \<times> 'a fs_state_scheme) option" where
  "sysfile_read_loop D t buffer i mo base len copied s =
     (if len = 0 then Some (0, copied, mo, s)
      else do {
        (ret, alen, s) \<leftarrow> file_read D t i buffer (if IOBUF_SIZE > len then len else IOBUF_SIZE) s;
        if alen = 0 then Some (ret, copied, mo, s)
        else (case copy_to_user mo base buffer alen (fmem s) of (ok, mo, m) \<Rightarrow>
          let s = s\<lparr>fmem := m\<rparr> in
          if \<not> ok then Some (if ret = 0 then err E_INVAL else ret, copied, mo, s)
          else do {
            kassert (len \<ge> alen);
            if ret \<noteq> 0 then Some (ret, copied + alen, mo, s)
            else sysfile_read_loop D t buffer i mo (base + of_nat alen) (len - alen) (copied + alen) s }) })"

declare sysfile_read_loop.simps [code]

definition sysfile_read ::
  "'a fs_state_scheme drv \<Rightarrow> nat \<Rightarrow> nat option \<Rightarrow> int \<Rightarrow> mm option \<Rightarrow> 64 word \<Rightarrow> nat \<Rightarrow> 'a fs_state_scheme \<Rightarrow> (int \<times> mm option \<times> 'a fs_state_scheme) option" where
  "sysfile_read D t blk i mo base len s =
     (if len = 0 then Some (0, mo, s)
      else do {
        ok \<leftarrow> file_testfd t i True False s;
        if \<not> ok then Some (err E_INVAL, mo, s)
        else (case blk of None \<Rightarrow> Some (err E_NO_MEM, mo, s)
          | Some buffer \<Rightarrow> do {
              (ret, copied, mo, s) \<leftarrow> sysfile_read_loop D t buffer i mo base len 0 s;
              Some (if copied \<noteq> 0 then int_of_size copied else ret, mo, s) }) })"

partial_function (option) sysfile_write_loop ::
  "'a fs_state_scheme drv \<Rightarrow> nat \<Rightarrow> nat \<Rightarrow> int \<Rightarrow> mm option \<Rightarrow> 64 word \<Rightarrow> nat \<Rightarrow> nat \<Rightarrow> 'a fs_state_scheme \<Rightarrow>
   (int \<times> nat \<times> mm option \<times> 'a fs_state_scheme) option" where
  "sysfile_write_loop D t buffer i mo base len copied s =
     (if len = 0 then Some (0, copied, mo, s)
      else let alen = (if IOBUF_SIZE > len then len else IOBUF_SIZE) in
        (case copy_from_user mo buffer base alen False (fmem s) of (ok, mo, m) \<Rightarrow>
          let s = s\<lparr>fmem := m\<rparr> in
          if \<not> ok then Some (err E_INVAL, copied, mo, s)
          else do {
            (ret, alen, s) \<leftarrow> file_write D t i buffer alen s;
            kassert (len \<ge> alen);
            if ret \<noteq> 0 \<or> alen = 0 then Some (ret, copied + alen, mo, s)
            else sysfile_write_loop D t buffer i mo (base + of_nat alen) (len - alen) (copied + alen) s }))"

declare sysfile_write_loop.simps [code]

definition sysfile_write ::
  "'a fs_state_scheme drv \<Rightarrow> nat \<Rightarrow> nat option \<Rightarrow> int \<Rightarrow> mm option \<Rightarrow> 64 word \<Rightarrow> nat \<Rightarrow> 'a fs_state_scheme \<Rightarrow> (int \<times> mm option \<times> 'a fs_state_scheme) option" where
  "sysfile_write D t blk i mo base len s =
     (if len = 0 then Some (0, mo, s)
      else do {
        ok \<leftarrow> file_testfd t i False True s;
        if \<not> ok then Some (err E_INVAL, mo, s)
        else (case blk of None \<Rightarrow> Some (err E_NO_MEM, mo, s)
          | Some buffer \<Rightarrow> do {
              (ret, copied, mo, s) \<leftarrow> sysfile_write_loop D t buffer i mo base len 0 s;
              Some (if copied \<noteq> 0 then int_of_size copied else ret, mo, s) }) })"

definition sysfile_seek :: "'a fs_state_scheme drv \<Rightarrow> nat \<Rightarrow> int \<Rightarrow> int \<Rightarrow> int \<Rightarrow> 'a fs_state_scheme \<Rightarrow> (int \<times> 'a fs_state_scheme) option" where
  "sysfile_seek D t i pos whence s = file_seek D t i pos whence s"

text \<open>\<open>st\<close> is the address of the local \<^verbatim>\<open>struct stat\<close>, of 32 bytes: \<^verbatim>\<open>st_mode\<close> is followed by 4 bytes of padding, which
  keep what was on the stack, as \<^verbatim>\<open>dev_fstat\<close> does not clear the structure.\<close>

definition put_stat :: "nat \<Rightarrow> stat \<Rightarrow> bmem \<Rightarrow> bmem" where
  "put_stat a x m = put_le 8 (a + 24) (st_size x) (put_le 8 (a + 16) (st_blocks x) (put_le 8 (a + 8) (st_nlinks x)
     (put_le 4 a (unat (st_mode x)) m)))"

definition sysfile_fstat ::
  "'a fs_state_scheme drv \<Rightarrow> nat \<Rightarrow> nat \<Rightarrow> int \<Rightarrow> mm option \<Rightarrow> 64 word \<Rightarrow> 'a fs_state_scheme \<Rightarrow> (int \<times> mm option \<times> 'a fs_state_scheme) option" where
  "sysfile_fstat D t st i mo ustat s = do {
     (ret, x, s) \<leftarrow> file_fstat D t i s;
     let s = (case x of None \<Rightarrow> s | Some v \<Rightarrow> s\<lparr>fmem := put_stat st v (fmem s)\<rparr>);
     if ret \<noteq> 0 then Some (ret, mo, s)
     else (case copy_to_user mo ustat st 32 (fmem s) of (ok, mo, m) \<Rightarrow>
       Some (if ok then 0 else err E_INVAL, mo, s\<lparr>fmem := m\<rparr>)) }"

definition sysfile_fsync :: "'a fs_state_scheme drv \<Rightarrow> nat \<Rightarrow> int \<Rightarrow> 'a fs_state_scheme \<Rightarrow> (int \<times> 'a fs_state_scheme) option" where
  "sysfile_fsync D t i s = file_fsync D t i s"

definition sysfile_chdir ::
  "'a fs_state_scheme drv \<Rightarrow> nat \<Rightarrow> nat option \<Rightarrow> mm option \<Rightarrow> 64 word \<Rightarrow> 'a fs_state_scheme \<Rightarrow> (int \<times> mm option \<times> 'a fs_state_scheme) option" where
  "sysfile_chdir D t blk mo upath s = do {
     (ret, kpath, mo) \<leftarrow> copy_path blk mo upath (fmem s);
     if ret \<noteq> 0 then Some (ret, mo, s)
     else do { (ret, s) \<leftarrow> vfs_chdir D t kpath s; Some (ret, mo, s) } }"

text \<open>\<^verbatim>\<open>vfs_link\<close>, \<^verbatim>\<open>vfs_rename\<close> and \<^verbatim>\<open>vfs_unlink\<close> are not implemented.\<close>

definition vfs_link :: "string \<Rightarrow> string \<Rightarrow> int" where "vfs_link old_path new_path = err E_UNIMP"
definition vfs_rename :: "string \<Rightarrow> string \<Rightarrow> int" where "vfs_rename old_path new_path = err E_UNIMP"
definition vfs_unlink :: "string \<Rightarrow> int" where "vfs_unlink old_path = err E_UNIMP"

definition two_paths ::
  "(string \<Rightarrow> string \<Rightarrow> int) \<Rightarrow> nat option \<Rightarrow> nat option \<Rightarrow> mm option \<Rightarrow> 64 word \<Rightarrow> 64 word \<Rightarrow> bmem \<Rightarrow> (int \<times> mm option) option" where
  "two_paths f blk1 blk2 mo path1 path2 m = do {
     (ret, old_path, mo) \<leftarrow> copy_path blk1 mo path1 m;
     if ret \<noteq> 0 then Some (ret, mo)
     else do {
       (ret, new_path, mo) \<leftarrow> copy_path blk2 mo path2 m;
       Some (if ret \<noteq> 0 then ret else f old_path new_path, mo) } }"

definition sysfile_link :: "nat option \<Rightarrow> nat option \<Rightarrow> mm option \<Rightarrow> 64 word \<Rightarrow> 64 word \<Rightarrow> bmem \<Rightarrow> (int \<times> mm option) option" where
  "sysfile_link = two_paths vfs_link"

definition sysfile_rename :: "nat option \<Rightarrow> nat option \<Rightarrow> mm option \<Rightarrow> 64 word \<Rightarrow> 64 word \<Rightarrow> bmem \<Rightarrow> (int \<times> mm option) option" where
  "sysfile_rename = two_paths vfs_rename"

definition sysfile_unlink :: "nat option \<Rightarrow> mm option \<Rightarrow> 64 word \<Rightarrow> bmem \<Rightarrow> (int \<times> mm option) option" where
  "sysfile_unlink blk mo upath m = do {
     (ret, kpath, mo) \<leftarrow> copy_path blk mo upath m;
     Some (if ret \<noteq> 0 then ret else vfs_unlink kpath, mo) }"

text \<open>\<open>blk\<close> is the kernel's \<^verbatim>\<open>struct dirent\<close>: the offset in 8 bytes, then the name.\<close>

definition get_off :: "nat \<Rightarrow> bmem \<Rightarrow> int" where "get_off a m = sint (of_nat (get_le 8 a m) :: 64 word)"
definition put_off :: "nat \<Rightarrow> int \<Rightarrow> bmem \<Rightarrow> bmem" where "put_off a v m = put_le 8 a (unat (word_of_int v :: 64 word)) m"

definition sysfile_getdirentry ::
  "'a fs_state_scheme drv \<Rightarrow> nat \<Rightarrow> nat option \<Rightarrow> int \<Rightarrow> mm option \<Rightarrow> 64 word \<Rightarrow> 'a fs_state_scheme \<Rightarrow> (int \<times> mm option \<times> 'a fs_state_scheme) option" where
  "sysfile_getdirentry D t blk i mo udirent s = (case blk of None \<Rightarrow> Some (err E_NO_MEM, mo, s)
     | Some d \<Rightarrow> (case copy_from_user mo d udirent 8 True (fmem s) of (ok, mo, m) \<Rightarrow>
         let s = s\<lparr>fmem := m\<rparr> in
         if \<not> ok then Some (err E_INVAL, mo, s)
         else do {
           (ret, off, s) \<leftarrow> file_getdirentry D t i (d + 8) (get_off d (fmem s)) s;
           let s = s\<lparr>fmem := put_off d off (fmem s)\<rparr>;
           if ret \<noteq> 0 then Some (ret, mo, s)
           else (case copy_to_user mo udirent d (8 + (FS_MAX_FNAME_LEN + 1)) (fmem s) of (ok, mo, m) \<Rightarrow>
             Some (if ok then 0 else err E_INVAL, mo, s\<lparr>fmem := m\<rparr>)) }))"

definition sysfile_dup :: "nat \<Rightarrow> int \<Rightarrow> int \<Rightarrow> 'a fs_state_scheme \<Rightarrow> (int \<times> 'a fs_state_scheme) option" where
  "sysfile_dup t fd1 fd2 s = file_dup t fd1 fd2 s"

text \<open>\<^verbatim>\<open>file_pipe\<close> stores the descriptors at \<open>fd_store\<close>, two \<^verbatim>\<open>int\<close>s, without a check of the address.\<close>

definition sysfile_pipe ::
  "'a pipe_state_scheme drv \<Rightarrow> nat \<Rightarrow> (nat \<Rightarrow> byte) option \<Rightarrow> iptr option \<Rightarrow> nat \<Rightarrow> nat \<Rightarrow> nat \<Rightarrow> 'a pipe_state_scheme \<Rightarrow> (int \<times> 'a pipe_state_scheme) option" where
  "sysfile_pipe D t buffer blk q1 q2 fd_store s = do {
     (r, s) \<leftarrow> file_pipe D t buffer blk q1 q2 s;
     Some (case r of Inl e \<Rightarrow> (e, s)
       | Inr (a, b) \<Rightarrow> (0, s\<lparr>fmem := put_le 4 (fd_store + 4) (nat b) (put_le 4 fd_store (nat a) (fmem s))\<rparr>)) }"

definition sysfile_mkfifo :: int where "sysfile_mkfifo = err E_UNIMP"

subsection \<open>Writing to the console\<close>

definition uaddr :: "nat set" where "uaddr = {unat USERBASE ..< unat USERTOP}"

lemma upd_file_fs [simp]: "fmem (upd_file t k f s) = fmem s" by (simp add: upd_file_def)

lemma upd_file_dev [simp]: "console (upd_file t k f s) = console s" "devices (upd_file t k f s) = devices s"
  by (simp_all add: upd_file_def)

lemma inode_check_upd [simp]: "inode_check n (upd_file t k f s) = inode_check n s" "inode_check n (s\<lparr>console := c\<rparr>) = inode_check n s"
  "inode_check n (s'\<lparr>fmem := m\<rparr>) = inode_check n s'"
  by (simp_all add: inode_check_def)

lemma upd_file_upd:
  "k < length (fd_array (tables s t)) \<Longrightarrow> upd_file t k f (upd_file t k g s) = upd_file t k (\<lambda>x. f (g x)) s"
  by (simp add: upd_file_def)

lemma cputchars_eq: "cputchars n a s = s\<lparr>console := console s @ map (fmem s) [a ..< a + n]\<rparr>"
proof (induction n arbitrary: a s)
  case (Suc n)
  have "[a ..< a + Suc n] = a # [a + 1 ..< a + 1 + n]" by (simp add: upt_conv_Cons)
  then show ?case using Suc by simp
qed simp

text \<open>Descriptor \<open>i\<close> is open for writing on \<^verbatim>\<open>stdout\<close>.\<close>

definition on_stdout :: "nat \<Rightarrow> int \<Rightarrow> 'a dev_state_scheme \<Rightarrow> bool" where
  "on_stdout t i s \<longleftrightarrow> testfd i \<and> files_count (tables s t) > 0 \<and> nat i < length (fd_array (tables s t)) \<and>
     (let e = entry t (nat i) s in fstatus e = FD_OPENED \<and> fd e = i \<and> writable e \<and> fopen_count e > 0 \<and>
       (case fnode e of None \<Rightarrow> False | Some n \<Rightarrow> d_kind (devices s n) = Stdout \<and> inode_check n s))"

definition move_fpos :: "nat \<Rightarrow> int \<Rightarrow> nat \<Rightarrow> 'a fs_state_scheme \<Rightarrow> 'a fs_state_scheme" where
  "move_fpos t i n s = upd_file t (nat i) (\<lambda>x. x\<lparr>fpos := fpos x + int n\<rparr>) s"

lemma file_write_stdout:
  assumes "on_stdout t i s"
  shows "file_write dev_node_ops t i b n s =
    Some (0, n, move_fpos t i n (s\<lparr>console := console s @ map (fmem s) [b ..< b + n]\<rparr>))"
proof -
  obtain k where k: "fnode (entry t (nat i) s) = Some k" "d_kind (devices s k) = Stdout" "inode_check k s"
    using assms by (auto simp: on_stdout_def Let_def split: option.splits)
  note a = assms[unfolded on_stdout_def Let_def]
  have f: "fd2file t i s = Some (Inr (nat i))" using a by (simp add: fd2file_def get_fd_array_def kassert_def)
  define s1 where "s1 = upd_file t (nat i) (\<lambda>x. x\<lparr>fopen_count := fopen_count x + 1\<rparr>) s"
  have s1: "entry t (nat i) s1 = (entry t (nat i) s)\<lparr>fopen_count := fopen_count (entry t (nat i) s) + 1\<rparr>" "inode_check k s1"
    "devices s1 = devices s" "console s1 = console s" "fmem s1 = fmem s" using a k by (simp_all add: s1_def)
  have q: "fd_array_acquire t (nat i) s = Some s1" using a by (simp add: fd_array_acquire_def kassert_def s1_def)
  define s2 where "s2 = upd_file t (nat i) (\<lambda>x. x\<lparr>fpos := fpos x + int n\<rparr>) (s1\<lparr>console := console s @ map (fmem s) [b ..< b + n]\<rparr>)"
  have r: "fd_array_release dev_node_ops t (nat i) s2 =
      Some (move_fpos t i n (s\<lparr>console := console s @ map (fmem s) [b ..< b + n]\<rparr>))"
    using a by (simp add: fd_array_release_def kassert_def s2_def s1_def move_fpos_def upd_file_upd) (simp add: upd_file_def)
  show ?thesis
    using a k s1 r by (simp add: file_write_def file_io_def f q vop_op_def dev_node_ops_def dev_write_def dop_io_def stdout_io_def
      kassert_def cputchars_eq iobuf_init_def iobuf_used_def s2_def)
qed

text \<open>\<open>n\<close> bytes from a user address on that may be accessed.\<close>

definition urange :: "bool \<Rightarrow> mm \<Rightarrow> 64 word \<Rightarrow> nat \<Rightarrow> bool" where
  "urange w m base n \<longleftrightarrow> unat USERBASE \<le> unat base \<and> unat base + n \<le> unat USERTOP \<and> (\<forall>j<n. access_ok w m (base + of_nat j))"

lemma user_consts: "unat USERBASE = 0x200000" "unat USERTOP = 0x80000000" by (simp_all add: USERBASE_def USERTOP_def)

lemma urange_unat: "urange w m base n \<Longrightarrow> j \<le> n \<Longrightarrow> unat (base + of_nat j) = unat base + j"
  by (simp add: urange_def user_consts unat_word_ariths unat_of_nat)

lemma urange_split: "urange w m base n \<Longrightarrow> k \<le> n \<Longrightarrow> urange w m base k \<and> urange w m (base + of_nat k) (n - k)"
  using urange_unat[of w m base n k] by (auto simp: urange_def add.assoc simp flip: of_nat_add)

lemma urange_cong: "mmap_list m' = mmap_list m \<Longrightarrow> urange w m' = urange w m"
  by (simp add: urange_def access_ok_def fun_eq_iff)

lemma user_mem_check_urange:
  assumes "mm_wf m" "urange w m base n" "0 < n"
  shows "\<exists>m'. user_mem_check (Some m) base (of_nat n) w = (True, Some m') \<and> mm_wf m' \<and> mmap_list m' = mmap_list m"
proof -
  have u: "unat (base + of_nat n) = unat base + n" using urange_unat[OF assms(2)] by simp
  have "access_ok w m a" if "base \<le> a" "a < base + of_nat n" for a
  proof -
    have "unat a - unat base < n" "a = base + of_nat (unat a - unat base)"
      using that u by (simp_all add: word_le_nat_alt word_less_nat_alt)
    then show ?thesis using assms(2) unfolding urange_def by metis
  qed
  moreover have "USER_ACCESS base (base + of_nat n)"
    using assms(2,3) u by (simp add: USER_ACCESS_def urange_def word_le_nat_alt word_less_nat_alt)
  moreover obtain r mo where r: "user_mem_check (Some m) base (of_nat n) w = (r, mo)" by fastforce
  ultimately show ?thesis using user_mem_check_wf[OF assms(1) r] r by auto
qed

lemma memcpy_disjoint: "src + n \<le> dst \<or> dst + n \<le> src \<Longrightarrow> memcpy dst src n m = blit dst src n m"
  unfolding memcpy_def by (rule copy_up_blit) auto

text \<open>The kernel's buffer is not user memory.\<close>

definition kbuf :: "nat \<Rightarrow> bool" where
  "kbuf b \<longleftrightarrow> b + IOBUF_SIZE \<le> unat USERBASE \<or> unat USERTOP \<le> b"

lemma copy_from_user_ok:
  assumes "mm_wf m" "urange w m base n" "0 < n" "n \<le> IOBUF_SIZE" "kbuf b"
  shows "\<exists>m'. copy_from_user (Some m) b base n w mem = (True, Some m', blit b (unat base) n mem) \<and> mm_wf m' \<and> mmap_list m' = mmap_list m"
proof -
  have "unat base + n \<le> b \<or> b + n \<le> unat base" using assms(2,4,5) by (auto simp: urange_def kbuf_def)
  then show ?thesis using user_mem_check_urange[OF assms(1-3)] by (auto simp: copy_from_user_def memcpy_disjoint)
qed

lemma on_stdout_keeps [simp]:
  "on_stdout t i (move_fpos t i n s) = on_stdout t i s" "on_stdout t i (s\<lparr>fmem := m\<rparr>) = on_stdout t i s"
  "on_stdout t i (s\<lparr>console := c\<rparr>) = on_stdout t i s"
  by (auto simp: on_stdout_def move_fpos_def Let_def split: option.splits)

lemma move_fpos_simps [simp]: "fmem (move_fpos t i n s) = fmem s" "inodes (move_fpos t i n s) = inodes s"
  "console (move_fpos t i n s') = console s'" "move_fpos t i 0 s = s"
  "nat i < length (fd_array (tables s t)) \<Longrightarrow> move_fpos t i k (move_fpos t i n s) = move_fpos t i (n + k) s"
  "tables (move_fpos t i n (s\<lparr>fmem := m\<rparr>)) = tables (move_fpos t i n s)"
  "tables (move_fpos t i n (s'\<lparr>console := c\<rparr>)) = tables (move_fpos t i n s')"
  by (simp_all add: move_fpos_def upd_file_upd add.assoc) (simp_all add: upd_file_def)

lemma stdout_loop:
  assumes "mm_wf m" "on_stdout t i s" "urange False m base len" "kbuf b"
  shows "\<exists>m' s'. sysfile_write_loop dev_node_ops t b i (Some m) base len c s = Some (0, c + len, Some m', s') \<and>
    mm_wf m' \<and> mmap_list m' = mmap_list m \<and>
    console s' = console s @ map (fmem s) [unat base ..< unat base + len] \<and>
    (\<forall>x. x < b \<or> b + IOBUF_SIZE \<le> x \<longrightarrow> fmem s' x = fmem s x) \<and> inodes s' = inodes s \<and> tables s' = tables (move_fpos t i len s)"
  using assms(1-3)
proof (induction len arbitrary: m base c s rule: less_induct)
  case (less len)
  show ?case
  proof (cases "len = 0")
    case True
    then show ?thesis using less.prems by (subst sysfile_write_loop.simps) simp
  next
    case False
    define n where "n = (if IOBUF_SIZE > len then len else IOBUF_SIZE)"
    have n: "0 < n" "n \<le> len" "n \<le> IOBUF_SIZE" using False by (auto simp: n_def IOBUF_SIZE_def)
    note ur = urange_split[OF less.prems(3) n(2)]
    obtain m1 where m1: "copy_from_user (Some m) b base n False (fmem s) = (True, Some m1, blit b (unat base) n (fmem s))"
      "mm_wf m1" "mmap_list m1 = mmap_list m" using copy_from_user_ok[OF less.prems(1) _ n(1,3) assms(4)] ur by blast
    let ?m = "blit b (unat base) n (fmem s)"
    define s1 where "s1 = move_fpos t i n ((s\<lparr>fmem := ?m\<rparr>)\<lparr>console := console s @ map ?m [b ..< b + n]\<rparr>)"
    have w: "file_write dev_node_ops t i b n (s\<lparr>fmem := ?m\<rparr>) = Some (0, n, s1)"
      using file_write_stdout[of t i "s\<lparr>fmem := ?m\<rparr>" b n] less.prems(2) by (simp add: s1_def)
    have st: "sysfile_write_loop dev_node_ops t b i (Some m) base len c s =
        sysfile_write_loop dev_node_ops t b i (Some m1) (base + of_nat n) (len - n) (c + n) s1"
      using False n by (subst sysfile_write_loop.simps) (simp add: n_def[symmetric] m1 w kassert_def)
    have ub: "unat (base + of_nat n) = unat base + n" using urange_unat[OF less.prems(3) n(2)] .
    have c1: "console s1 = console s @ map (fmem s) [unat base ..< unat base + n]"
      by (auto simp: s1_def blit_def intro!: nth_equalityI)
    have f1: "fmem s1 x = fmem s x" if "x < b \<or> b + IOBUF_SIZE \<le> x" for x using that n(3) by (auto simp: s1_def blit_def)
    have f2: "map (fmem s1) [unat base + n ..< unat base + len] = map (fmem s) [unat base + n ..< unat base + len]"
      using less.prems(3) assms(4) by (intro map_cong f1) (auto simp: urange_def kbuf_def)
    have ln: "nat i < length (fd_array (tables s t))" using less.prems(2) by (simp add: on_stdout_def)
    obtain m' s' where r: "sysfile_write_loop dev_node_ops t b i (Some m1) (base + of_nat n) (len - n) (c + n) s1 =
        Some (0, c + n + (len - n), Some m', s')" "mm_wf m'" "mmap_list m' = mmap_list m1"
      "console s' = console s1 @ map (fmem s1) [unat base + n ..< unat base + n + (len - n)]"
      "\<forall>x. x < b \<or> b + IOBUF_SIZE \<le> x \<longrightarrow> fmem s' x = fmem s1 x" "inodes s' = inodes s1" "tables s' = tables (move_fpos t i (len - n) s1)"
      using less.IH[of "len - n" m1 s1 "base + of_nat n" "c + n"] n m1 ur less.prems(2) urange_cong[OF m1(3)] False
      by (auto simp: ub s1_def)
    have "[unat base ..< unat base + len] = [unat base ..< unat base + n] @ [unat base + n ..< unat base + len]"
      using n(2) upt_add_eq_append[of "unat base" "unat base + n" "len - n"] by simp
    then show ?thesis using r st n(2) f1 f2 c1 m1(3) ln by (intro exI[of _ m'] exI[of _ s']) (simp add: s1_def)
  qed
qed

lemma int_of_size_small: "n < 2 ^ 31 \<Longrightarrow> int_of_size n = int n"
  unfolding int_of_size_def by (transfer fixing: n) (simp add: signed_take_bit_int_eq_self)

lemma user_mem_check_iff:
  assumes "mm_wf m" "0 < n" "n < 2 ^ 64"
  shows "\<exists>m'. user_mem_check (Some m) base (of_nat n) w = (urange w m base n, Some m') \<and> mm_wf m' \<and> mmap_list m' = mmap_list m"
proof (cases "urange w m base n")
  case True
  then show ?thesis using user_mem_check_urange[OF assms(1)] assms(2) by auto
next
  case False
  obtain r mo where r: "user_mem_check (Some m) base (of_nat n) w = (r, mo)" by fastforce
  note wf = user_mem_check_wf[OF assms(1) r]
  have "urange w m base n" if r
  proof -
    have u: "USER_ACCESS base (base + of_nat n)" "\<And>a. base \<le> a \<Longrightarrow> a < base + of_nat n \<Longrightarrow> access_ok w m a" using wf(1) that by auto
    have "access_ok w m (base + of_nat j)" if "j < n" for j
      using user_range_byte[OF u(1) that assms(3)] u(2) by blast
    moreover have "unat base + n = unat (base + of_nat n)"
    proof -
      have "unat (of_nat n :: 64 word) = n" "unat base < 2 ^ 64" using assms(3) unsigned_less[of base] by (simp_all add: unat_of_nat)
      then show ?thesis using u(1) assms(3)
        by (cases "unat base + n < 2 ^ 64") (auto simp: USER_ACCESS_def word_less_nat_alt unat_word_ariths le_mod_geq)
    qed
    ultimately show ?thesis using u(1) by (simp add: urange_def USER_ACCESS_def word_le_nat_alt)
  qed
  then show ?thesis using False wf(2) r by auto
qed

text \<open>C38: \<^verbatim>\<open>sysfile_write\<close> to \<^verbatim>\<open>stdout\<close>. If the process may read all \<^verbatim>\<open>len\<close> bytes, the call returns \<^verbatim>\<open>len\<close> and has printed exactly
  these bytes of user memory in order, whatever the number of buffers they take; it has moved the file position and changed no
  memory but its own buffer. If part of the first buffer may not be read, it prints nothing and returns \<^verbatim>\<open>-E_INVAL\<close>.\<close>

theorem sysfile_write_stdout:
  assumes "mm_wf m" "on_stdout t i s" "kbuf b" "0 < len"
  shows "(urange False m base len \<longrightarrow>
      (\<exists>m' s'. sysfile_write dev_node_ops t (Some b) i (Some m) base len s = Some (int len, Some m', s') \<and>
         console s' = console s @ map (fmem s) [unat base ..< unat base + len] \<and>
         (\<forall>x. x < b \<or> b + IOBUF_SIZE \<le> x \<longrightarrow> fmem s' x = fmem s x) \<and> inodes s' = inodes s \<and>
         tables s' = tables (move_fpos t i len s))) \<and>
    (\<not> urange False m base (min len IOBUF_SIZE) \<longrightarrow>
      (\<exists>m'. sysfile_write dev_node_ops t (Some b) i (Some m) base len s = Some (err E_INVAL, Some m', s)))"
proof -
  have t: "file_testfd t i False True s = Some True"
    using assms(2) by (simp add: on_stdout_def Let_def file_testfd_def fd2file_def get_fd_array_def kassert_def)
  have l: "int_of_size len = int len" if "urange False m base len"
    using that by (simp add: int_of_size_small urange_def user_consts)
  show ?thesis
  proof (intro conjI impI)
    assume u: "urange False m base len"
    show "\<exists>m' s'. sysfile_write dev_node_ops t (Some b) i (Some m) base len s = Some (int len, Some m', s') \<and>
         console s' = console s @ map (fmem s) [unat base ..< unat base + len] \<and>
         (\<forall>x. x < b \<or> b + IOBUF_SIZE \<le> x \<longrightarrow> fmem s' x = fmem s x) \<and> inodes s' = inodes s \<and>
         tables s' = tables (move_fpos t i len s)"
      using stdout_loop[OF assms(1,2) u assms(3), of 0] assms(4) l[OF u] by (auto simp: sysfile_write_def t)
  next
    assume u: "\<not> urange False m base (min len IOBUF_SIZE)"
    have n: "(if IOBUF_SIZE > len then len else IOBUF_SIZE) = min len IOBUF_SIZE" by (simp add: min_def)
    have n0: "0 < min len IOBUF_SIZE" "min len IOBUF_SIZE < 2 ^ 64" using assms(4) by (auto simp: IOBUF_SIZE_def)
    obtain m' where "user_mem_check (Some m) base (of_nat (min len IOBUF_SIZE)) False = (False, Some m')"
      using user_mem_check_iff[OF assms(1) n0, of base False] u by auto
    then show "\<exists>m'. sysfile_write dev_node_ops t (Some b) i (Some m) base len s = Some (err E_INVAL, Some m', s)"
      using assms(4) by (simp add: sysfile_write_def t sysfile_write_loop.simps[of _ _ _ _ _ _ len] n copy_from_user_def)
  qed
qed

lemma memcpy_frame: "x < d \<or> d + n \<le> x \<Longrightarrow> memcpy d src n m x = m x"
  unfolding memcpy_def by (induction n arbitrary: d src m) auto

lemma urange_access: "urange w m base n \<Longrightarrow> unat base \<le> x \<Longrightarrow> x < unat base + n \<Longrightarrow> access_ok w m (of_nat x)"
proof -
  assume a: "urange w m base n" "unat base \<le> x" "x < unat base + n"
  have "of_nat x = base + of_nat (x - unat base)" using a(2) by (simp add: of_nat_diff)
  then show ?thesis using a unfolding urange_def by (metis less_diff_conv2 add.commute)
qed

text \<open>One round of the loop.\<close>

lemma sysfile_read_step:
  assumes "len \<noteq> 0" "file_read D t i b (if IOBUF_SIZE > len then len else IOBUF_SIZE) s = Some (q, k, s1)"
    "user_mem_check (Some m) base (of_nat k) True = (okc, Some m1)"
  shows "sysfile_read_loop D t b i (Some m) base len c s =
    (if k = 0 then Some (q, c, Some m, s1)
     else if \<not> okc then Some (if q = 0 then err E_INVAL else q, c, Some m1, s1)
     else if \<not> k \<le> len then None
     else let s2 = s1\<lparr>fmem := memcpy (unat base) b k (fmem s1)\<rparr> in
       if q \<noteq> 0 then Some (q, c + k, Some m1, s2)
       else sysfile_read_loop D t b i (Some m1) (base + of_nat k) (len - k) (c + k) s2)"
  using assms(1) by (subst sysfile_read_loop.simps) (simp add: assms copy_to_user_def kassert_def Let_def)

subsection \<open>Reading writes only where the process may\<close>

text \<open>What the calls need of a driver to keep user memory safe: it changes no byte in \<open>U\<close> but in the buffer it is given.
  \<open>ok\<close> says that its own buffers are outside \<open>U\<close>.\<close>

definition same_on :: "nat set \<Rightarrow> 'a fs_state_scheme \<Rightarrow> 'a fs_state_scheme \<Rightarrow> bool" where
  "same_on U s s' \<longleftrightarrow> (\<forall>x\<in>U. fmem s' x = fmem s x)"

definition iob_off :: "nat set \<Rightarrow> iobuf \<Rightarrow> bool" where
  "iob_off U iob \<longleftrightarrow> {io_base iob ..< io_base iob + io_resid iob} \<inter> U = {}"

locale confined_driver =
  fixes D :: "'a fs_state_scheme drv" and U :: "nat set" and ok :: "'a fs_state_scheme \<Rightarrow> bool"
  assumes ok_fmem: "ok (s\<lparr>fmem := m\<rparr>) = ok s"
    and ok_inodes: "ok (s\<lparr>inodes := v\<rparr>) = ok s"
    and ok_tables: "ok (s\<lparr>tables := w\<rparr>) = ok s"
    and read_off: "ok s \<Longrightarrow> op_read D n = Some g \<Longrightarrow> iob_off U iob \<Longrightarrow> g iob s = Some (r, iob', s') \<Longrightarrow> ok s' \<and> same_on U s s'"
    and close_off: "ok s \<Longrightarrow> op_close D n = Some h \<Longrightarrow> h s = Some (q, s') \<Longrightarrow> ok s' \<and> same_on U s s'"
    and reclaim_off: "ok s \<Longrightarrow> op_reclaim D n = Some h \<Longrightarrow> h s = Some (q, s') \<Longrightarrow> ok s' \<and> same_on U s s'"

lemma same_on_trans [trans]: "same_on U s s' \<Longrightarrow> same_on U s' s'' \<Longrightarrow> same_on U s s''"
  by (simp add: same_on_def)

lemma same_on_upd [simp]: "same_on U s s" "same_on U s (upd_inode n f s') = same_on U s s'" "same_on U s (upd_file t k e s') = same_on U s s'"
  by (simp_all add: same_on_def upd_inode_def upd_file_def)

context confined_driver
begin

abbreviation safe :: "'a fs_state_scheme \<Rightarrow> 'a fs_state_scheme \<Rightarrow> bool" where
  "safe s s' \<equiv> ok s' \<and> same_on U s s'"

lemma ok_upd [simp]: "ok (upd_inode n f s) = ok s" "ok (upd_file t k e s) = ok s"
  by (simp_all add: upd_inode_def upd_file_def ok_inodes ok_tables)

lemma dec_safe:
  assumes "ok s"
  shows "inode_ref_dec D n s = Some (r, s') \<Longrightarrow> safe s s'" "inode_open_dec D n s = Some (r, s') \<Longrightarrow> safe s s'"
proof -
  have o: "ok (upd_inode n f s)" for f using assms by (simp add: upd_inode_def ok_inodes)
  have f: "fmem (upd_inode n f s) = fmem s" for f by (simp add: upd_inode_def)
  show "inode_ref_dec D n s = Some (r, s') \<Longrightarrow> safe s s'"
    using reclaim_off[OF o] o by (auto simp: inode_ref_dec_def Let_def vop_op_def same_on_def f split: Option.bind_splits if_splits)
  show "inode_open_dec D n s = Some (r, s') \<Longrightarrow> safe s s'"
    using close_off[OF o] o by (auto simp: inode_open_dec_def Let_def vop_op_def same_on_def f split: Option.bind_splits if_splits)
qed

lemma vfs_close_safe:
  assumes "ok s" "vfs_close D n s = Some s'"
  shows "safe s s'"
proof -
  obtain a s1 b where "inode_open_dec D n s = Some (a, s1)" "inode_ref_dec D n s1 = Some (b, s')"
    using assms(2) by (auto simp: vfs_close_def split: Option.bind_splits)
  then show ?thesis using dec_safe(2)[OF assms(1)] dec_safe(1)[of s1] same_on_trans by blast
qed

lemma fd_array_free_safe:
  assumes "ok s" "fd_array_free D t k s = Some s'"
  shows "safe s s'"
proof -
  obtain s1 where s1: "s1 = s \<or> (\<exists>n. vfs_close D n s = Some s1)" "s' = upd_file t k (\<lambda>x. x\<lparr>fstatus := FD_NONE\<rparr>) s1"
    using assms(2) unfolding fd_array_free_def by (auto split: Option.bind_splits if_splits)
  have "safe s s1" using s1(1) vfs_close_safe[OF assms(1)] assms(1) by (auto simp: same_on_def)
  then show ?thesis using s1(2) by simp
qed

lemma fd_array_release_safe: "ok s \<Longrightarrow> fd_array_release D t k s = Some s' \<Longrightarrow> safe s s'"
proof -
  assume o: "ok s" and r: "fd_array_release D t k s = Some s'"
  define s1 where "s1 = upd_file t k (\<lambda>x. x\<lparr>fopen_count := fopen_count x - 1\<rparr>) s"
  have "safe s s1" using o by (simp add: s1_def)
  moreover have "safe s1 s'"
    using r fd_array_free_safe[of s1] \<open>safe s s1\<close> unfolding fd_array_release_def Let_def s1_def[symmetric]
    by (auto simp: same_on_def split: Option.bind_splits if_splits)
  ultimately show ?thesis using same_on_trans by blast
qed

lemma file_read_safe:
  assumes "ok s" "file_read D t i b n s = Some (r, k, s')" "{b ..< b + n} \<inter> U = {}"
  shows "safe s s'"
proof (cases "safe s s \<and> s' = s")
  case False
  have ss: "safe s s" using assms(1) by (simp add: same_on_def)
  obtain j s1 v g iob s2 where f: "fd_array_acquire t j s = Some s1" "op_read D v = Some g"
      "g (iobuf_init b n (fpos (entry t j s1))) s1 = Some (r, iob, s2)"
      "fd_array_release D t j (if fstatus (entry t j s2) = FD_OPENED then upd_file t j (\<lambda>x. x\<lparr>fpos := fpos x + int (iobuf_used iob)\<rparr>) s2 else s2) = Some s'"
    using assms(2) ss False unfolding file_read_def file_io_def Let_def vop_op_def
    by (auto split: Option.bind_splits if_splits sum.splits)
  have s1: "safe s s1" using f(1) assms(1) by (auto simp: fd_array_acquire_def split: Option.bind_splits if_splits)
  have s2: "safe s1 s2" using read_off[OF _ f(2) _ f(3)] s1 assms(3) by (simp add: iob_off_def iobuf_init_def)
  let ?s3 = "if fstatus (entry t j s2) = FD_OPENED then upd_file t j (\<lambda>x. x\<lparr>fpos := fpos x + int (iobuf_used iob)\<rparr>) s2 else s2"
  have s3: "safe s2 ?s3" using s2 by simp
  then have "safe ?s3 s'" using fd_array_release_safe[OF _ f(4)] by simp
  then show ?thesis using s1 s2 s3 same_on_trans by blast
qed simp

lemma read_loop_safe:
  assumes "{b ..< b + IOBUF_SIZE} \<inter> U = {}" "len < 2 ^ 64"
    "ok s" "mm_wf m" "sysfile_read_loop D t b i (Some m) base len c s = Some (r, c', mo, s')"
  shows "\<exists>m'. mo = Some m' \<and> mm_wf m' \<and> mmap_list m' = mmap_list m \<and> ok s' \<and> c \<le> c' \<and> c' \<le> c + len \<and>
    (\<forall>x\<in>U. fmem s' x = fmem s x \<or> unat base \<le> x \<and> x < unat base + (c' - c) \<and> access_ok True m (of_nat x))"
  using assms(2-)
proof (induction len arbitrary: m base c s rule: less_induct)
  case (less len)
  show ?case
  proof (cases "len = 0")
    case True
    then show ?thesis using less.prems by (auto simp: sysfile_read_loop.simps)
  next
    case False
    define n where "n = (if IOBUF_SIZE > len then len else IOBUF_SIZE)"
    have n: "n \<le> IOBUF_SIZE" by (simp add: n_def)
    obtain q k s1 where f: "file_read D t i b n s = Some (q, k, s1)"
      using less.prems(4) False by (subst (asm) sysfile_read_loop.simps) (auto simp: n_def[symmetric] split: Option.bind_splits)
    have "{b ..< b + n} \<subseteq> {b ..< b + IOBUF_SIZE}" using n by auto
    then have s1: "ok s1" "\<And>x. x \<in> U \<Longrightarrow> fmem s1 x = fmem s x"
      using file_read_safe[OF less.prems(2) f] assms(1) unfolding same_on_def by blast+
    obtain okc m1 where u: "user_mem_check (Some m) base (of_nat k) True = (okc, Some m1)" "mm_wf m1" "mmap_list m1 = mmap_list m"
      "k < 2 ^ 64 \<Longrightarrow> 0 < k \<Longrightarrow> okc = urange True m base k"
      using user_mem_check_wf(2)[OF less.prems(3)] user_mem_check_iff[OF less.prems(3), of k base True]
      by (metis (no_types, lifting) prod.collapse prod.inject)
    let ?m = "memcpy (unat base) b k (fmem s1)"
    note st = sysfile_read_step[OF False, folded n_def, OF f u(1)]
    show ?thesis
    proof (cases "k = 0 \<or> \<not> okc")
      case True
      then show ?thesis using less.prems(3,4) s1 u(2,3) unfolding st Let_def by (auto split: if_splits)
    next
      case False
      then have k: "0 < k" "k \<le> len" "okc" using less.prems(4) unfolding st Let_def by (auto split: if_splits)
      have ur: "urange True m base k" using u(4) k less.prems(1) by simp
      have w: "?m x = fmem s x \<or> unat base \<le> x \<and> x < unat base + k \<and> access_ok True m (of_nat x)" if "x \<in> U" for x
        using memcpy_frame[of x "unat base" k b "fmem s1"] s1(2)[OF that] urange_access[OF ur, of x]
        by (cases "x < unat base \<or> unat base + k \<le> x") auto
      show ?thesis
      proof (cases "q = 0")
        case False
        then have e: "c' = c + k" "mo = Some m1" "s' = s1\<lparr>fmem := ?m\<rparr>" using less.prems(4) k unfolding st Let_def by auto
        show ?thesis using k w u s1(1) by (simp add: e ok_fmem)
      next
        case True
        have r: "sysfile_read_loop D t b i (Some m1) (base + of_nat k) (len - k) (c + k) (s1\<lparr>fmem := ?m\<rparr>) = Some (r, c', mo, s')"
          using less.prems(4) k True unfolding st Let_def by simp
        have ub: "unat (base + of_nat k) = unat base + k" using urange_unat[OF ur] by simp
        have "\<exists>m'. mo = Some m' \<and> mm_wf m' \<and> mmap_list m' = mmap_list m1 \<and> ok s' \<and> c + k \<le> c' \<and> c' \<le> c + k + (len - k) \<and>
          (\<forall>x\<in>U. fmem s' x = ?m x \<or> unat base + k \<le> x \<and> x < unat base + k + (c' - (c + k)) \<and> access_ok True m1 (of_nat x))"
          using less.IH[OF _ _ _ u(2) r] k less.prems(1) s1(1) by (simp add: ok_fmem ub)
        moreover have "access_ok True m1 = access_ok True m" using u(3) by (simp add: access_ok_def fun_eq_iff)
        ultimately show ?thesis using w u(3) k by fastforce
      qed
    qed
  qed
qed

end

subsection \<open>The devices\<close>

definition dbuf_off :: "nat set \<Rightarrow> 'a dev_state_scheme \<Rightarrow> bool" where
  "dbuf_off U s \<longleftrightarrow> {disk0_buffer s ..< disk0_buffer s + DISK0_BUFSIZE} \<inter> U = {}"

lemma stdin_read_off:
  "dev_stdin_read n b s = Some s' \<Longrightarrow> {b ..< b + n} \<inter> U = {} \<Longrightarrow> same_on U s s' \<and> disk0_buffer s' = disk0_buffer s"
proof (induction n arbitrary: b s)
  case (Suc n)
  let ?s = "s\<lparr>fmem := (fmem s)(b := stdin_buffer s (p_rpos s mod STDIN_BUFSIZE)), p_rpos := p_rpos s + 1\<rparr>"
  have r: "dev_stdin_read n (b + 1) ?s = Some s'" using Suc.prems(1) by (auto split: if_splits)
  have "{b + 1 ..< b + 1 + n} \<subseteq> {b ..< b + Suc n}" "b \<in> {b ..< b + Suc n}" by auto
  then have "{b + 1 ..< b + 1 + n} \<inter> U = {}" "b \<notin> U" using Suc.prems(2) by blast+
  then show ?case using Suc.IH[OF r] by (auto simp: same_on_def)
qed (simp add: same_on_def)

lemma disk0_read_off:
  assumes "disk0_read_blks_nolock blkno (of_nat k) s = Some s'" "k \<le> 4" "dbuf_off U s"
  shows "same_on U s s' \<and> disk0_buffer s' = disk0_buffer s"
proof -
  have u: "unat (of_nat k * of_nat DISK0_BLK_NSECT :: 32 word) = k * 8"
    using assms(2) by (simp add: disk_consts unat_word_ariths unat_of_nat)
  define c where "c = ramdisk_count (ide_devices s DISK0_DEV_NO) (unat (blkno * of_nat DISK0_BLK_NSECT :: 32 word)) (k * 8) * SECTSIZE"
  have c: "c \<le> DISK0_BUFSIZE" using assms(2) by (simp add: c_def ramdisk_count_def disk_consts)
  obtain X where "s' = s\<lparr>fmem := \<lambda>a. if disk0_buffer s \<le> a \<and> a < disk0_buffer s + c then X a else fmem s a\<rparr>"
    using assms(1) unfolding disk0_read_blks_nolock_def Let_def ide_read_secs_def ramdisk_read_def u c_def[symmetric]
    by (auto split: Option.bind_splits if_splits)
  then show ?thesis using c assms(3) by (auto simp: dbuf_off_def same_on_def disjoint_iff)
qed

lemma disk0_loop_off:
  assumes "disk0_loop False blkno resid iob s = Some (iob', s')" "iob_off U iob" "dbuf_off U s"
  shows "same_on U s s' \<and> disk0_buffer s' = disk0_buffer s"
  using assms
proof (induction resid arbitrary: blkno iob s rule: less_induct)
  case (less resid)
  show ?case
  proof (cases "resid = 0")
    case True
    then show ?thesis using less.prems by (simp add: disk0_loop.simps)
  next
    case False
    define n where "n = (if DISK0_BUFSIZE > resid then resid else DISK0_BUFSIZE)"
    let ?k = "min n (io_resid iob)"
    have n: "0 < n" "n div DISK0_BLKSIZE \<le> 4" using False by (auto simp: n_def disk_consts)
    obtain s1 where s1: "disk0_read_blks_nolock blkno (of_nat (n div DISK0_BLKSIZE)) s = Some s1" and c: "?k = n"
      and r: "disk0_loop False (blkno + of_nat (n div DISK0_BLKSIZE)) (resid - n) (iob_done n iob)
        (s1\<lparr>fmem := memmove (io_base iob) (disk0_buffer s1) n (fmem s1)\<rparr>) = Some (iob', s')"
      using less.prems(1) False n(1) by (subst (asm) disk0_loop.simps)
        (auto simp: n_def[symmetric] Let_def iobuf_move_done split: Option.bind_splits if_splits)
    note o = disk0_read_off[OF s1 n(2) less.prems(3)]
    have i: "iob_off U (iob_done n iob)" "\<And>x. x \<in> U \<Longrightarrow> \<not> (io_base iob \<le> x \<and> x < io_base iob + n)"
      using less.prems(2) c by (auto simp: iob_off_def disjoint_iff)
    then have m: "same_on U s (s1\<lparr>fmem := memmove (io_base iob) (disk0_buffer s1) n (fmem s1)\<rparr>)"
      using o by (auto simp: same_on_def memmove_blit)
    then show ?thesis using less.IH[OF _ r i(1)] less.prems(3) o n(1) False by (auto simp: dbuf_off_def same_on_def)
  qed
qed

interpretation dev_confined: confined_driver dev_node_ops uaddr "dbuf_off uaddr"
proof unfold_locales
  fix s s' :: "'a dev_state_scheme" and n g iob iob' r
  assume a: "dbuf_off uaddr s" "op_read dev_node_ops n = Some g" "iob_off uaddr iob" "g iob s = Some (r, iob', s')"
  have "same_on uaddr s s' \<and> disk0_buffer s' = disk0_buffer s"
    using a disk0_loop_off[OF _ a(3,1)] stdin_read_off[of "io_resid iob" "io_base iob" s _ uaddr]
    by (auto simp: dev_node_ops_def dev_read_def dop_io_def stdin_io_def stdout_io_def disk0_io_def Let_def iob_off_def same_on_def
      split: dev_kind.splits Option.bind_splits if_splits)
  then show "dbuf_off uaddr s' \<and> same_on uaddr s s'" using a(1) by (simp add: dbuf_off_def)
qed (auto simp: dbuf_off_def dev_node_ops_def dev_close_def)

text \<open>C40: \<^verbatim>\<open>sysfile_read\<close> from a device, whatever the descriptor and the addresses the program passes: if it returns, a byte of
  user memory has changed only inside the first bytes of the range given, as many as were copied, and only where the
  process may write; a positive count that was copied is the result, and the areas are as they were.\<close>

theorem sysfile_read_confined:
  assumes "mm_wf m" "kbuf b" "dbuf_off uaddr s" "len < 2 ^ 64"
    "sysfile_read dev_node_ops t (Some b) i (Some m) base len s = Some (r, mo, s')"
  shows "\<exists>m' n. mo = Some m' \<and> mm_wf m' \<and> mmap_list m' = mmap_list m \<and> n \<le> len \<and> (0 < n \<longrightarrow> r = int_of_size n) \<and>
    (\<forall>x\<in>uaddr. fmem s' x = fmem s x \<or> unat base \<le> x \<and> x < unat base + n \<and> access_ok True m (of_nat x))"
proof -
  have b: "{b ..< b + IOBUF_SIZE} \<inter> uaddr = {}" using assms(2) by (auto simp: kbuf_def uaddr_def)
  consider "mo = Some m" "s' = s" |
    q c where "sysfile_read_loop dev_node_ops t b i (Some m) base len 0 s = Some (q, c, mo, s')" "c \<noteq> 0 \<longrightarrow> r = int_of_size c"
    using assms(5) by (auto simp: sysfile_read_def split: if_splits Option.bind_splits)
  then show ?thesis
  proof cases
    case 1
    then show ?thesis using assms(1) by auto
  next
    case 2
    then show ?thesis using dev_confined.read_loop_safe[OF b assms(4,3,1) 2(1)] by auto
  qed
qed

subsection \<open>Reading what was typed\<close>

definition on_stdin :: "nat \<Rightarrow> int \<Rightarrow> 'a dev_state_scheme \<Rightarrow> bool" where
  "on_stdin t i s \<longleftrightarrow> testfd i \<and> files_count (tables s t) > 0 \<and> nat i < length (fd_array (tables s t)) \<and>
     (let e = entry t (nat i) s in fstatus e = FD_OPENED \<and> fd e = i \<and> readable e \<and> fopen_count e > 0 \<and>
       (case fnode e of None \<Rightarrow> False | Some n \<Rightarrow> d_kind (devices s n) = Stdin \<and> inode_check n s))"

definition typed :: "nat \<Rightarrow> 'a dev_state_scheme \<Rightarrow> byte" where
  "typed j s = stdin_buffer s ((p_rpos s + j) mod STDIN_BUFSIZE)"

definition take_typed :: "nat \<Rightarrow> nat \<Rightarrow> 'a dev_state_scheme \<Rightarrow> 'a dev_state_scheme" where
  "take_typed n b s = s\<lparr>fmem := \<lambda>a. if b \<le> a \<and> a < b + n then typed (a - b) s else fmem s a, p_rpos := p_rpos s + n\<rparr>"

lemma dev_stdin_read_eq: "p_rpos s + n \<le> p_wpos s \<Longrightarrow> dev_stdin_read n b s = Some (take_typed n b s)"
proof (induction n arbitrary: b s)
  case 0
  have "(\<lambda>a. if b \<le> a \<and> a < b then typed (a - b) s else fmem s a) = fmem s" by (rule ext) auto
  then show ?case by (simp add: take_typed_def)
next
  case (Suc n)
  let ?s = "s\<lparr>fmem := (fmem s)(b := typed 0 s), p_rpos := p_rpos s + 1\<rparr>"
  have e2: "(\<lambda>a. if b + 1 \<le> a \<and> a < b + 1 + n then typed (a - (b + 1)) ?s else fmem ?s a) =
      (\<lambda>a. if b \<le> a \<and> a < b + Suc n then typed (a - b) s else fmem s a)"
  proof
    fix a
    show "(if b + 1 \<le> a \<and> a < b + 1 + n then typed (a - (b + 1)) ?s else fmem ?s a) =
        (if b \<le> a \<and> a < b + Suc n then typed (a - b) s else fmem s a)"
    proof (cases "b < a")
      case True
      then have e: "p_rpos s + 1 + (a - (b + 1)) = p_rpos s + (a - b)" by simp
      have "p_rpos ?s = p_rpos s + 1" "stdin_buffer ?s = stdin_buffer s" by simp_all
      then have "typed (a - (b + 1)) ?s = typed (a - b) s" by (simp only: typed_def e)
      then show ?thesis using True by auto
    qed auto
  qed
  have "take_typed n (b + 1) ?s = take_typed (Suc n) b s" unfolding take_typed_def e2 by simp
  then show ?case using Suc.prems Suc.IH[of ?s "b + 1"] by (simp add: typed_def)
qed

lemma take_typed_upd: "take_typed n b (upd_file t k f s) = upd_file t k f (take_typed n b s)"
  by (cases s rule: dev_state.cases_scheme) (simp add: take_typed_def upd_file_def typed_def cong: if_cong)

lemma take_typed_simps [simp]: "tables (take_typed n b s) = tables s" "inodes (take_typed n b s) = inodes s"
  "fmem (take_typed n b s) = (\<lambda>a. if b \<le> a \<and> a < b + n then typed (a - b) s else fmem s a)" "p_rpos (take_typed n b s) = p_rpos s + n"
  by (simp_all add: take_typed_def)

lemma file_read_stdin:
  assumes "on_stdin t i s" "p_rpos s + n \<le> p_wpos s" "0 < n"
  shows "file_read dev_node_ops t i b n s = Some (int n, n, move_fpos t i n (take_typed n b s))"
proof -
  obtain k where k: "fnode (entry t (nat i) s) = Some k" "d_kind (devices s k) = Stdin" "inode_check k s"
    using assms(1) by (auto simp: on_stdin_def Let_def split: option.splits)
  note a = assms(1)[unfolded on_stdin_def Let_def]
  have f: "fd2file t i s = Some (Inr (nat i))" using a by (simp add: fd2file_def get_fd_array_def kassert_def)
  define s1 where "s1 = upd_file t (nat i) (\<lambda>x. x\<lparr>fopen_count := fopen_count x + 1\<rparr>) s"
  have s1: "entry t (nat i) s1 = (entry t (nat i) s)\<lparr>fopen_count := fopen_count (entry t (nat i) s) + 1\<rparr>" "inode_check k s1"
    "devices s1 = devices s" using a k by (simp_all add: s1_def)
  have q: "fd_array_acquire t (nat i) s = Some s1" using a by (simp add: fd_array_acquire_def kassert_def s1_def)
  have d: "dev_stdin_read n b s1 = Some (take_typed n b s1)"
    using assms(2) by (intro dev_stdin_read_eq) (simp add: s1_def upd_file_def)
  define s2 where "s2 = upd_file t (nat i) (\<lambda>x. x\<lparr>fpos := fpos x + int n\<rparr>) (take_typed n b s1)"
  have r: "fd_array_release dev_node_ops t (nat i) s2 = Some (move_fpos t i n (take_typed n b s))"
    using a by (simp add: fd_array_release_def kassert_def s2_def s1_def move_fpos_def upd_file_upd take_typed_upd)
  show ?thesis
    using a k s1 r assms(3) by (simp add: file_read_def file_io_def f q vop_op_def dev_node_ops_def dev_read_def dop_io_def stdin_io_def
      kassert_def d iobuf_init_def iobuf_used_def s2_def)
qed

lemma stdin_read_run:
  assumes "mm_wf m" "on_stdin t i s" "0 < len" "n = min len IOBUF_SIZE" "p_rpos s + n \<le> p_wpos s"
  shows "\<exists>m'. sysfile_read dev_node_ops t (Some b) i (Some m) base len s = Some (int n, Some m', let s1 = move_fpos t i n (take_typed n b s) in
    if urange True m base n then s1\<lparr>fmem := memcpy (unat base) b n (fmem s1)\<rparr> else s1) \<and> mm_wf m' \<and> mmap_list m' = mmap_list m"
proof -
  have n: "(if IOBUF_SIZE > len then len else IOBUF_SIZE) = n" "0 < n" "n \<le> len" "n < 2 ^ 64" "n < 2 ^ 31"
    using assms(3,4) by (auto simp: IOBUF_SIZE_def)
  have t: "file_testfd t i True False s = Some True"
    using assms(2) by (simp add: on_stdin_def Let_def file_testfd_def fd2file_def get_fd_array_def kassert_def)
  define s1 where "s1 = move_fpos t i n (take_typed n b s)"
  have f: "file_read dev_node_ops t i b (if IOBUF_SIZE > len then len else IOBUF_SIZE) s = Some (int n, n, s1)"
    unfolding n(1) s1_def by (rule file_read_stdin) (use assms n in auto)
  obtain m1 where m1: "user_mem_check (Some m) base (of_nat n) True = (urange True m base n, Some m1)" "mm_wf m1" "mmap_list m1 = mmap_list m"
    using user_mem_check_iff[OF assms(1) n(2,4)] by blast
  have "sysfile_read dev_node_ops t (Some b) i (Some m) base len s =
      Some (int n, Some m1, if urange True m base n then s1\<lparr>fmem := memcpy (unat base) b n (fmem s1)\<rparr> else s1)"
    using assms(3) n(2,3) int_of_size_small[OF n(5)] by (simp add: sysfile_read_def t sysfile_read_step[OF _ f m1(1)])
  then show ?thesis using m1 by (auto simp: s1_def Let_def)
qed

text \<open>C39: \<^verbatim>\<open>sysfile_read\<close> from \<^verbatim>\<open>stdin\<close> when the characters of a first buffer have been typed. If the process may write that
  much of its range, the call returns their number, the user memory holds them in the order they were typed, no other user
  memory has changed and exactly they are used up. If it may not, the characters are used up all the same, nothing is copied, and
  yet the result is their number.\<close>

theorem sysfile_read_stdin:
  assumes "mm_wf m" "on_stdin t i s" "kbuf b" "0 < len" "n = min len IOBUF_SIZE" "p_rpos s + n \<le> p_wpos s"
  shows "\<exists>m' s'. sysfile_read dev_node_ops t (Some b) i (Some m) base len s = Some (int n, Some m', s') \<and>
    mm_wf m' \<and> mmap_list m' = mmap_list m \<and> p_rpos s' = p_rpos s + n \<and> inodes s' = inodes s \<and>
    (\<forall>x\<in>uaddr. fmem s' x = (if urange True m base n \<and> unat base \<le> x \<and> x < unat base + n then typed (x - unat base) s else fmem s x))"
proof -
  define s1 where "s1 = move_fpos t i n (take_typed n b s)"
  define s2 where "s2 = (if urange True m base n then s1\<lparr>fmem := memcpy (unat base) b n (fmem s1)\<rparr> else s1)"
  obtain m1 where r: "sysfile_read dev_node_ops t (Some b) i (Some m) base len s = Some (int n, Some m1, s2)" "mm_wf m1" "mmap_list m1 = mmap_list m"
    using stdin_read_run[OF assms(1,2,4-6), of b base] by (auto simp: s1_def s2_def Let_def)
  have k: "\<not> (b \<le> x \<and> x < b + n)" if "x \<in> uaddr" for x using that assms(3,5) by (auto simp: kbuf_def uaddr_def)
  have "fmem s2 x = (if urange True m base n \<and> unat base \<le> x \<and> x < unat base + n then typed (x - unat base) s else fmem s x)"
    if "x \<in> uaddr" for x
  proof (cases "urange True m base n")
    case True
    then have "b + n \<le> unat base \<or> unat base + n \<le> b" using assms(3,5) by (auto simp: urange_def kbuf_def)
    then show ?thesis using True k[OF that] by (auto simp: s2_def s1_def memcpy_disjoint blit_def)
  qed (use k[OF that] in \<open>auto simp: s2_def s1_def\<close>)
  moreover have "p_rpos s2 = p_rpos s + n" "inodes s2 = inodes s" by (simp_all add: s2_def s1_def move_fpos_def) (simp add: upd_file_def)
  ultimately show ?thesis using r by blast
qed

subsection \<open>A terminal session\<close>

text \<open>The process of \<open>sample_dev\<close> with the areas of \<open>sample_mm\<close>; five characters have been typed.\<close>

definition sample_tty :: dev_state where
  "sample_tty = sample_dev\<lparr>stdin_buffer := \<lambda>j. of_nat (97 + j), p_wpos := 5\<rparr>"

lemma sample_tty_ok: "on_stdout 1 1 sample_tty" "on_stdin 1 0 sample_tty" "kbuf 4096" "dbuf_off uaddr sample_tty"
  "p_rpos sample_tty + 5 \<le> p_wpos sample_tty"
  by (auto simp: on_stdout_def on_stdin_def sample_tty_def sample_dev_def sample_entry_def testfd_def FILES_STRUCT_NENTRY_def
    inode_check_def MAX_INODE_COUNT_def kbuf_def dbuf_off_def uaddr_def user_consts IOBUF_SIZE_def disk_consts)

lemma sample_urange: "urange False sample_mm 0x800010 3" "\<not> urange False sample_mm 0x700000 (min 3 IOBUF_SIZE)"
  "urange True sample_mm 0x901000 5" "\<not> urange True sample_mm 0x800010 5"
proof -
  note d = access_ok_def sample_mm_def vma_has_def VM_STACK_def VM_WRITE_def VM_READ_def PGSIZE_def
  have "access_ok False sample_mm (0x800010 + of_nat j)" if "j < 3" for j
  proof -
    have "j = 0 \<or> j = 1 \<or> j = 2" using that by auto
    then show ?thesis by (elim disjE) (simp_all add: d)
  qed
  then show "urange False sample_mm 0x800010 3" by (simp add: urange_def user_consts)
  have "access_ok True sample_mm (0x901000 + of_nat j)" if "j < 5" for j
  proof -
    have "j = 0 \<or> j = 1 \<or> j = 2 \<or> j = 3 \<or> j = 4" using that by auto
    then show ?thesis by (elim disjE) (simp_all add: d)
  qed
  then show "urange True sample_mm 0x901000 5" by (simp add: urange_def user_consts)
  have "\<not> access_ok False sample_mm (0x700000 + of_nat 0)" "\<not> access_ok True sample_mm (0x800010 + of_nat 0)" by (simp_all add: d)
  then show "\<not> urange False sample_mm 0x700000 (min 3 IOBUF_SIZE)" "\<not> urange True sample_mm 0x800010 5"
    unfolding urange_def by (auto simp: IOBUF_SIZE_def intro!: exI[of _ 0])
qed

theorem sysfile_write_stdout_witness:
  "(\<exists>m' s'. sysfile_write dev_node_ops 1 (Some 4096) 1 (Some sample_mm) 0x800010 3 sample_tty = Some (3, Some m', s') \<and>
      console s' = [0x10, 0x11, 0x12]) \<and>
   (\<exists>m'. sysfile_write dev_node_ops 1 (Some 4096) 1 (Some sample_mm) 0x700000 3 sample_tty = Some (err E_INVAL, Some m', sample_tty))"
proof -
  note th = sysfile_write_stdout[OF sample_mm_wf sample_tty_ok(1,3) zero_less_numeral]
  have "[unat (0x800010 :: 64 word) ..< unat (0x800010 :: 64 word) + 3] = [0x800010, 0x800011, 0x800012]" by simp
  then have c: "console sample_tty @ map (fmem sample_tty) [unat (0x800010 :: 64 word) ..< unat (0x800010 :: 64 word) + 3] = [0x10, 0x11, 0x12]"
    by (simp only:) (simp add: sample_tty_def sample_dev_def)
  have i: "int 3 = 3" by simp
  show ?thesis
    using conjunct1[OF th[of "0x800010" "num.Bit1 num.One"], rule_format, OF sample_urange(1), unfolded c i]
      conjunct2[OF th[of "0x700000" "num.Bit1 num.One"], rule_format, OF sample_urange(2)] by blast
qed

theorem sysfile_read_stdin_witness:
  "(\<exists>m' s'. sysfile_read dev_node_ops 1 (Some 4096) 0 (Some sample_mm) 0x901000 5 sample_tty = Some (5, Some m', s') \<and>
      fmem s' 0x901004 = 101) \<and>
   (\<exists>m' s'. sysfile_read dev_node_ops 1 (Some 4096) 0 (Some sample_mm) 0x800010 5 sample_tty = Some (5, Some m', s') \<and>
      fmem s' 0x800010 = 0x10)"
proof -
  have n: "5 = min 5 IOBUF_SIZE" by (simp add: IOBUF_SIZE_def)
  have u: "0x901004 \<in> uaddr" "0x800010 \<in> uaddr" by (simp_all add: uaddr_def user_consts)
  have v: "typed 4 sample_tty = 101" "fmem sample_tty 0x800010 = 0x10"
    by (simp_all add: typed_def sample_tty_def sample_dev_def STDIN_BUFSIZE_def)
  note th = sysfile_read_stdin[OF sample_mm_wf sample_tty_ok(2,3) _ n sample_tty_ok(5)]
  show ?thesis using th[of "0x901000"] th[of "0x800010"] sample_urange(3,4) u v by fastforce
qed

theorem sysfile_read_confined_witness:
  "\<exists>r mo s'. sysfile_read dev_node_ops 1 (Some 4096) 0 (Some sample_mm) 0x901000 5 sample_tty = Some (r, mo, s') \<and>
     fmem s' 0x800010 = fmem sample_tty 0x800010"
proof -
  have n: "5 = min 5 IOBUF_SIZE" by (simp add: IOBUF_SIZE_def)
  obtain r mo s' where r: "sysfile_read dev_node_ops 1 (Some 4096) 0 (Some sample_mm) 0x901000 5 sample_tty = Some (r, mo, s')"
    using stdin_read_run[OF sample_mm_wf sample_tty_ok(2) _ n sample_tty_ok(5)] by (metis zero_less_numeral)
  have u: "0x800010 \<in> uaddr" by (simp add: uaddr_def user_consts)
  have "fmem s' 0x800010 = fmem sample_tty 0x800010"
    using sysfile_read_confined[OF sample_mm_wf sample_tty_ok(3,4) _ r] u by fastforce
  then show ?thesis using r by blast
qed

end
