(* ===== verification/Spec2Isabelle.thy ===== *)
theory Spec2Isabelle
  imports Philosophers Printfmt Proc Swap Sysfile
begin

text \<open>
  Verification of the ucore kernel for RISC-V (C sources under \<^verbatim>\<open>src/kern\<close> and \<^verbatim>\<open>src/libs\<close>).

  \<^bold>\<open>The program.\<close> A teaching kernel: physical pages (\<^verbatim>\<open>kern/mm/default_pmm.c\<close>, \<^verbatim>\<open>pmm.c\<close>) are mapped by three-level page
  tables into address spaces made of areas (\<^verbatim>\<open>vmm.c\<close>); pages are created on a fault or read back from swap (\<^verbatim>\<open>swap*.c\<close>).
  Processes (\<^verbatim>\<open>kern/process/proc.c\<close>) are forked, exit and are waited for; the stride scheduler keeps runnable ones in a skew
  heap (\<^verbatim>\<open>kern/schedule\<close>, \<^verbatim>\<open>libs/skew_heap.h\<close>), blocked ones sit in wait queues, semaphores and the timer list
  (\<^verbatim>\<open>kern/sync\<close>). Each process has a table of open files (\<^verbatim>\<open>kern/fs/file.c\<close>) whose entries refer to inodes of the virtual
  file system (\<^verbatim>\<open>kern/fs/vfs\<close>), which calls devices and pipes through tables of function pointers.

  \<^bold>\<open>Conventions.\<close> Operations are functions on an explicit state. \<open>None\<close> is a failed assertion, a panic, an access the C
  code has no defined result for, or a loop that does not end; an error return is the C \<^verbatim>\<open>int\<close> (\<open>err e\<close> is the negated
  code) or the left side of a sum. Pointers to structures are numbers into a store, \<^verbatim>\<open>struct\<close>s are records, the list
  links of \<^verbatim>\<open>libs/list.h\<close> that carry data the proofs depend on (page allocator, skew heap, clock list) are kept as links,
  the others are lists. What \<^verbatim>\<open>kmalloc\<close> returns is an argument, so running out of memory is covered. Addresses, page table
  entries, strides and hash values are words of their C width; counters that the code keeps small are \<open>nat\<close> or \<open>int\<close>.
  A function that sleeps is two definitions, up to the call of \<^verbatim>\<open>schedule\<close> and after it.

  \<^bold>\<open>Theories.\<close>
  \<^item> \<open>Kern_Prelude\<close>: error codes (\<^verbatim>\<open>libs/error.h\<close>), results, assertions, lemmas on words, lists and options;
    \<^verbatim>\<open>hash32\<close> and \<^verbatim>\<open>rand\<close>.
  \<^item> \<open>Ring\<close>: the circular lists of \<^verbatim>\<open>libs/list.h\<close> on a store of links, and that they represent a list.
  \<^item> \<open>Skew_Heap\<close>: \<^verbatim>\<open>libs/skew_heap.h\<close>; merging keeps the nodes and the heap order, removal takes out one node.
  \<^item> \<open>Libc_String\<close>: \<^verbatim>\<open>libs/string.c\<close>, \<^verbatim>\<open>atoi.c\<close> over a byte memory; \<open>Printfmt\<close>: \<^verbatim>\<open>libs/printfmt.c\<close>. Copies move the
    bytes they should, \<^verbatim>\<open>vsnprintf\<close> stays in its buffer, printed numbers are read back.
  \<^item> \<open>Default_Pmm\<close>: the first-fit allocator. Allocation takes the first block that is large enough, freeing merges with the
    neighbours; freeing above all free blocks corrupts the list, and a page can then be allocated twice.
  \<^item> \<open>Frame_Pool\<close>, \<open>Page_Table\<close>, \<open>Address_Space\<close>: \<^verbatim>\<open>pmm.c\<close>. The allocator is seen through a set of free frames; table pages
    and reference counts form the invariant \<open>kinv\<close>, which mapping, unmapping and removal of ranges keep.
  \<^item> \<open>Vmm\<close>: areas, \<^verbatim>\<open>find_vma\<close> with its cache, \<^verbatim>\<open>mm_map\<close>, \<^verbatim>\<open>user_mem_check\<close>, \<^verbatim>\<open>copy_string\<close>.
  \<^item> \<open>Swap\<close>: \<^verbatim>\<open>swap.c\<close>, \<^verbatim>\<open>swap_fifo.c\<close>, \<^verbatim>\<open>swap_clock.c\<close>, \<^verbatim>\<open>swapfs.c\<close> and \<^verbatim>\<open>do_pgfault\<close>. A fault on an area's page ends with
    that page mapped, zeroed or read from its slot; the locale \<open>swap_manager\<close> is the contract of a replacement policy.
  \<^item> \<open>Proc_State\<close>, \<open>Proc_Table\<close>: \<^verbatim>\<open>struct proc_struct\<close>, pids, the hash table, the family links. \<open>Sched\<close>: the stride class
    and \<^verbatim>\<open>sched.c\<close>, with the share of each process and the absence of starvation. \<open>Timers\<close>: the list of relative deadlines.
  \<^item> \<open>Sync\<close>: wait queues and semaphores, which refine a counter with a queue. \<open>Philosophers\<close>: \<^verbatim>\<open>check_sync.c\<close> on them as a
    step relation; neighbours never eat together and everybody finishes.
  \<^item> \<open>Proc\<close>: \<^verbatim>\<open>do_fork\<close>, \<^verbatim>\<open>do_exit\<close>, \<^verbatim>\<open>do_wait\<close>, \<^verbatim>\<open>do_kill\<close> and what they call, on the state of all parts above.
  \<^item> \<open>Vfs\<close>, \<open>File_Table\<close>: inodes, paths, opening, descriptors. The locale \<open>inode_driver\<close> is what they need of a driver;
    under it the counts of an inode are exactly the references from open files and directories. \<open>Devices\<close> (stdin, stdout,
    disk0, the RAM disk) and \<open>Pipe\<close> interpret it; a pipe delivers the bytes written in order.
  \<^item> \<open>Sysfile\<close>: \<^verbatim>\<open>kern/fs/sysfile.c\<close>, the calls of user programs on files, with \<^verbatim>\<open>copy_from_user\<close> and \<^verbatim>\<open>copy_to_user\<close>. What
    is written to the console are the bytes of user memory, what is read are the characters typed, and under the locale
    \<open>confined_driver\<close>, which the devices satisfy, reading changes user memory only where the process may write.

  \<^bold>\<open>Bounds.\<close> Loops that may not end are partial functions in the option monad, and the theorems state that they return.
  There is no fuel, except that a schedule of the stride scheduler is a list of ticks of any length.

  \<^bold>\<open>Not modelled.\<close> The simple file system (\<^verbatim>\<open>kern/fs/sfs\<close>), a driver below the interface of \<open>Vfs\<close>; \<^verbatim>\<open>load_icode\<close> and
  \<^verbatim>\<open>do_execve\<close>, which read an ELF image from it; the SLOB allocator (\<^verbatim>\<open>kmalloc.c\<close>), whose results are arguments;
  \<^verbatim>\<open>vfs_getcwd\<close>; monitors (\<^verbatim>\<open>monitor.c\<close>); the dispatch of traps and system calls on hardware registers; \<^verbatim>\<open>page_init\<close>, boot code and
  assembly, which depend on firmware and linker symbols; console, debugger and messages; the self tests (\<^verbatim>\<open>check_*\<close>);
  user programs and host tools. Interrupts do not occur inside an operation: the sources disable them around shared data.
\<close>

end
